(* ===== verification/Prelude.thy ===== *)
theory Prelude
  imports Main "HOL-Library.Sublist" "HOL-Library.List_Lexorder" "HOL-Library.Char_ord"
begin

text \<open>
  Shared vocabulary of the development. Go strings are byte sequences, so they are
  HOL strings (lists of 8-bit characters) ordered lexicographically by byte, which is
  the order of Go's comparison operators and of \<open>sort.Strings\<close>. The theory holds the
  parts of Go's \<open>strings\<close>, \<open>path\<close> and \<open>sort\<close> packages the sources call, the result
  type of fallible code, and the list lemmas every component uses.
\<close>

named_theorems go_string \<open>defining equations of the string helpers\<close>

type_synonym bytes = string

abbreviation slash :: char where "slash \<equiv> CHR ''/''"
abbreviation nul :: char where "nul \<equiv> CHR 0x00"

subsection \<open>Results of fallible code\<close>

text \<open>\<open>Inl\<close> is a returned error, \<open>Inr\<close> a value; \<open>bind_res\<close> is the early return
  \<open>if err != nil { return ..., err }\<close>.\<close>

definition bind_res :: "'e + 'a \<Rightarrow> ('a \<Rightarrow> 'e + 'b) \<Rightarrow> 'e + 'b" where
  "bind_res r f = (case r of Inl e \<Rightarrow> Inl e | Inr a \<Rightarrow> f a)"

definition check_that :: "bool \<Rightarrow> 'e \<Rightarrow> 'e + unit" where
  "check_that ok e = (if ok then Inr () else Inl e)"

fun is_ok :: "'e + 'a \<Rightarrow> bool" where
  "is_ok (Inl _) = False"
| "is_ok (Inr _) = True"

text \<open>A loop over a list that stops at the first error.\<close>

fun each_ok :: "('a \<Rightarrow> 'e + unit) \<Rightarrow> 'a list \<Rightarrow> 'e + unit" where
  "each_ok f [] = Inr ()"
| "each_ok f (x # xs) = (case f x of Inl e \<Rightarrow> Inl e | Inr _ \<Rightarrow> each_ok f xs)"

lemma bind_res_simps [simp]:
  "bind_res (Inl e) f = Inl e" "bind_res (Inr a) f = f a"
  by (simp_all add: bind_res_def)

lemma bind_res_Inr_iff: "bind_res r f = Inr b \<longleftrightarrow> (\<exists>a. r = Inr a \<and> f a = Inr b)"
  by (cases r) auto

lemma is_ok_iff: "is_ok r \<longleftrightarrow> (\<exists>a. r = Inr a)"
  by (cases r) auto

lemma is_ok_bind [simp]: "is_ok (bind_res r f) \<longleftrightarrow> (\<exists>a. r = Inr a \<and> is_ok (f a))"
  by (cases r) auto

lemma is_ok_seq [simp]: "is_ok (bind_res r (\<lambda>_. x)) \<longleftrightarrow> is_ok r \<and> is_ok x"
  by (cases r) auto

lemma is_ok_unit: "is_ok r \<longleftrightarrow> r = Inr ()"
  by (cases r) auto

lemma is_ok_check [simp]: "is_ok (check_that b e) \<longleftrightarrow> b"
  by (simp add: check_that_def)

lemma check_that_Inr [simp]: "check_that b e = Inr u \<longleftrightarrow> b"
  by (simp add: check_that_def)

lemma is_ok_each [simp]: "is_ok (each_ok f xs) \<longleftrightarrow> (\<forall>x \<in> set xs. is_ok (f x))"
  by (induction xs) (auto split: sum.splits simp: is_ok_iff)

subsection \<open>The \<open>strings\<close> package\<close>

definition has_prefix :: "string \<Rightarrow> string \<Rightarrow> bool" where
  [go_string]: "has_prefix s p \<longleftrightarrow> prefix p s"

definition has_suffix :: "string \<Rightarrow> string \<Rightarrow> bool" where
  [go_string]: "has_suffix s p \<longleftrightarrow> suffix p s"

definition trim_prefix :: "string \<Rightarrow> string \<Rightarrow> string" where
  [go_string]: "trim_prefix s p = (if prefix p s then drop (length p) s else s)"

definition trim_suffix :: "string \<Rightarrow> string \<Rightarrow> string" where
  [go_string]: "trim_suffix s p = (if suffix p s then take (length s - length p) s else s)"

definition contains_any :: "string \<Rightarrow> string \<Rightarrow> bool" where
  [go_string]: "contains_any s cs \<longleftrightarrow> list_ex (\<lambda>c. c \<in> set cs) s"

definition trim_left :: "string \<Rightarrow> string \<Rightarrow> string" where
  [go_string]: "trim_left s cs = dropWhile (\<lambda>c. c \<in> set cs) s"

definition trim_right :: "string \<Rightarrow> string \<Rightarrow> string" where
  [go_string]: "trim_right s cs = rev (dropWhile (\<lambda>c. c \<in> set cs) (rev s))"

definition trim_both :: "string \<Rightarrow> string \<Rightarrow> string" where
  [go_string]: "trim_both s cs = trim_right (trim_left s cs) cs"

definition count_char :: "char \<Rightarrow> string \<Rightarrow> nat" where
  [go_string]: "count_char c s = length (filter ((=) c) s)"

text \<open>\<open>strings.Split\<close> with a one-byte separator, and \<open>strings.Join\<close>.\<close>

fun split_on :: "char \<Rightarrow> string \<Rightarrow> string list" where
  "split_on c [] = [[]]"
| "split_on c (x # xs) =
     (if x = c then [] # split_on c xs
      else (case split_on c xs of [] \<Rightarrow> [[x]] | y # ys \<Rightarrow> (x # y) # ys))"

fun join_with :: "char \<Rightarrow> string list \<Rightarrow> string" where
  "join_with c [] = []"
| "join_with c [x] = x"
| "join_with c (x # y # ys) = x @ c # join_with c (y # ys)"

text \<open>\<open>strings.LastIndexByte\<close>: the position of the last occurrence, if any.\<close>

fun last_index :: "char \<Rightarrow> string \<Rightarrow> nat option" where
  "last_index c [] = None"
| "last_index c (x # xs) =
     (case last_index c xs of Some i \<Rightarrow> Some (Suc i) | None \<Rightarrow> (if x = c then Some 0 else None))"

text \<open>\<open>strings.Index\<close>: the position of the first occurrence of a substring, if any.\<close>

fun index_of :: "string \<Rightarrow> string \<Rightarrow> nat option" where
  "index_of [] p = (if p = [] then Some 0 else None)"
| "index_of (x # xs) p = (if prefix p (x # xs) then Some 0 else map_option Suc (index_of xs p))"

definition contains_str :: "string \<Rightarrow> string \<Rightarrow> bool" where
  [go_string]: "contains_str s p \<longleftrightarrow> index_of s p \<noteq> None"

text \<open>ASCII case mapping. \<open>strings.EqualFold\<close> against an ASCII word without the letters
  k and s (the only ASCII letters with a non-ASCII simple fold) is ASCII folding.\<close>

definition ascii_lower :: "char \<Rightarrow> char" where
  "ascii_lower c = (if CHR ''A'' \<le> c \<and> c \<le> CHR ''Z'' then char_of (of_char c + 32 :: nat) else c)"

definition ascii_upper :: "char \<Rightarrow> char" where
  "ascii_upper c = (if CHR ''a'' \<le> c \<and> c \<le> CHR ''z'' then char_of (of_char c - 32 :: nat) else c)"

definition equal_fold :: "string \<Rightarrow> string \<Rightarrow> bool" where
  [go_string]: "equal_fold s t \<longleftrightarrow> map ascii_lower s = map ascii_lower t"

lemma split_on_nonempty [simp]: "split_on c s \<noteq> []"
  by (induction s) (auto split: list.splits)

lemma split_on_no_sep: "e \<in> set (split_on c s) \<Longrightarrow> c \<notin> set e"
  by (induction s arbitrary: e) (auto split: list.splits if_splits)

lemma join_split [simp]: "join_with c (split_on c s) = s"
proof (induction s)
  case (Cons x xs)
  then show ?case
    by (cases "split_on c xs"; cases "tl (split_on c xs)") (auto split: list.splits)
qed simp

lemma split_on_plain: "c \<notin> set e \<Longrightarrow> split_on c e = [e]"
  by (induction e) auto

lemma split_on_append: "c \<notin> set e \<Longrightarrow> split_on c (e @ c # s) = e # split_on c s"
  by (induction e) auto

lemma split_on_append_any: "split_on c (s @ c # t) = split_on c s @ split_on c t"
  by (induction s) (auto split: list.splits)

lemma split_join:
  "es \<noteq> [] \<Longrightarrow> \<forall>e \<in> set es. c \<notin> set e \<Longrightarrow> split_on c (join_with c es) = es"
proof (induction es rule: join_with.induct)
  case (3 c x y ys)
  then show ?case by (simp add: split_on_append)
qed (auto simp: split_on_plain)

lemma join_with_Cons: "es \<noteq> [] \<Longrightarrow> join_with c (e # es) = e @ c # join_with c es"
  by (cases es) auto

lemma join_with_append:
  "xs \<noteq> [] \<Longrightarrow> ys \<noteq> [] \<Longrightarrow> join_with c (xs @ ys) = join_with c xs @ c # join_with c ys"
proof (induction xs)
  case (Cons x xs)
  then show ?case by (cases "xs = []") (auto simp: join_with_Cons)
qed simp

lemma join_with_eq_Nil: "join_with c es = [] \<longleftrightarrow> es = [] \<or> es = [[]]"
  by (cases es; cases "tl es") auto

lemma last_index_None: "last_index c s = None \<longleftrightarrow> c \<notin> set s"
  by (induction s) (auto split: option.splits)

lemma last_index_append:
  "c \<notin> set t \<Longrightarrow> last_index c (s @ c # t) = Some (length s)"
proof (induction s)
  case Nil
  then have "last_index c t = None" by (simp add: last_index_None)
  then show ?case by simp
qed simp

lemma last_index_Some:
  "last_index c s = Some i \<Longrightarrow> i < length s \<and> s ! i = c \<and> c \<notin> set (drop (Suc i) s)"
proof (induction s arbitrary: i)
  case (Cons x xs)
  then show ?case
    by (auto split: option.splits if_splits simp: last_index_None)
qed simp

lemma count_char_append [simp]: "count_char c (s @ t) = count_char c s + count_char c t"
  by (simp add: count_char_def)

lemma count_char_simps [simp]:
  "count_char c [] = 0" "count_char c (x # xs) = (if x = c then Suc (count_char c xs) else count_char c xs)"
  by (auto simp: count_char_def)

subsection \<open>The \<open>sort\<close> package\<close>

text \<open>\<open>sort.Search\<close>: binary search for the first index below \<open>n\<close> at which \<open>f\<close> holds.\<close>

function sort_search_loop :: "(nat \<Rightarrow> bool) \<Rightarrow> nat \<Rightarrow> nat \<Rightarrow> nat" where
  "sort_search_loop f i j =
     (if i < j then
        let h = (i + j) div 2
        in if \<not> f h then sort_search_loop f (h + 1) j else sort_search_loop f i h
      else i)"
  by pat_completeness auto
termination
  by (relation "measure (\<lambda>(f, i, j). j - i)") auto

declare sort_search_loop.simps [simp del]

definition sort_search :: "nat \<Rightarrow> (nat \<Rightarrow> bool) \<Rightarrow> nat" where
  "sort_search n f = sort_search_loop f 0 n"

definition upward :: "nat \<Rightarrow> (nat \<Rightarrow> bool) \<Rightarrow> bool" where
  "upward n f \<longleftrightarrow> (\<forall>a b. a \<le> b \<longrightarrow> b < n \<longrightarrow> f a \<longrightarrow> f b)"

definition splits_at :: "nat \<Rightarrow> (nat \<Rightarrow> bool) \<Rightarrow> nat \<Rightarrow> bool" where
  "splits_at n f k \<longleftrightarrow> k \<le> n \<and> (\<forall>a < k. \<not> f a) \<and> (\<forall>a. k \<le> a \<longrightarrow> a < n \<longrightarrow> f a)"

lemma sort_search_loop_splits:
  assumes "upward n f" "i \<le> j" "j \<le> n" "\<forall>a < i. \<not> f a" "\<forall>a. j \<le> a \<longrightarrow> a < n \<longrightarrow> f a"
  shows "splits_at n f (sort_search_loop f i j)"
  using assms
proof (induction f i j rule: sort_search_loop.induct)
  case (1 f i j)
  let ?h = "(i + j) div 2"
  show ?case
  proof (cases "i < j")
    case True
    have h: "i \<le> ?h" "?h < j" "?h + 1 \<le> j" "?h \<le> n" using True "1.prems"(3) by auto
    show ?thesis
    proof (cases "f ?h")
      case False
      have "\<not> f a" if "a < ?h + 1" for a
      proof
        assume "f a"
        moreover have "a \<le> ?h" "?h < n" using that h(2) "1.prems"(3) by linarith+
        ultimately show False using "1.prems"(1) False unfolding upward_def by blast
      qed
      then have "splits_at n f (sort_search_loop f (?h + 1) j)"
        by (intro "1.IH"(1) [OF True refl False "1.prems"(1) h(3) "1.prems"(3) _ "1.prems"(5)]) blast
      moreover have "sort_search_loop f i j = sort_search_loop f (?h + 1) j"
        using True False by (subst sort_search_loop.simps) (simp add: Let_def)
      ultimately show ?thesis by simp
    next
      case hold: True
      have "\<forall>a. ?h \<le> a \<longrightarrow> a < n \<longrightarrow> f a" using hold "1.prems"(1) unfolding upward_def by blast
      then have "splits_at n f (sort_search_loop f i ?h)"
        by (intro "1.IH"(2) [OF True refl _ "1.prems"(1) h(1,4) "1.prems"(4)]) (simp_all add: hold)
      moreover have "sort_search_loop f i j = sort_search_loop f i ?h"
        using True hold by (subst sort_search_loop.simps) (simp add: Let_def)
      ultimately show ?thesis by simp
    qed
  next
    case False
    then have "i = j" using "1.prems"(2) by simp
    then show ?thesis using "1.prems"(3-5) by (simp add: sort_search_loop.simps [of f j j] splits_at_def)
  qed
qed

lemma sort_search_splits: "upward n f \<Longrightarrow> splits_at n f (sort_search n f)"
  unfolding sort_search_def by (rule sort_search_loop_splits) auto

text \<open>On a strictly sorted list of keys the search finds a key exactly when it is there.\<close>

lemma sort_search_lower_bound:
  fixes ks :: "'a :: linorder list" and k :: 'a
  assumes "sorted_wrt (<) ks"
  defines "j \<equiv> sort_search (length ks) (\<lambda>j. ks ! j \<ge> k)"
  shows "j \<le> length ks" "\<forall>x \<in> set (take j ks). x < k" "\<forall>x \<in> set (drop j ks). k \<le> x"
    "k \<in> set ks \<longleftrightarrow> j < length ks \<and> ks ! j = k"
proof -
  have so: "sorted ks" using assms(1) by (simp add: strict_sorted_iff)
  then have "upward (length ks) (\<lambda>j. ks ! j \<ge> k)"
    unfolding upward_def by (meson order.trans sorted_nth_mono)
  then have sp: "splits_at (length ks) (\<lambda>j. ks ! j \<ge> k) j"
    unfolding j_def by (rule sort_search_splits)
  show jl: "j \<le> length ks" using sp by (simp add: splits_at_def)
  show lo: "\<forall>x \<in> set (take j ks). x < k"
    using sp by (force simp: in_set_conv_nth not_le splits_at_def)
  show hi: "\<forall>x \<in> set (drop j ks). k \<le> x"
    using sp by (force simp: in_set_conv_nth splits_at_def)
  have "j < length ks \<and> ks ! j = k" if k: "k \<in> set ks"
  proof -
    obtain i where i: "i < length ks" "ks ! i = k" using k by (auto simp: in_set_conv_nth)
    then have ji: "j \<le> i" using sp unfolding splits_at_def by (metis not_le order_refl)
    then have "k \<le> ks ! j" "ks ! j \<le> ks ! i"
      using sp i so by (auto simp: splits_at_def intro: sorted_nth_mono)
    then show ?thesis using i ji by simp
  qed
  then show "k \<in> set ks \<longleftrightarrow> j < length ks \<and> ks ! j = k" by auto
qed

lemma sort_search_loop_cong:
  "\<forall>a < j. f a = g a \<Longrightarrow> sort_search_loop f i j = sort_search_loop g i j"
proof (induction f i j rule: sort_search_loop.induct)
  case (1 f i j)
  show ?case
  proof (cases "i < j")
    case True
    let ?h = "(i + j) div 2"
    have "?h < j" using True by simp
    then have eq: "f ?h = g ?h" "\<forall>a < ?h. f a = g a" using "1.prems" by auto
    show ?thesis
      using "1.IH"(1) [OF True refl _ "1.prems"] "1.IH"(2) [OF True refl _ eq(2)] True eq(1)
      by (subst (1 2) sort_search_loop.simps) (simp add: Let_def)
  next
    case False
    then show ?thesis by (subst (1 2) sort_search_loop.simps) simp
  qed
qed

lemma sort_search_cong: "\<forall>a < n. f a = g a \<Longrightarrow> sort_search n f = sort_search n g"
  by (simp add: sort_search_def sort_search_loop_cong)

text \<open>The search over the first \<open>i\<close> elements of a list sorted by a key.\<close>

lemma sort_search_key:
  fixes key :: "'a \<Rightarrow> 'b :: linorder" and k :: 'b
  assumes "sorted_wrt (<) (map key (take i xs))" "i \<le> length xs"
  defines "j \<equiv> sort_search i (\<lambda>j. key (xs ! j) \<ge> k)"
  shows "j \<le> i" "\<forall>x \<in> set (take j xs). key x < k" "\<forall>x \<in> set (drop j (take i xs)). k \<le> key x"
    "k \<in> key ` set (take i xs) \<longleftrightarrow> j < i \<and> key (xs ! j) = k"
proof -
  let ?ks = "map key (take i xs)"
  have len: "length ?ks = i" using assms(2) by simp
  have "j = sort_search (length ?ks) (\<lambda>j. ?ks ! j \<ge> k)"
    unfolding j_def len by (rule sort_search_cong) (use assms(2) in auto)
  note lb = sort_search_lower_bound [OF assms(1), of k, folded this, unfolded len]
  show ji: "j \<le> i" by (rule lb(1))
  show "\<forall>x \<in> set (take j xs). key x < k" using lb(2) ji by (simp add: take_map min_def)
  show "\<forall>x \<in> set (drop j (take i xs)). k \<le> key x" using lb(3) by (simp add: drop_map)
  show "k \<in> key ` set (take i xs) \<longleftrightarrow> j < i \<and> key (xs ! j) = k"
    using lb(4) assms(2) by auto
qed

text \<open>\<open>slices.BinarySearchFunc\<close> with a comparison of keys: the insertion position, and whether
  the key is there.\<close>

definition binary_search :: "('a \<Rightarrow> 'b :: linorder) \<Rightarrow> 'a list \<Rightarrow> 'b \<Rightarrow> nat \<times> bool" where
  "binary_search key xs k =
     (let i = sort_search (length xs) (\<lambda>j. \<not> key (xs ! j) < k)
      in (i, i < length xs \<and> key (xs ! i) = k))"

lemma binary_search_sorted:
  assumes "sorted_wrt (<) (map key xs)" "binary_search key xs k = (i, found)"
  shows "i \<le> length xs" "\<forall>x \<in> set (take i xs). key x < k" "\<forall>x \<in> set (drop i xs). k \<le> key x"
    "found \<longleftrightarrow> k \<in> key ` set xs" "found \<Longrightarrow> i < length xs \<and> key (xs ! i) = k"
    "found \<Longrightarrow> \<forall>x \<in> set (drop (Suc i) xs). k < key x" "\<not> found \<Longrightarrow> \<forall>x \<in> set (drop i xs). k < key x"
proof -
  have i: "i = sort_search (length xs) (\<lambda>j. key (xs ! j) \<ge> k)" and f: "found \<longleftrightarrow> i < length xs \<and> key (xs ! i) = k"
    using assms(2) by (auto simp: binary_search_def Let_def not_less)
  note search = sort_search_key [of key "length xs" xs k, folded i]
  show len: "i \<le> length xs" and "\<forall>x \<in> set (take i xs). key x < k" and ge: "\<forall>x \<in> set (drop i xs). k \<le> key x"
    and iff: "found \<longleftrightarrow> k \<in> key ` set xs"
    using search assms(1) f by simp_all
  show at: "i < length xs \<and> key (xs ! i) = k" if found using that f by simp
  show "\<forall>x \<in> set (drop (Suc i) xs). k < key x" if found
  proof -
    have "drop i xs = xs ! i # drop (Suc i) xs" using at [OF that] by (simp add: Cons_nth_drop_Suc)
    moreover have "sorted_wrt (<) (map key (drop i xs))" using assms(1) by (simp add: drop_map [symmetric] sorted_wrt_drop)
    ultimately show ?thesis using at [OF that] by simp
  qed
  show "\<forall>x \<in> set (drop i xs). k < key x" if "\<not> found"
    using that ge iff by (metis image_eqI in_set_dropD order_le_imp_less_or_eq)
qed

end
