(* ===== verification/Relpath.thy ===== *)
theory Relpath
  imports Prelude
begin

text \<open>
  Package \<open>internal/relpath\<close>: single-pass answers to \<open>path.Clean\<close> and \<open>path.Dir\<close>
  questions. \<open>path_clean\<close>, \<open>path_dir\<close> and \<open>path_join\<close> are Go's \<open>path\<close> package, written
  over the slash-separated elements of the path; \<open>IsClean\<close> and \<open>Dir\<close> are the
  optimised routines of the source. The theory shows that the routines agree with the
  package functions and gives the parent-directory facts the other components use.
\<close>

subsection \<open>Go's \<open>path\<close> package\<close>

text \<open>\<open>path.Clean\<close> reads the elements from the left; the output built so far is the
  reversed list \<open>out\<close>. An element \<open>..\<close> removes the last output element unless that is
  itself \<open>..\<close>; at the start of a relative path it is kept, of a rooted path dropped.\<close>

fun clean_elems :: "bool \<Rightarrow> string list \<Rightarrow> string list \<Rightarrow> string list" where
  "clean_elems rooted out [] = rev out"
| "clean_elems rooted out (e # es) =
     (if e = '''' \<or> e = ''.'' then clean_elems rooted out es
      else if e = ''..'' then
        (if out \<noteq> [] \<and> hd out \<noteq> ''..'' then clean_elems rooted (tl out) es
         else if \<not> rooted then clean_elems rooted (''..'' # out) es
         else clean_elems rooted out es)
      else clean_elems rooted (e # out) es)"

definition path_clean :: "string \<Rightarrow> string" where
  "path_clean p =
     (if p = '''' then ''.''
      else let rooted = (hd p = slash);
               body = join_with slash (clean_elems rooted [] (split_on slash p))
           in if rooted then slash # body else if body = '''' then ''.'' else body)"

text \<open>\<open>path.Dir\<close> cleans everything up to and including the last slash.\<close>

definition path_dir :: "string \<Rightarrow> string" where
  "path_dir p =
     path_clean (case last_index slash p of None \<Rightarrow> '''' | Some i \<Rightarrow> take (Suc i) p)"

definition path_join :: "string \<Rightarrow> string \<Rightarrow> string" where
  "path_join a b =
     (if a = '''' then (if b = '''' then '''' else path_clean b)
      else if b = '''' then path_clean a else path_clean (a @ slash # b))"

subsection \<open>The routines of the source\<close>

text \<open>One element of the scan: \<open>None\<close> is the early \<open>return false\<close>, \<open>Some\<close> the new value
  of \<open>leading\<close>.\<close>

fun check_element :: "bool \<Rightarrow> string \<Rightarrow> bool option" where
  "check_element leading e =
     (if e = '''' \<or> e = ''.'' then None
      else if e = ''..'' then (if leading then Some leading else None)
      else Some False)"

text \<open>The byte loop: \<open>el\<close> is \<open>p[start:i]\<close> and the last argument \<open>p[i:]\<close>; the end of the
  string closes the last element.\<close>

fun is_clean_loop :: "bool \<Rightarrow> string \<Rightarrow> string \<Rightarrow> bool" where
  "is_clean_loop leading el [] = (check_element leading el \<noteq> None)"
| "is_clean_loop leading el (c # cs) =
     (if c \<noteq> slash then is_clean_loop leading (el @ [c]) cs
      else (case check_element leading el of
              None \<Rightarrow> False
            | Some leading' \<Rightarrow> is_clean_loop leading' [] cs))"

definition IsClean :: "string \<Rightarrow> bool" where
  "IsClean p =
     (if p = '''' then False
      else if p = ''.'' \<or> p = ''/'' then True
      else if hd p = slash then is_clean_loop False [] (tl p)
      else is_clean_loop True [] p)"

definition Dir :: "string \<Rightarrow> string" where
  "Dir p =
     (case last_index slash p of
        None \<Rightarrow> ''.''
      | Some i \<Rightarrow> (if i = 0 then ''/'' else take i p))"

subsection \<open>Element lists\<close>

text \<open>A list of elements as it stands in a clean path: a leading run of \<open>..\<close> (relative
  paths only), then ordinary elements.\<close>

fun clean_list :: "bool \<Rightarrow> string list \<Rightarrow> bool" where
  "clean_list leading [] = True"
| "clean_list leading (e # es) =
     (case check_element leading e of None \<Rightarrow> False | Some l \<Rightarrow> clean_list l es)"

lemma is_clean_loop_split:
  assumes "slash \<notin> set el"
  shows "is_clean_loop leading el s = clean_list leading (split_on slash (el @ s))"
  using assms
proof (induction leading el s rule: is_clean_loop.induct)
  case (1 leading el)
  then show ?case by (auto simp: split_on_plain split: option.splits)
next
  case (2 leading el c cs)
  then show ?case
    by (cases "c = slash") (auto simp: split_on_append split: option.splits)
qed

lemma clean_elems_id:
  assumes "clean_list leading es"
    and "leading \<Longrightarrow> \<not> rooted \<and> (\<forall>e \<in> set out. e = ''..'')"
  shows "clean_elems rooted out es = rev out @ es"
  using assms
proof (induction es arbitrary: leading out)
  case (Cons e es)
  show ?case
  proof (cases "e = ''..''")
    case True
    with Cons.prems have l: "leading" and l': "clean_list leading es"
      by (auto split: if_splits)
    have "\<not> (out \<noteq> [] \<and> hd out \<noteq> ''..'')" using Cons.prems(2) [OF l] by (cases out) auto
    moreover have "clean_elems rooted (''..'' # out) es = rev (''..'' # out) @ es"
      using Cons.prems(2) l by (intro Cons.IH [OF l']) auto
    ultimately show ?thesis using True Cons.prems(2) [OF l] by auto
  next
    case False
    with Cons.prems have ne: "e \<noteq> ''''" "e \<noteq> ''.''" and l': "clean_list False es"
      by (auto split: if_splits)
    have "clean_elems rooted (e # out) es = rev (e # out) @ es"
      by (rule Cons.IH [OF l']) simp
    with ne False show ?thesis by simp
  qed
qed simp

text \<open>The reversed output of \<open>path.Clean\<close> is always a clean list, and stays one.\<close>

lemma clean_list_append_ord:
  "clean_list l (es @ [e]) \<longleftrightarrow>
     clean_list l es \<and> (if e = ''..'' then l \<and> (\<forall>x \<in> set es. x = ''..'')
                        else e \<noteq> '''' \<and> e \<noteq> ''.'')"
  by (induction es arbitrary: l) (auto split: if_splits option.splits)

lemma clean_elems_clean:
  assumes "clean_list (\<not> rooted) (rev out)"
  shows "clean_list (\<not> rooted) (clean_elems rooted out es)"
  using assms
proof (induction rooted out es rule: clean_elems.induct)
  case (2 rooted out e es)
  have tl: "clean_list (\<not> rooted) (rev (tl out))" if "out \<noteq> []"
    using that "2.prems" by (cases out) (auto simp: clean_list_append_ord)
  have dd: "\<forall>x \<in> set out. x = ''..''" if "out = [] \<or> hd out = ''..''"
    using that "2.prems" by (cases out) (auto simp: clean_list_append_ord)
  show ?case
    using "2" tl dd by (auto simp: clean_list_append_ord)
qed simp

lemma clean_elems_subset: "set (clean_elems rooted out es) \<subseteq> set out \<union> set es"
proof (induction rooted out es rule: clean_elems.induct)
  case (2 rooted out e es)
  then show ?case by (cases out) (auto split: if_splits)
qed simp

lemma clean_list_nonempty_elems: "clean_list l es \<Longrightarrow> e \<in> set es \<Longrightarrow> e \<noteq> '''' \<and> e \<noteq> ''.''"
  by (induction es arbitrary: l) (auto split: if_splits)

lemma clean_list_mono: "clean_list False es \<Longrightarrow> clean_list l es"
  by (cases es) (auto split: if_splits)

subsection \<open>Agreement with \<open>path.Clean\<close> and \<open>path.Dir\<close>\<close>

lemma join_clean_elems_id_iff:
  assumes "s \<noteq> ''''"
  shows "join_with slash (clean_elems rooted [] (split_on slash s)) = s
           \<longleftrightarrow> clean_list (\<not> rooted) (split_on slash s)"
proof
  let ?es = "clean_elems rooted [] (split_on slash s)"
  assume eq: "join_with slash ?es = s"
  have "\<forall>e \<in> set ?es. slash \<notin> set e"
    using clean_elems_subset [of rooted "[]" "split_on slash s"]
    by (auto dest: split_on_no_sep)
  moreover have "?es \<noteq> []" using eq assms by auto
  ultimately have "split_on slash s = ?es" using split_join [of ?es slash] eq by simp
  moreover have "clean_list (\<not> rooted) ?es" by (rule clean_elems_clean) simp
  ultimately show "clean_list (\<not> rooted) (split_on slash s)" by simp
next
  assume "clean_list (\<not> rooted) (split_on slash s)"
  then have "clean_elems rooted [] (split_on slash s) = split_on slash s"
    by (subst clean_elems_id [where leading = "\<not> rooted"]) auto
  then show "join_with slash (clean_elems rooted [] (split_on slash s)) = s" by simp
qed

lemma path_clean_fixed_iff:
  assumes "p \<noteq> ''''" "p \<noteq> ''.''" "p \<noteq> ''/''"
  shows "path_clean p = p \<longleftrightarrow>
    (if hd p = slash then clean_list False (split_on slash (tl p))
     else clean_list True (split_on slash p))"
proof (cases "hd p = slash")
  case True
  with assms obtain q where p: "p = slash # q" and q: "q \<noteq> ''''" by (cases p) auto
  have "path_clean p = p \<longleftrightarrow> join_with slash (clean_elems True [] (split_on slash q)) = q"
    by (simp add: path_clean_def p Let_def)
  with join_clean_elems_id_iff [OF q, of True] show ?thesis by (simp add: p)
next
  case False
  let ?b = "join_with slash (clean_elems False [] (split_on slash p))"
  have "path_clean p = p \<longleftrightarrow> ?b = p"
    using False assms by (auto simp: path_clean_def Let_def)
  with join_clean_elems_id_iff [OF assms(1), of False] False show ?thesis by simp
qed

lemma path_clean_specials:
  "path_clean '''' = ''.''" "path_clean ''.'' = ''.''" "path_clean ''/'' = ''/''"
  by (simp_all add: path_clean_def)

lemma IsClean_fixed: "IsClean p \<longleftrightarrow> path_clean p = p"
proof (cases "p = '''' \<or> p = ''.'' \<or> p = ''/''")
  case True
  then show ?thesis by (auto simp: IsClean_def path_clean_specials)
next
  case False
  then show ?thesis
    using path_clean_fixed_iff [of p] is_clean_loop_split [of "[]"]
    by (auto simp: IsClean_def)
qed

text \<open>The parent of a clean path is clean already, so cutting at the last slash is all
  \<open>path.Dir\<close> does on it.\<close>

lemma clean_list_take: "clean_list l es \<Longrightarrow> clean_list l (take k es)"
proof (induction es arbitrary: l k)
  case (Cons e es)
  then show ?case by (cases k) (auto split: option.splits)
qed simp

lemma split_on_snoc_sep: "split_on c (s @ [c]) = split_on c s @ [[]]"
  by (induction s) (auto split: list.splits)

lemma clean_elems_append_blank:
  "clean_elems rooted out (es @ [[]]) = clean_elems rooted out es"
  by (induction rooted out es rule: clean_elems.induct) auto

lemma path_clean_trailing_slash:
  assumes "d \<noteq> ''''"
  shows "path_clean (d @ [slash]) = path_clean d"
  using assms
  by (simp add: path_clean_def Let_def split_on_snoc_sep clean_elems_append_blank)

lemma split_last_slash:
  assumes "slash \<in> set p"
  obtains d e where "p = d @ slash # e" "slash \<notin> set e"
  using assms split_list_last [of slash p] by auto

lemma IsClean_parent:
  assumes "IsClean (d @ slash # e)" "d \<noteq> ''''" "slash \<notin> set e"
  shows "IsClean d"
proof -
  let ?p = "d @ slash # e"
  have p: "?p \<noteq> ''''" "?p \<noteq> ''.''" "?p \<noteq> ''/''" using assms(2) by (auto simp: append_eq_Cons_conv)
  have split: "split_on slash (x @ slash # e) = split_on slash x @ [e]" for x
    using assms(3) by (induction x) (auto simp: split_on_plain split: list.splits)
  show ?thesis
  proof (cases "d = ''.'' \<or> d = ''/''")
    case True
    then show ?thesis by (auto simp: IsClean_fixed path_clean_specials)
  next
    case False
    then have d: "path_clean d = d \<longleftrightarrow> (if hd d = slash then clean_list False (split_on slash (tl d))
      else clean_list True (split_on slash d))"
      using path_clean_fixed_iff [OF assms(2)] by blast
    have "if hd d = slash then clean_list False (split_on slash (tl d) @ [e])
      else clean_list True (split_on slash d @ [e])"
      using assms(1,2) path_clean_fixed_iff [OF p] split by (simp add: IsClean_fixed split: if_splits)
    with d show ?thesis by (auto simp: IsClean_fixed clean_list_append_ord split: if_splits)
  qed
qed

lemma Dir_path_dir: "IsClean p \<Longrightarrow> Dir p = path_dir p"
proof (cases "slash \<in> set p")
  case True
  assume clean: "IsClean p"
  from True obtain d e where p: "p = d @ slash # e" and e: "slash \<notin> set e"
    by (rule split_last_slash)
  have li: "last_index slash p = Some (length d)" using p e by (simp add: last_index_append)
  show ?thesis
  proof (cases "d = ''''")
    case True
    then show ?thesis using li p by (simp add: Dir_def path_dir_def path_clean_specials)
  next
    case False
    have "path_clean d = d" using IsClean_parent clean False e by (simp add: p IsClean_fixed [symmetric])
    moreover have "take (Suc (length d)) p = d @ [slash]" by (simp add: p)
    ultimately show ?thesis
      using li False path_clean_trailing_slash [OF False] by (simp add: Dir_def path_dir_def p)
  qed
next
  case False
  then have "last_index slash p = None" by (simp add: last_index_None)
  then show ?thesis by (simp add: Dir_def path_dir_def path_clean_specials)
qed

subsection \<open>Workspace-relative paths and their parents\<close>

text \<open>The shape every validator of the sources asks of a workspace path: relative, clean,
  inside the workspace. Equivalently, a non-empty list of ordinary elements.\<close>

definition rel_path :: "string \<Rightarrow> bool" where
  "rel_path p \<longleftrightarrow> p \<noteq> '''' \<and> \<not> has_prefix p ''/'' \<and> IsClean p \<and>
     p \<noteq> ''.'' \<and> p \<noteq> ''..'' \<and> \<not> has_prefix p ''../''"

definition plain_elem :: "string \<Rightarrow> bool" where
  "plain_elem e \<longleftrightarrow> e \<noteq> '''' \<and> e \<noteq> ''.'' \<and> e \<noteq> ''..'' \<and> slash \<notin> set e"

text \<open>The loop \<open>for parent := path.Dir(p); parent != "."; parent = path.Dir(parent)\<close> visits
  these directories, the nearest first. (On a rooted path, which every caller has
  refused, the loop of the source would stay at \<open>/\<close>; the model stops there.)\<close>

function parent_dirs :: "string \<Rightarrow> string list" where
  "parent_dirs p =
     (let d = Dir p in if d = ''.'' \<or> d = ''/'' then [] else d # parent_dirs d)"
  by pat_completeness auto
termination
proof (relation "measure length")
  fix p d
  assume "d = Dir p" "\<not> (d = ''.'' \<or> d = ''/'')"
  then show "(d, p) \<in> measure length"
    by (auto simp: Dir_def split: option.splits if_splits dest: last_index_Some)
qed simp

declare parent_dirs.simps [simp del]

lemma plain_list_clean: "\<forall>e \<in> set es. plain_elem e \<Longrightarrow> clean_list l es"
  by (induction es arbitrary: l) (auto simp: plain_elem_def)

lemma clean_list_dotdot_free:
  "clean_list l es \<Longrightarrow> es = [] \<or> hd es \<noteq> ''..'' \<Longrightarrow> e \<in> set es \<Longrightarrow> e \<noteq> ''..''"
proof (induction es arbitrary: l)
  case (Cons x xs)
  then have "clean_list False xs" by (auto split: if_splits)
  then have "y \<noteq> ''..''" if "y \<in> set xs" for y
    using that by (induction xs) (auto split: if_splits)
  with Cons.prems show ?case by auto
qed simp

lemma rel_path_elems: "rel_path p \<Longrightarrow> e \<in> set (split_on slash p) \<Longrightarrow> plain_elem e"
proof -
  assume r: "rel_path p" and e: "e \<in> set (split_on slash p)"
  have hd: "hd p \<noteq> slash" using r by (cases p) (auto simp: rel_path_def has_prefix_def)
  have ne: "p \<noteq> ''''" "p \<noteq> ''.''" "p \<noteq> ''/''" using r hd by (auto simp: rel_path_def)
  have cl: "clean_list True (split_on slash p)"
    using r hd path_clean_fixed_iff [OF ne] by (auto simp: rel_path_def IsClean_fixed)
  have "hd (split_on slash p) \<noteq> ''..''"
  proof
    assume "hd (split_on slash p) = ''..''"
    then obtain es where es: "split_on slash p = ''..'' # es"
      by (cases "split_on slash p") auto
    then have "p = join_with slash (''..'' # es)" by (metis join_split)
    then show False using r
      by (cases es) (auto simp: rel_path_def has_prefix_def)
  qed
  with cl e clean_list_dotdot_free [OF cl _ e] clean_list_nonempty_elems [OF cl e] split_on_no_sep [OF e]
  show ?thesis by (auto simp: plain_elem_def)
qed

lemma rel_path_join:
  assumes "es \<noteq> []" "\<forall>e \<in> set es. plain_elem e"
  shows "rel_path (join_with slash es)"
proof -
  let ?p = "join_with slash es"
  have sp: "split_on slash ?p = es" using assms by (intro split_join) (auto simp: plain_elem_def)
  obtain e es' where es: "es = e # es'" and e: "plain_elem e" using assms by (cases es) auto
  have hd: "hd ?p = hd e" and ne: "?p \<noteq> ''''" and hs: "hd e \<noteq> slash"
    using e es by (cases es'; cases e; auto simp: plain_elem_def)+
  have special: "?p \<noteq> x" if "split_on slash x = [x]" "\<not> plain_elem x" for x
    using that sp assms by (metis es list.set_intros(1))
  have dots: "?p \<noteq> ''.''" "?p \<noteq> ''..''" by (rule special; simp add: plain_elem_def)+
  have "?p \<noteq> ''/''" using hd hs by (cases ?p) auto
  then have "IsClean ?p"
    using path_clean_fixed_iff [OF ne dots(1)] hd hs plain_list_clean [OF assms(2)]
    by (simp add: IsClean_fixed sp)
  moreover have "\<not> has_prefix ?p ''../''"
  proof
    assume "has_prefix ?p ''../''"
    then obtain t where "?p = ''..'' @ slash # t" by (auto simp: has_prefix_def prefix_def)
    then have "hd es = ''..''" using split_on_append [of slash "''..''" t] sp by auto
    then show False using e es by (simp add: plain_elem_def)
  qed
  ultimately show ?thesis using ne dots hd hs
    by (cases ?p) (auto simp: rel_path_def has_prefix_def)
qed

lemma rel_path_iff:
  "rel_path p \<longleftrightarrow> (\<exists>es. es \<noteq> [] \<and> (\<forall>e \<in> set es. plain_elem e) \<and> p = join_with slash es)"
  by (metis join_split rel_path_elems rel_path_join split_on_nonempty)

lemma rel_pathE:
  assumes "rel_path p"
  obtains es where "es \<noteq> []" "\<forall>e \<in> set es. plain_elem e" "p = join_with slash es"
    "split_on slash p = es"
  using assms by (metis join_split rel_path_elems split_on_nonempty)

lemma rel_path_not_special: "rel_path p \<Longrightarrow> p \<noteq> ''.'' \<and> p \<noteq> ''/'' \<and> p \<noteq> ''''"
  by (auto simp: rel_path_def has_prefix_def)

lemma Dir_join_snoc:
  assumes "\<forall>e \<in> set es. plain_elem e" "plain_elem e"
  shows "Dir (join_with slash (es @ [e])) = (if es = [] then ''.'' else join_with slash es)"
proof (cases "es = []")
  case True
  then show ?thesis using assms last_index_None [of slash e] by (simp add: Dir_def plain_elem_def)
next
  case False
  then have "join_with slash (es @ [e]) = join_with slash es @ slash # e"
    by (simp add: join_with_append)
  moreover have "join_with slash es \<noteq> ''''" using rel_path_join [OF False assms(1)] by (auto simp: rel_path_def)
  ultimately show ?thesis
    using False assms(2) last_index_append [of slash e "join_with slash es"]
    by (simp add: Dir_def plain_elem_def)
qed

lemma parent_dirs_join:
  "es \<noteq> [] \<Longrightarrow> \<forall>e \<in> set es. plain_elem e \<Longrightarrow>
     parent_dirs (join_with slash es) = map (\<lambda>k. join_with slash (take k es)) (rev [1..<length es])"
proof (induction es rule: rev_induct)
  case (snoc e es)
  show ?case
  proof (cases "es = []")
    case True
    then show ?thesis using snoc.prems Dir_join_snoc [of "[]" e] by (simp add: parent_dirs.simps [of e] Let_def)
  next
    case False
    have pl: "\<forall>e \<in> set es. plain_elem e" "plain_elem e" using snoc.prems by auto
    let ?d = "join_with slash es"
    have "?d \<noteq> ''.'' \<and> ?d \<noteq> ''/''" using rel_path_not_special [OF rel_path_join [OF False pl(1)]] by simp
    then have "parent_dirs (join_with slash (es @ [e])) = ?d # parent_dirs ?d"
      using False Dir_join_snoc [OF pl] by (simp add: parent_dirs.simps [of "join_with slash (es @ [e])"] Let_def)
    also have "\<dots> = map (\<lambda>k. join_with slash (take k (es @ [e]))) (length es # rev [1..<length es])"
      using snoc.IH [OF False pl(1)] by simp
    also have "length es # rev [1..<length es] = rev [1..<length (es @ [e])]"
      using False by (simp add: Suc_le_eq)
    finally show ?thesis .
  qed
qed simp

lemma in_parent_dirs_iff:
  assumes "rel_path p"
  shows "q \<in> set (parent_dirs p) \<longleftrightarrow> rel_path q \<and> prefix (q @ [slash]) p"
proof -
  obtain es where es: "es \<noteq> []" "\<forall>e \<in> set es. plain_elem e" "p = join_with slash es" "split_on slash p = es"
    using assms by (rule rel_pathE)
  have "q \<in> set (parent_dirs p) \<longleftrightarrow> (\<exists>k \<in> {1..<length es}. q = join_with slash (take k es))"
    using parent_dirs_join [OF es(1,2)] es(3) by auto
  also have "\<dots> \<longleftrightarrow> rel_path q \<and> prefix (q @ [slash]) p"
  proof
    assume "\<exists>k \<in> {1..<length es}. q = join_with slash (take k es)"
    then obtain k where k: "1 \<le> k" "k < length es" and q: "q = join_with slash (take k es)" by auto
    have "\<forall>e \<in> set (take k es). plain_elem e" using es(2) by (meson in_set_takeD)
    moreover have "take k es \<noteq> []" "drop k es \<noteq> []" using k es(1) by auto
    moreover from this have "p = q @ slash # join_with slash (drop k es)"
      using join_with_append [of "take k es" "drop k es" slash] q es(3) by simp
    ultimately show "rel_path q \<and> prefix (q @ [slash]) p"
      using rel_path_join q by (auto simp: prefix_def)
  next
    assume r: "rel_path q \<and> prefix (q @ [slash]) p"
    then obtain t where p: "p = q @ slash # t" by (auto simp: prefix_def)
    have "split_on slash p = split_on slash q @ split_on slash t"
      unfolding p by (induction q) (auto split: list.splits)
    then have "es = split_on slash q @ split_on slash t" using es(4) by simp
    then have "take (length (split_on slash q)) es = split_on slash q"
      "length (split_on slash q) < length es" "1 \<le> length (split_on slash q)"
      by (auto simp: Suc_le_eq)
    then show "\<exists>k \<in> {1..<length es}. q = join_with slash (take k es)"
      by (metis atLeastLessThan_iff join_split)
  qed
  finally show ?thesis .
qed

lemma parent_dirs_rel: "rel_path p \<Longrightarrow> q \<in> set (parent_dirs p) \<Longrightarrow> rel_path q"
  by (simp add: in_parent_dirs_iff)

lemma parent_dirs_shorter: "rel_path p \<Longrightarrow> q \<in> set (parent_dirs p) \<Longrightarrow> length q < length p"
  by (auto simp: in_parent_dirs_iff dest!: prefix_length_le)

lemma prefix_less: "prefix p q \<Longrightarrow> p \<noteq> q \<Longrightarrow> p < (q :: string)"
proof (induction p arbitrary: q)
  case Nil
  then show ?case by (cases q) auto
next
  case (Cons x p)
  then show ?case by (cases q) auto
qed

lemma parent_dirs_less: "rel_path p \<Longrightarrow> q \<in> set (parent_dirs p) \<Longrightarrow> q < p"
  by (auto simp: in_parent_dirs_iff intro!: prefix_less dest: append_prefixD prefix_length_le)

lemma in_parent_dirs_trans:
  assumes "rel_path p" "q \<in> set (parent_dirs p)" "r \<in> set (parent_dirs q)"
  shows "r \<in> set (parent_dirs p)"
proof -
  from assms have q: "rel_path q" "prefix (q @ [slash]) p" by (simp_all add: in_parent_dirs_iff)
  with assms(3) have "rel_path r" "prefix (r @ [slash]) q" by (simp_all add: in_parent_dirs_iff)
  with q assms(1) show ?thesis
    by (auto simp: in_parent_dirs_iff intro: prefix_order.trans dest: append_prefixD)
qed

lemma rel_path_append:
  assumes "rel_path p" "rel_path q"
  shows "rel_path (p @ slash # q)"
proof -
  obtain ps where p: "ps \<noteq> []" "\<forall>e \<in> set ps. plain_elem e" "p = join_with slash ps" using assms(1) by (rule rel_pathE)
  obtain qs where q: "qs \<noteq> []" "\<forall>e \<in> set qs. plain_elem e" "q = join_with slash qs" using assms(2) by (rule rel_pathE)
  have "p @ slash # q = join_with slash (ps @ qs)" using p q by (simp add: join_with_append)
  then show ?thesis using rel_path_join [of "ps @ qs"] p q by auto
qed

lemma path_join_rel:
  assumes "rel_path p" "rel_path q"
  shows "path_join p q = p @ slash # q"
proof -
  have "IsClean (p @ slash # q)" using rel_path_append [OF assms] by (simp add: rel_path_def)
  then show ?thesis using assms by (simp add: path_join_def IsClean_fixed rel_path_def)
qed

subsection \<open>Properties\<close>

text \<open>C40. \<open>IsClean\<close>, the single pass over the bytes, accepts exactly the fixed points of
  \<open>path.Clean\<close>, as its comment promises.\<close>

theorem IsClean_iff_path_clean: "IsClean p \<longleftrightarrow> path_clean p = p"
  by (rule IsClean_fixed)

text \<open>On every path that \<open>IsClean\<close> accepts, cutting at the last slash (\<open>Dir\<close>) computes
  \<open>path.Dir\<close>.\<close>

theorem Dir_eq_path_dir: "IsClean p \<Longrightarrow> Dir p = path_dir p"
  by (rule Dir_path_dir)

theorem Dir_eq_path_dir_witness:
  "IsClean ''a/b.c/d'' \<and> Dir ''a/b.c/d'' = ''a/b.c'' \<and> path_dir ''a/b.c/d'' = ''a/b.c''"
  using Dir_eq_path_dir [of "''a/b.c/d''"] by (simp add: IsClean_def Dir_def)

end
