(* ===== verification/Proto.thy ===== *)
theory Proto
  imports Prelude "HOL-Library.Word"
begin

text \<open>
  Package \<open>internal/proto\<close>: the wire and receipt types shared by client and daemon, the
  canonical JSON of manifests (\<open>manifest_json.go\<close>), job and request identifiers
  (\<open>ulid.go\<close>) and the receipt view of a request. A Go map is an association list with
  distinct keys. \<open>encoding/json\<close>'s escaping of a string and the digest of a value
  (SHA-256 over JSON) are parameters; the theorems hold for every such function.
\<close>

subsection \<open>Manifests\<close>

record manifest_entry =
  Path :: string
  Type :: string
  Mode :: "32 word"
  Size :: int
  SHA256 :: string
  Target :: string

abbreviation EntryFile :: string where "EntryFile \<equiv> ''file''"
abbreviation EntryDir :: string where "EntryDir \<equiv> ''dir''"
abbreviation EntrySymlink :: string where "EntrySymlink \<equiv> ''symlink''"

text \<open>A slice may be nil, which JSON writes as \<open>null\<close>; \<open>None\<close> is the nil slice.\<close>

record manifest =
  Entries :: "manifest_entry list option"

definition slice :: "'a list option \<Rightarrow> 'a list" where
  "slice s = (case s of None \<Rightarrow> [] | Some xs \<Rightarrow> xs)"

lemma slice_simps [simp]: "slice None = []" "slice (Some xs) = xs"
  by (simp_all add: slice_def)

definition MaxInt64 :: int where
  "MaxInt64 = 9223372036854775807"

record cache_binding =
  cache_name :: string
  cache_path :: string

record selection_policy =
  Caches :: "cache_binding list"
  Artifacts :: "string list"
  Prefix :: string
  Ignore :: "string list"
  CaseFold :: bool

definition SelectionPolicy_IsZero :: "selection_policy \<Rightarrow> bool" where
  "SelectionPolicy_IsZero p \<longleftrightarrow>
     Prefix p = '''' \<and> length (Ignore p) = 0 \<and> \<not> CaseFold p \<and>
     length (Artifacts p) = 0 \<and> length (Caches p) = 0"

record limits =
  MaxLogBytes :: int
  MaxRuntimeSec :: int
  MaxWorkspaceBytes :: int
  MaxChangeBytes :: int

definition DefaultLimits :: limits where
  "DefaultLimits = \<lparr>MaxLogBytes = 64 * 2 ^ 20, MaxRuntimeSec = 2 * 60 * 60,
     MaxWorkspaceBytes = 2 * 2 ^ 30, MaxChangeBytes = 2 * 2 ^ 30\<rparr>"

record change_bundle =
  V :: int
  BaselineRoot :: string
  Paths :: "string list"
  MetadataPaths :: "string list"
  BaseManifest :: manifest
  RemoteManifest :: manifest
  Bytes :: int

record change_summary =
  sum_Paths :: "string list"
  PathsTruncated :: bool
  PathCount :: int
  BundleRoot :: string
  sum_Bytes :: int

text \<open>\<open>ChangeSummary.Matches\<close>; the bundle's root hash is the parameter \<open>digest\<close>.\<close>

definition ChangeSummary_Matches ::
  "(change_bundle \<Rightarrow> string) \<Rightarrow> change_summary \<Rightarrow> change_bundle \<Rightarrow> bool" where
  "ChangeSummary_Matches digest s b =
     (if BundleRoot s \<noteq> digest b \<or> sum_Bytes s \<noteq> Bytes b \<or> PathCount s \<noteq> int (length (Paths b)) \<or>
         length (Paths b) < length (sum_Paths s) \<or>
         PathsTruncated s \<noteq> (length (sum_Paths s) \<noteq> length (Paths b))
      then False
      else list_all (\<lambda>i. sum_Paths s ! i = Paths b ! i) [0..<length (sum_Paths s)])"

subsection \<open>Requests and receipts\<close>

type_synonym go_map = "(string \<times> string) list"

record spec =
  spec_Where :: string
  spec_WorkspaceID :: string
  spec_CacheProjectID :: string
  spec_Argv :: "string list"
  spec_Env :: go_map
  spec_EnvSources :: go_map
  spec_Workdir :: string
  spec_ManifestRoot :: string
  spec_Limits :: limits
  spec_GitCommit :: string
  spec_GitDirty :: bool
  spec_NoSnapshot :: bool
  spec_ChangeClientID :: string
  spec_Selection :: selection_policy

record receipt_spec =
  rec_Where :: string
  rec_WorkspaceID :: string
  rec_CacheProjectID :: string
  rec_ReceiptVersion :: int
  rec_Argv :: "string list"
  rec_EnvNames :: "string list"
  rec_EnvSources :: go_map
  rec_Workdir :: string
  rec_ManifestRoot :: string
  rec_Limits :: limits
  rec_GitCommit :: string
  rec_GitDirty :: bool
  rec_NoSnapshot :: bool
  rec_ChangeClientID :: string
  rec_Selection :: selection_policy

definition ReceiptVersion :: int where "ReceiptVersion = 1"

definition NewReceiptSpec :: "spec \<Rightarrow> receipt_spec" where
  "NewReceiptSpec s =
     (let namesSet = remdups (map fst (spec_Env s) @ map fst (spec_EnvSources s));
          names = sort namesSet
      in \<lparr>rec_Where = spec_Where s, rec_WorkspaceID = spec_WorkspaceID s,
          rec_CacheProjectID = spec_CacheProjectID s, rec_ReceiptVersion = ReceiptVersion,
          rec_Argv = spec_Argv s, rec_EnvNames = names, rec_EnvSources = spec_EnvSources s,
          rec_Workdir = spec_Workdir s, rec_ManifestRoot = spec_ManifestRoot s,
          rec_Limits = spec_Limits s, rec_GitCommit = spec_GitCommit s,
          rec_GitDirty = spec_GitDirty s, rec_NoSnapshot = spec_NoSnapshot s,
          rec_ChangeClientID = spec_ChangeClientID s, rec_Selection = spec_Selection s\<rparr>)"

definition SpecWithoutEnv :: "receipt_spec \<Rightarrow> spec" where
  "SpecWithoutEnv r =
     \<lparr>spec_Where = rec_Where r, spec_WorkspaceID = rec_WorkspaceID r,
      spec_CacheProjectID = rec_CacheProjectID r, spec_Argv = rec_Argv r, spec_Env = [],
      spec_EnvSources = rec_EnvSources r, spec_Workdir = rec_Workdir r,
      spec_ManifestRoot = rec_ManifestRoot r, spec_Limits = rec_Limits r,
      spec_GitCommit = rec_GitCommit r, spec_GitDirty = rec_GitDirty r,
      spec_NoSnapshot = rec_NoSnapshot r, spec_ChangeClientID = rec_ChangeClientID r,
      spec_Selection = rec_Selection r\<rparr>"

text \<open>The durable view of a request keeps everything of it but the environment values:
  reading the receipt back gives the request with an empty environment, and the recorded
  names are exactly the names of the environment and its sources, sorted, without
  repetition.\<close>

theorem receipt_keeps_all_but_env:
  "SpecWithoutEnv (NewReceiptSpec s) = s\<lparr>spec_Env := []\<rparr> \<and>
   set (rec_EnvNames (NewReceiptSpec s)) = fst ` set (spec_Env s) \<union> fst ` set (spec_EnvSources s) \<and>
   sorted (rec_EnvNames (NewReceiptSpec s)) \<and> distinct (rec_EnvNames (NewReceiptSpec s))"
  by (simp add: SpecWithoutEnv_def NewReceiptSpec_def Let_def)

text \<open>What a receipt records does not depend on the environment's values: two requests
  that differ only in them have the same receipt, so no value can be read from it.\<close>

theorem receipt_independent_of_env_values:
  assumes "fst ` set env = fst ` set (spec_Env s)"
  shows "NewReceiptSpec (s\<lparr>spec_Env := env\<rparr>) = NewReceiptSpec s"
proof -
  have "sort (remdups (map fst env @ map fst (spec_EnvSources s)))
      = sort (remdups (map fst (spec_Env s) @ map fst (spec_EnvSources s)))"
    using assms by (intro sorted_distinct_set_unique) auto
  then show ?thesis by (simp add: NewReceiptSpec_def Let_def)
qed

definition no_limits :: limits where
  "no_limits = \<lparr>MaxLogBytes = 0, MaxRuntimeSec = 0, MaxWorkspaceBytes = 0, MaxChangeBytes = 0\<rparr>"

definition sample_spec :: spec where
  "sample_spec = \<lparr>spec_Where = '''', spec_WorkspaceID = '''', spec_CacheProjectID = '''',
     spec_Argv = [''env''], spec_Env = [(''TOKEN'', ''s3cret''), (''A'', ''1'')],
     spec_EnvSources = [(''TOKEN'', ''passenv'')], spec_Workdir = '''', spec_ManifestRoot = '''',
     spec_Limits = no_limits, spec_GitCommit = '''', spec_GitDirty = False,
     spec_NoSnapshot = False, spec_ChangeClientID = '''',
     spec_Selection = \<lparr>Caches = [], Artifacts = [], Prefix = '''', Ignore = [], CaseFold = False\<rparr>\<rparr>"

theorem receipt_independent_of_env_values_witness:
  "NewReceiptSpec (sample_spec\<lparr>spec_Env := [(''A'', ''2''), (''TOKEN'', ''other'')]\<rparr>)
     = NewReceiptSpec sample_spec"
proof -
  have "fst ` set [(''A'', ''2''), (''TOKEN'', ''other'')] = fst ` set (spec_Env sample_spec)"
    by (auto simp: sample_spec_def)
  then show ?thesis by (rule receipt_independent_of_env_values)
qed

end
