(* ===== verification/Ulid.thy ===== *)
theory Ulid
  imports Prelude
begin

text \<open>
  \<open>internal/proto/ulid.go\<close>: job and request identifiers. The clock reading and the ten
  random bytes are arguments; a byte is a natural number below 256, and the truncations
  \<open>byte(ms >> k)\<close> and the 64-bit shift of the decoder are written out.
\<close>

definition crockford :: string where
  "crockford = ''0123456789ABCDEFGHJKMNPQRSTVWXYZ''"

definition ulid_bytes :: "nat \<Rightarrow> nat list \<Rightarrow> nat list" where
  "ulid_bytes ms rnd =
     [(ms div 2 ^ 40) mod 256, (ms div 2 ^ 32) mod 256, (ms div 2 ^ 24) mod 256,
      (ms div 2 ^ 16) mod 256, (ms div 2 ^ 8) mod 256, ms mod 256] @ rnd"

text \<open>The inner loop: five bits from position \<open>5 * i - 2\<close>, outside the array zero.\<close>

definition ulid_digit :: "nat list \<Rightarrow> nat \<Rightarrow> nat" where
  "ulid_digit b i =
     foldl (\<lambda>v j.
        let bitp = int i * 5 - 2 + int j; v' = (v * 2) mod 256
        in if 0 \<le> bitp \<and> bitp < 128 \<and> bit (b ! (nat bitp div 8)) (7 - nat bitp mod 8)
           then v' + 1 else v')
       0 [0..<5]"

definition NewULID :: "nat \<Rightarrow> nat list \<Rightarrow> string" where
  "NewULID ms rnd = map (\<lambda>i. crockford ! ulid_digit (ulid_bytes ms rnd) i) [0..<26]"

definition ValidULID :: "string \<Rightarrow> bool" where
  "ValidULID s \<longleftrightarrow> length s = 26 \<and> list_all (\<lambda>c. list_ex ((=) c) crockford) s"

definition crockford_value :: "char \<Rightarrow> nat" where
  "crockford_value c = length (takeWhile (\<lambda>a. a \<noteq> c) crockford)"

definition ulid_encoded :: "string \<Rightarrow> nat" where
  "ulid_encoded s = foldl (\<lambda>e i. (e * 32) mod 2 ^ 64 + crockford_value (s ! i)) 0 [0..<10]"

definition ULIDTimestamp :: "string \<Rightarrow> nat option" where
  "ULIDTimestamp s =
     (if \<not> ValidULID s then None
      else if 2 ^ 48 \<le> ulid_encoded s then None
      else Some (ulid_encoded s))"

subsection \<open>The digits of an identifier\<close>

definition ulid_bit :: "nat list \<Rightarrow> nat \<Rightarrow> nat" where
  "ulid_bit b k = of_bool (2 \<le> k \<and> k < 130 \<and> bit (b ! ((k - 2) div 8)) (7 - (k - 2) mod 8))"

lemma ulid_bit_le: "ulid_bit b k \<le> 1"
  by (simp add: ulid_bit_def)

lemma ulid_digit_step:
  "(let bitp = int i * 5 - 2 + int j; v' = (v * 2) mod 256
    in if 0 \<le> bitp \<and> bitp < 128 \<and> bit (b ! (nat bitp div 8)) (7 - nat bitp mod 8)
       then v' + 1 else v') = (v * 2) mod 256 + ulid_bit b (5 * i + j)"
proof -
  have "nat (int i * 5 - 2 + int j) = 5 * i + j - 2" by auto
  moreover have "0 \<le> int i * 5 - 2 + int j \<longleftrightarrow> 2 \<le> 5 * i + j"
    "int i * 5 - 2 + int j < 128 \<longleftrightarrow> 5 * i + j < 130" by auto
  ultimately show ?thesis by (simp add: ulid_bit_def Let_def)
qed

lemma ulid_digit_eq:
  "ulid_digit b i = 16 * ulid_bit b (5 * i) + 8 * ulid_bit b (5 * i + 1) + 4 * ulid_bit b (5 * i + 2)
     + 2 * ulid_bit b (5 * i + 3) + ulid_bit b (5 * i + 4)"
proof -
  note le = ulid_bit_le [of b "5 * i"] ulid_bit_le [of b "5 * i + 1"] ulid_bit_le [of b "5 * i + 2"]
    ulid_bit_le [of b "5 * i + 3"] ulid_bit_le [of b "5 * i + 4"]
  have m: "(v * 2) mod 256 = v * 2" if "v \<le> 15" for v :: nat using that by simp
  have "[0..<5] = [0, 1, 2, 3, 4]" by (simp add: upt_rec)
  then show ?thesis using le unfolding ulid_digit_def ulid_digit_step by (simp add: m)
qed

lemma ulid_digit_less: "ulid_digit b i < 32"
  using ulid_bit_le [of b "5 * i"] ulid_bit_le [of b "5 * i + 1"] ulid_bit_le [of b "5 * i + 2"]
    ulid_bit_le [of b "5 * i + 3"] ulid_bit_le [of b "5 * i + 4"]
  by (simp add: ulid_digit_eq)

lemma crockford_length: "length crockford = 32"
  by (simp add: crockford_def)

lemma crockford_distinct: "distinct crockford"
  by (simp add: crockford_def)

lemma crockford_value_nth: "d < 32 \<Longrightarrow> crockford_value (crockford ! d) = d"
proof -
  assume d: "d < 32"
  have "takeWhile (\<lambda>a. a \<noteq> crockford ! d) crockford = take d crockford"
    using d crockford_distinct
    by (intro takeWhile_eq_take_P_nth) (auto simp: nth_eq_iff_index_eq crockford_length)
  then show ?thesis using d by (simp add: crockford_value_def crockford_length)
qed

lemma bit_of_byte:
  "r \<le> 7 \<Longrightarrow> bit ((ms div 2 ^ k) mod 256 :: nat) (7 - r) = bit ms (k + (7 - r))"
proof -
  assume "r \<le> 7"
  have "(ms div 2 ^ k) mod 256 = take_bit 8 (drop_bit k ms)"
    by (simp add: take_bit_eq_mod drop_bit_eq_div)
  moreover have "7 - r < 8" by arith
  ultimately show ?thesis by (simp add: bit_take_bit_iff bit_drop_bit_eq add.commute)
qed

lemma bit_mod_timestamp: "bit (x mod 281474976710656 :: nat) m \<longleftrightarrow> m < 48 \<and> bit x m"
proof -
  have "x mod 281474976710656 = take_bit 48 x" by (simp add: take_bit_eq_mod)
  then show ?thesis by (simp add: bit_take_bit_iff)
qed

lemma ulid_bit_timestamp:
  assumes "k < 50"
  shows "ulid_bit (ulid_bytes ms rnd) k = of_bool (bit (ms mod 2 ^ 48) (49 - k))"
proof (cases "2 \<le> k")
  case True
  define n where "n = k - 2"
  have n: "n < 48" "k = n + 2" using True assms by (auto simp: n_def)
  have q: "n div 8 < 6" "n = 8 * (n div 8) + n mod 8" "n mod 8 \<le> 7" using n by auto
  have "ulid_bytes ms rnd ! (n div 8) = (ms div 2 ^ (40 - 8 * (n div 8))) mod 256"
  proof -
    have "n div 8 = 0 \<or> n div 8 = 1 \<or> n div 8 = 2 \<or> n div 8 = 3 \<or> n div 8 = 4 \<or> n div 8 = 5"
      using q(1) by arith
    then show ?thesis by (elim disjE) (simp_all add: ulid_bytes_def)
  qed
  then have "bit (ulid_bytes ms rnd ! (n div 8)) (7 - n mod 8)
      = bit ms (40 - 8 * (n div 8) + (7 - n mod 8))"
    using bit_of_byte [OF q(3)] by simp
  moreover have "40 - 8 * (n div 8) + (7 - n mod 8) = 49 - k" using q n by arith
  moreover have "bit (ms mod 2 ^ 48) (49 - k) = bit ms (49 - k)"
    using n by (auto simp: bit_mod_timestamp)
  ultimately show ?thesis using n by (simp add: ulid_bit_def)
next
  case False
  then show ?thesis by (auto simp: ulid_bit_def bit_mod_timestamp)
qed

lemma mod32_bits:
  "(y :: nat) mod 32 = 16 * of_bool (bit y 4) + 8 * of_bool (bit y 3) + 4 * of_bool (bit y 2)
     + 2 * of_bool (bit y 1) + of_bool (bit y 0)"
proof -
  have "y mod 32 = take_bit 5 y" by (simp add: take_bit_eq_mod)
  also have "\<dots> = (\<Sum>k = 0..<5. push_bit k (of_bool (bit y k)))" by (rule take_bit_sum)
  also have "{0..<5} = {0, 1, 2, 3, 4 :: nat}" by auto
  finally show ?thesis by (simp add: push_bit_eq_mult)
qed

lemma ulid_digit_timestamp:
  assumes "i < 10"
  shows "ulid_digit (ulid_bytes ms rnd) i = (ms mod 2 ^ 48) div 2 ^ (45 - 5 * i) mod 32"
proof -
  have "bit ((ms mod 2 ^ 48) div 2 ^ (45 - 5 * i)) m = bit (ms mod 2 ^ 48) (45 - 5 * i + m)" for m
    by (simp add: bit_drop_bit_eq flip: drop_bit_eq_div)
  moreover have "49 - (5 * i + j) = 45 - 5 * i + (4 - j)" if "j \<le> 4" for j using that assms by arith
  note this [of 0] this [of 1] this [of 2] this [of 3] this [of 4]
  ultimately show ?thesis
    using assms by (simp add: ulid_digit_eq mod32_bits ulid_bit_timestamp)
qed

lemma foldl_timestamp:
  assumes "n \<le> 10"
  shows "foldl (\<lambda>e i. (e * 32) mod 2 ^ 64 + ulid_digit (ulid_bytes ms rnd) i) 0 [0..<n]
     = (ms mod 2 ^ 48) div 2 ^ (50 - 5 * n)"
  using assms
proof (induction n)
  case 0
  have "ms mod 2 ^ 48 < 2 ^ 50" by (rule less_trans [OF mod_less_divisor]) simp_all
  then show ?case by simp
next
  case (Suc n)
  let ?x = "ms mod 2 ^ 48"
  define q where "q = ?x div 2 ^ (45 - 5 * n)"
  have e: "50 - 5 * n = (45 - 5 * n) + 5" "50 - 5 * Suc n = 45 - 5 * n" using Suc.prems by auto
  have q: "?x div 2 ^ (50 - 5 * n) = q div 32"
    unfolding e(1) power_add div_mult2_eq q_def by simp
  have "q \<le> ?x" unfolding q_def by (rule div_le_dividend)
  also have "?x < 2 ^ 48" by simp
  finally have "q < 2 ^ 48" .
  then have "q div 32 * 32 < 2 ^ 64" using div_times_less_eq_dividend [of q 32] by simp
  then have small: "q div 32 * 32 mod 2 ^ 64 = q div 32 * 32" by (rule mod_less)
  have "foldl (\<lambda>e i. (e * 32) mod 2 ^ 64 + ulid_digit (ulid_bytes ms rnd) i) 0 [0..<Suc n]
      = (q div 32 * 32) mod 2 ^ 64 + q mod 32"
    using Suc q ulid_digit_timestamp [of n ms rnd] by (simp add: q_def)
  also have "\<dots> = q" using small by (simp add: div_mult_mod_eq)
  finally show ?case using e(2) by (simp add: q_def)
qed

lemma ValidULID_NewULID: "ValidULID (NewULID ms rnd)"
  by (auto simp: ValidULID_def NewULID_def list_all_iff list_ex_iff crockford_length
      intro!: nth_mem ulid_digit_less)

lemma ulid_encoded_NewULID: "ulid_encoded (NewULID ms rnd) = ms mod 2 ^ 48"
proof -
  have "ulid_encoded (NewULID ms rnd)
      = foldl (\<lambda>e i. (e * 32) mod 2 ^ 64 + ulid_digit (ulid_bytes ms rnd) i) 0 [0..<10]"
    unfolding ulid_encoded_def
    by (intro foldl_cong refl) (auto simp: NewULID_def crockford_value_nth ulid_digit_less)
  then show ?thesis using foldl_timestamp [of 10 ms rnd] by simp
qed

text \<open>C38. The timestamp of a fresh identifier reads back: for every clock reading and every
  random suffix \<open>NewULID\<close> makes a valid identifier, and \<open>ULIDTimestamp\<close> returns the 48 bits
  of milliseconds it was made from.\<close>

theorem ULIDTimestamp_NewULID:
  "ValidULID (NewULID ms rnd) \<and> ULIDTimestamp (NewULID ms rnd) = Some (ms mod 2 ^ 48)"
  by (simp add: ULIDTimestamp_def ValidULID_NewULID ulid_encoded_NewULID not_le)

end
