(* ===== verification/Manifest_Json.thy ===== *)
theory Manifest_Json
  imports Proto
begin

text \<open>
  \<open>internal/proto/manifest_json.go\<close> and \<open>Manifest.RootHash\<close>: the canonical JSON of a
  manifest, written by hand in one pass. \<open>marshal\<close> is \<open>json.Marshal\<close> on a string, to which
  every string with a byte outside \<open>jsonPlain\<close> is delegated; \<open>sha256hex\<close> is the hex digest.
\<close>

subsection \<open>Decimal numbers (\<open>strconv\<close>)\<close>

definition digit_char :: "nat \<Rightarrow> char" where
  "digit_char d = char_of (48 + d)"

fun decimal :: "nat \<Rightarrow> string" where
  "decimal n = (if n < 10 then [digit_char n] else decimal (n div 10) @ [digit_char (n mod 10)])"

declare decimal.simps [simp del]

definition FormatInt :: "int \<Rightarrow> string" where
  "FormatInt v = (if v < 0 then CHR ''-'' # decimal (nat (- v)) else decimal (nat v))"

subsection \<open>The writer\<close>

abbreviation quote :: char where "quote \<equiv> CHR 0x22"
abbreviation backslash :: char where "backslash \<equiv> CHR 0x5C"

definition jsonPlain :: "char \<Rightarrow> bool" where
  "jsonPlain c \<longleftrightarrow> CHR 0x20 \<le> c \<and> c < CHR 0x80 \<and>
     c \<noteq> quote \<and> c \<noteq> backslash \<and> c \<noteq> CHR ''<'' \<and> c \<noteq> CHR ''>'' \<and> c \<noteq> CHR ''&''"

definition AppendJSONString :: "(string \<Rightarrow> string) \<Rightarrow> string \<Rightarrow> string \<Rightarrow> string" where
  "AppendJSONString marshal buf s =
     (if list_ex (\<lambda>c. \<not> jsonPlain c) s then buf @ marshal s
      else buf @ [quote] @ s @ [quote])"

text \<open>The fixed pieces of an entry: a key with its quotes and colon, after the byte that
  opens or separates.\<close>

definition json_key :: "char \<Rightarrow> string \<Rightarrow> string" where
  "json_key c k = c # quote # k @ [quote, CHR '':'']"

definition appendManifestEntryJSON :: "(string \<Rightarrow> string) \<Rightarrow> string \<Rightarrow> manifest_entry \<Rightarrow> string" where
  "appendManifestEntryJSON marshal buf e =
    (let buf = buf @ json_key (CHR ''{'') ''path'';
         buf = AppendJSONString marshal buf (Path e);
         buf = buf @ json_key (CHR '','') ''type'';
         buf = AppendJSONString marshal buf (Type e);
         buf = buf @ json_key (CHR '','') ''mode'';
         buf = buf @ decimal (unat (Mode e));
         buf = (if Size e \<noteq> 0 then buf @ json_key (CHR '','') ''size'' @ FormatInt (Size e) else buf);
         buf = (if SHA256 e \<noteq> '''' then AppendJSONString marshal (buf @ json_key (CHR '','') ''sha256'') (SHA256 e) else buf);
         buf = (if Target e \<noteq> '''' then AppendJSONString marshal (buf @ json_key (CHR '','') ''target'') (Target e) else buf)
     in buf @ ''}'')"

definition json_null :: string where
  "json_null = json_key (CHR ''{'') ''entries'' @ ''null}''"

definition json_open :: string where
  "json_open = json_key (CHR ''{'') ''entries'' @ ''[''"

fun append_entries :: "(string \<Rightarrow> string) \<Rightarrow> string \<Rightarrow> nat \<Rightarrow> manifest_entry list \<Rightarrow> string" where
  "append_entries marshal buf i [] = buf"
| "append_entries marshal buf i (e # es) =
     append_entries marshal
       (appendManifestEntryJSON marshal (if 0 < i then buf @ '','' else buf) e) (Suc i) es"

definition AppendManifestJSON :: "(string \<Rightarrow> string) \<Rightarrow> string \<Rightarrow> manifest \<Rightarrow> string" where
  "AppendManifestJSON marshal buf m =
     (case Entries m of
        None \<Rightarrow> buf @ json_null
      | Some es \<Rightarrow> append_entries marshal (buf @ json_open) 0 es @ '']}'')"

text \<open>The streaming writer: the result is the list of \<open>Write\<close> calls, in order; the buffer is
  flushed whenever it holds 16 KiB or more.\<close>

fun write_entries :: "(string \<Rightarrow> string) \<Rightarrow> string \<Rightarrow> nat \<Rightarrow> manifest_entry list \<Rightarrow> string list" where
  "write_entries marshal buf i [] = [buf @ '']}'']"
| "write_entries marshal buf i (e # es) =
     (let buf' = appendManifestEntryJSON marshal (if 0 < i then buf @ '','' else buf) e
      in if 16 * 2 ^ 10 \<le> length buf' then buf' # write_entries marshal [] (Suc i) es
         else write_entries marshal buf' (Suc i) es)"

definition writeManifestJSON :: "(string \<Rightarrow> string) \<Rightarrow> manifest \<Rightarrow> string list" where
  "writeManifestJSON marshal m =
     (case Entries m of None \<Rightarrow> [json_null] | Some es \<Rightarrow> write_entries marshal json_open 0 es)"

definition RootHash :: "(string \<Rightarrow> string) \<Rightarrow> (string \<Rightarrow> string) \<Rightarrow> manifest \<Rightarrow> string" where
  "RootHash marshal sha256hex m = sha256hex (concat (writeManifestJSON marshal m))"

definition ManifestRootHash :: "(string \<Rightarrow> string) \<Rightarrow> string \<Rightarrow> string" where
  "ManifestRootHash sha256hex encoded = sha256hex encoded"

text \<open>\<open>decimalLen\<close> works on the unsigned 64-bit magnitude.\<close>

fun count_digits :: "nat \<Rightarrow> nat \<Rightarrow> nat" where
  "count_digits n u = (if 10 \<le> u then count_digits (Suc n) (u div 10) else n)"

declare count_digits.simps [simp del]

definition decimalLen :: "int \<Rightarrow> nat" where
  "decimalLen v =
     (let u = v mod 2 ^ 64
      in if v < 0 then count_digits 2 (nat ((- u) mod 2 ^ 64)) else count_digits 1 (nat u))"

fun entry_sizes :: "nat \<Rightarrow> manifest_entry list \<Rightarrow> nat" where
  "entry_sizes i [] = 0"
| "entry_sizes i (e # es) =
     (if 0 < i then 1 else 0)
     + length (json_key (CHR ''{'') ''path'' @ [quote, quote] @ json_key (CHR '','') ''type'' @
               [quote, quote] @ json_key (CHR '','') ''mode'' @ ''}'')
     + length (Path e) + length (Type e) + decimalLen (uint (Mode e))
     + (if Size e \<noteq> 0 then length (json_key (CHR '','') ''size'') + decimalLen (Size e) else 0)
     + (if SHA256 e \<noteq> '''' then length (json_key (CHR '','') ''sha256'' @ [quote, quote]) + length (SHA256 e) else 0)
     + (if Target e \<noteq> '''' then length (json_key (CHR '','') ''target'' @ [quote, quote]) + length (Target e) else 0)
     + entry_sizes (Suc i) es"

definition ManifestJSONSize :: "manifest \<Rightarrow> nat" where
  "ManifestJSONSize m =
     (case Entries m of None \<Rightarrow> length json_null | Some es \<Rightarrow> length (json_open @ '']}'') + entry_sizes 0 es)"

subsection \<open>Streaming and buffered output agree\<close>

text \<open>\<open>json_string\<close> and \<open>entry_json\<close> are the text appended, without the buffer.\<close>

definition json_string :: "(string \<Rightarrow> string) \<Rightarrow> string \<Rightarrow> string" where
  "json_string marshal s = AppendJSONString marshal [] s"

definition entry_json :: "(string \<Rightarrow> string) \<Rightarrow> manifest_entry \<Rightarrow> string" where
  "entry_json marshal e = appendManifestEntryJSON marshal [] e"

lemma AppendJSONString_eq: "AppendJSONString marshal buf s = buf @ json_string marshal s"
  by (simp add: AppendJSONString_def json_string_def)

lemma appendManifestEntryJSON_eq:
  "appendManifestEntryJSON marshal buf e = buf @ entry_json marshal e"
  by (simp add: appendManifestEntryJSON_def entry_json_def AppendJSONString_eq Let_def)

fun entries_json :: "(string \<Rightarrow> string) \<Rightarrow> nat \<Rightarrow> manifest_entry list \<Rightarrow> string" where
  "entries_json marshal i [] = []"
| "entries_json marshal i (e # es) =
     (if 0 < i then '','' else []) @ entry_json marshal e @ entries_json marshal (Suc i) es"

lemma append_entries_eq: "append_entries marshal buf i es = buf @ entries_json marshal i es"
  by (induction es arbitrary: buf i) (simp_all add: appendManifestEntryJSON_eq)

lemma concat_write_entries:
  "concat (write_entries marshal buf i es) = buf @ entries_json marshal i es @ '']}''"
  by (induction es arbitrary: buf i) (simp_all add: appendManifestEntryJSON_eq Let_def)

lemma AppendManifestJSON_eq:
  "AppendManifestJSON marshal buf m =
     buf @ (case Entries m of None \<Rightarrow> json_null | Some es \<Rightarrow> json_open @ entries_json marshal 0 es @ '']}'')"
  by (simp add: AppendManifestJSON_def append_entries_eq split: option.split)

text \<open>The streaming writer behind \<open>RootHash\<close> and the buffered \<open>AppendManifestJSON\<close> produce
  the same bytes, whatever the flushes, so \<open>ManifestRootHash\<close> of the encoded manifest is its
  \<open>RootHash\<close>.\<close>

theorem write_matches_append:
  "concat (writeManifestJSON marshal m) = AppendManifestJSON marshal [] m \<and>
   ManifestRootHash h (AppendManifestJSON marshal [] m) = RootHash marshal h m"
  by (simp add: writeManifestJSON_def AppendManifestJSON_eq RootHash_def ManifestRootHash_def
      concat_write_entries split: option.split)

subsection \<open>Sizes\<close>

lemma count_digits_Suc: "count_digits (Suc n) u = Suc (count_digits n u)"
  by (induction n u rule: count_digits.induct) (auto simp: count_digits.simps [of "Suc _"] count_digits.simps)

lemma length_decimal: "length (decimal u) = count_digits (Suc 0) u"
proof (induction u rule: decimal.induct)
  case (1 u)
  then show ?case
    using count_digits_Suc [of "Suc 0" "u div 10"]
    by (auto simp: decimal.simps [of u] count_digits.simps [of "Suc 0" u])
qed

lemma decimalLen_FormatInt:
  assumes "- (2 ^ 63) \<le> v" "v < 2 ^ 63"
  shows "decimalLen v = length (FormatInt v)"
proof (cases "v < 0")
  case True
  then have "(- (v mod 2 ^ 64)) mod 2 ^ 64 = (- v) mod (2 ^ 64 :: int)" by (simp add: mod_minus_eq)
  also have "\<dots> = - v" using True assms by (intro mod_pos_pos_trivial) auto
  finally have "decimalLen v = count_digits 2 (nat (- v))" using True by (simp add: decimalLen_def Let_def)
  also have "\<dots> = Suc (count_digits 1 (nat (- v)))" using count_digits_Suc [of 1] by (simp add: numeral_2_eq_2)
  finally show ?thesis using True by (simp add: FormatInt_def length_decimal)
next
  case False
  then have "v mod 2 ^ 64 = v" using assms by (intro mod_pos_pos_trivial) auto
  then show ?thesis using False by (simp add: decimalLen_def FormatInt_def length_decimal)
qed

definition plain_string :: "string \<Rightarrow> bool" where
  "plain_string s \<longleftrightarrow> list_all jsonPlain s"

definition plain_entry :: "manifest_entry \<Rightarrow> bool" where
  "plain_entry e \<longleftrightarrow> plain_string (Path e) \<and> plain_string (Type e) \<and> plain_string (SHA256 e) \<and> plain_string (Target e)"

definition int64_sizes :: "manifest_entry list \<Rightarrow> bool" where
  "int64_sizes es \<longleftrightarrow> list_all (\<lambda>e. - (2 ^ 63) \<le> Size e \<and> Size e < 2 ^ 63) es"

lemma json_string_plain: "plain_string s \<Longrightarrow> json_string marshal s = quote # s @ [quote]"
  by (auto simp: json_string_def AppendJSONString_def plain_string_def list_all_iff list_ex_iff)

lemma json_string_length:
  "\<forall>s. length s + 2 \<le> length (marshal s) \<Longrightarrow> length s + 2 \<le> length (json_string marshal s)"
  by (auto simp: json_string_def AppendJSONString_def)

lemma decimalLen_mode: "decimalLen (uint (w :: 32 word)) = length (decimal (unat w))"
proof -
  have "- (2 ^ 63) \<le> uint w" by (rule order_trans [of _ 0]) simp_all
  moreover have "uint w < 2 ^ 63" using uint_bounded [of w] by simp
  ultimately have "decimalLen (uint w) = length (FormatInt (uint w))"
    by (rule decimalLen_FormatInt)
  then show ?thesis by (simp add: FormatInt_def)
qed

text \<open>The text of one entry with its four optional parts named.\<close>

lemma entry_json_eq:
  "entry_json marshal e =
     json_key (CHR ''{'') ''path'' @ json_string marshal (Path e) @
     json_key (CHR '','') ''type'' @ json_string marshal (Type e) @
     json_key (CHR '','') ''mode'' @ decimal (unat (Mode e)) @
     (if Size e \<noteq> 0 then json_key (CHR '','') ''size'' @ FormatInt (Size e) else []) @
     (if SHA256 e \<noteq> '''' then json_key (CHR '','') ''sha256'' @ json_string marshal (SHA256 e) else []) @
     (if Target e \<noteq> '''' then json_key (CHR '','') ''target'' @ json_string marshal (Target e) else []) @ ''}''"
  by (simp add: entry_json_def appendManifestEntryJSON_def AppendJSONString_eq Let_def)

lemma length_json_key [simp]: "length (json_key c k) = length k + 4"
  by (simp add: json_key_def)

lemma entry_sizes_exact:
  assumes "int64_sizes es" "list_all plain_entry es"
  shows "length (entries_json marshal i es) = entry_sizes i es"
  using assms
  by (induction es arbitrary: i)
     (auto simp: entry_json_eq plain_entry_def json_string_plain int64_sizes_def
        decimalLen_FormatInt decimalLen_mode)

lemma entry_sizes_bound:
  assumes "int64_sizes es" and m: "\<forall>s. length s + 2 \<le> length (marshal s)"
  shows "entry_sizes i es \<le> length (entries_json marshal i es)"
  using assms(1)
proof (induction es arbitrary: i)
  case (Cons e es)
  note jl = json_string_length [OF m]
  from Cons have "entry_sizes (Suc i) es \<le> length (entries_json marshal (Suc i) es)"
    by (simp add: int64_sizes_def)
  then show ?case
    using Cons.prems jl [of "Path e"] jl [of "Type e"] jl [of "SHA256 e"] jl [of "Target e"]
    by (auto simp: entry_json_eq int64_sizes_def decimalLen_FormatInt decimalLen_mode)
qed simp

text \<open>C37. \<open>ManifestJSONSize\<close> is the length of the encoding when every string is plain ASCII, and
  never more than it otherwise (for sizes in the int64 range, and given that
  \<open>json.Marshal\<close> writes at least the string's bytes and two quotes).\<close>

theorem ManifestJSONSize_bound:
  assumes "int64_sizes (slice (Entries m))"
    and "\<forall>s. length s + 2 \<le> length (marshal s)"
  shows "ManifestJSONSize m \<le> length (AppendManifestJSON marshal [] m) \<and>
    (list_all plain_entry (slice (Entries m)) \<longrightarrow>
       ManifestJSONSize m = length (AppendManifestJSON marshal [] m))"
  using assms entry_sizes_exact [of "slice (Entries m)" marshal 0] entry_sizes_bound [of "slice (Entries m)" marshal 0]
  by (auto simp: ManifestJSONSize_def AppendManifestJSON_eq split: option.splits)

definition sample_file :: manifest_entry where
  "sample_file = \<lparr>Path = ''a'', Type = EntryFile, Mode = 420, Size = 3, SHA256 = ''00'', Target = ''''\<rparr>"

theorem ManifestJSONSize_bound_witness:
  "ManifestJSONSize \<lparr>Entries = Some [sample_file]\<rparr>
     = length (AppendManifestJSON (\<lambda>s. quote # s @ [quote]) [] \<lparr>Entries = Some [sample_file]\<rparr>)"
proof -
  have "int64_sizes (slice (Entries \<lparr>Entries = Some [sample_file]\<rparr>))"
    by (simp add: int64_sizes_def sample_file_def)
  moreover have "list_all plain_entry (slice (Entries \<lparr>Entries = Some [sample_file]\<rparr>))"
    by (simp add: plain_entry_def plain_string_def sample_file_def jsonPlain_def)
  ultimately show ?thesis
    using ManifestJSONSize_bound [of "\<lparr>Entries = Some [sample_file]\<rparr>" "\<lambda>s. quote # s @ [quote]"] by simp
qed

subsection \<open>The encoding identifies the manifest\<close>

lemma quoted_cancel:
  "quote \<notin> set s \<Longrightarrow> quote \<notin> set s' \<Longrightarrow> s @ quote # t = s' @ quote # t' \<Longrightarrow> s = s' \<and> t = t'"
proof (induction s arbitrary: s')
  case Nil
  then show ?case by (cases s') auto
next
  case (Cons x s)
  then show ?case by (cases s') auto
qed

definition is_digit :: "char \<Rightarrow> bool" where
  "is_digit c \<longleftrightarrow> (48 :: nat) \<le> of_char c \<and> of_char c \<le> (57 :: nat)"

fun digits_value :: "nat \<Rightarrow> string \<Rightarrow> nat" where
  "digits_value acc [] = acc"
| "digits_value acc (c # cs) = digits_value (10 * acc + (of_char c - 48)) cs"

lemma of_char_digit: "d < 10 \<Longrightarrow> of_char (digit_char d) = 48 + (d :: nat)"
  by (simp add: digit_char_def)

lemma decimal_digits: "c \<in> set (decimal n) \<Longrightarrow> is_digit c"
proof (induction n rule: decimal.induct)
  case (1 n)
  then show ?case
    by (auto simp: decimal.simps [of n] is_digit_def of_char_digit split: if_splits)
qed

lemma digits_value_append: "digits_value acc (xs @ ys) = digits_value (digits_value acc xs) ys"
  by (induction xs arbitrary: acc) auto

lemma digits_value_decimal: "digits_value 0 (decimal n) = n"
proof (induction n rule: decimal.induct)
  case (1 n)
  then show ?case
    by (auto simp: decimal.simps [of n] digits_value_append of_char_digit)
qed

lemma digits_cancel:
  assumes "\<forall>c \<in> set s. is_digit c" "\<forall>c \<in> set s'. is_digit c" "\<not> is_digit x" "\<not> is_digit x'"
    and "s @ x # t = s' @ x' # t'"
  shows "s = s' \<and> x # t = x' # t'"
proof -
  have "takeWhile is_digit (s @ x # t) = s" using assms(1,3) by (simp add: takeWhile_append2)
  moreover have "takeWhile is_digit (s' @ x' # t') = s'" using assms(2,4) by (simp add: takeWhile_append2)
  ultimately show ?thesis using assms(5) by simp
qed

lemma decimal_cancel:
  assumes "\<not> is_digit x" "\<not> is_digit x'" "decimal n @ x # t = decimal n' @ x' # t'"
  shows "n = n' \<and> x # t = x' # t'"
  using digits_cancel [OF _ _ assms] decimal_digits digits_value_decimal by metis

lemma decimal_nonempty: "decimal n \<noteq> []"
  by (subst decimal.simps) simp

lemma FormatInt_hd: "hd (FormatInt v @ y) = CHR ''-'' \<longleftrightarrow> v < 0"
proof (cases "v < 0")
  case False
  have "is_digit (hd (decimal (nat v)))" using decimal_digits decimal_nonempty by (meson hd_in_set)
  then have "hd (decimal (nat v)) \<noteq> CHR ''-''" by (auto simp: is_digit_def)
  with False show ?thesis using decimal_nonempty by (simp add: FormatInt_def)
qed (simp add: FormatInt_def)

lemma FormatInt_cancel:
  assumes "\<not> is_digit x" "\<not> is_digit x'" "FormatInt v @ x # t = FormatInt v' @ x' # t'"
  shows "v = v' \<and> x # t = x' # t'"
proof -
  have sgn: "v < 0 \<longleftrightarrow> v' < 0" using assms(3) FormatInt_hd by metis
  show ?thesis
  proof (cases "v < 0")
    case True
    then have "decimal (nat (- v)) @ x # t = decimal (nat (- v')) @ x' # t'"
      using sgn assms(3) by (simp add: FormatInt_def)
    from decimal_cancel [OF assms(1,2) this] have "nat (- v) = nat (- v')" "x # t = x' # t'" by blast+
    with True sgn show ?thesis by simp
  next
    case False
    then have "decimal (nat v) @ x # t = decimal (nat v') @ x' # t'"
      using sgn assms(3) by (simp add: FormatInt_def)
    from decimal_cancel [OF assms(1,2) this] have "nat v = nat v'" "x # t = x' # t'" by blast+
    with False sgn show ?thesis by simp
  qed
qed

text \<open>Each optional part is self-delimiting: its first bytes tell whether it is present.\<close>

definition opt_string :: "(string \<Rightarrow> string) \<Rightarrow> string \<Rightarrow> string \<Rightarrow> string" where
  "opt_string marshal k s = (if s \<noteq> '''' then json_key (CHR '','') k @ json_string marshal s else [])"

definition opt_size :: "int \<Rightarrow> string" where
  "opt_size v = (if v \<noteq> 0 then json_key (CHR '','') ''size'' @ FormatInt v else [])"

lemma plain_no_quote: "plain_string s \<Longrightarrow> quote \<notin> set s"
  by (auto simp: plain_string_def list_all_iff jsonPlain_def)

lemma json_string_cancel:
  assumes "plain_string s" "plain_string s'" "json_string marshal s @ t = json_string marshal s' @ t'"
  shows "s = s' \<and> t = t'"
  using assms quoted_cancel [OF plain_no_quote plain_no_quote, of s s' t t'] by (simp add: json_string_plain)

lemma target_cancel:
  assumes "plain_string s" "plain_string s'"
    "opt_string marshal ''target'' s @ ''}'' @ t = opt_string marshal ''target'' s' @ ''}'' @ t'"
  shows "s = s' \<and> t = t'"
  using assms json_string_cancel [OF assms(1,2), of marshal "''}'' @ t" "''}'' @ t'"]
  by (auto simp: opt_string_def json_key_def split: if_splits)

lemma sha_cancel:
  assumes "plain_string s" "plain_string s'"
    "opt_string marshal ''sha256'' s @ opt_string marshal ''target'' u @ ''}'' @ t
       = opt_string marshal ''sha256'' s' @ opt_string marshal ''target'' u' @ ''}'' @ t'"
  shows "s = s' \<and> opt_string marshal ''target'' u @ ''}'' @ t = opt_string marshal ''target'' u' @ ''}'' @ t'"
proof (cases "s = ''''")
  case True
  have "s' = ''''"
  proof (rule ccontr)
    assume "s' \<noteq> ''''"
    with True assms(3) show False by (cases "u = ''''") (simp_all add: opt_string_def json_key_def)
  qed
  with True assms(3) show ?thesis by (simp add: opt_string_def)
next
  case False
  have "s' \<noteq> ''''"
  proof
    assume "s' = ''''"
    with False assms(3) show False by (cases "u' = ''''") (simp_all add: opt_string_def json_key_def)
  qed
  with False assms(3) have "json_string marshal s @ opt_string marshal ''target'' u @ ''}'' @ t
    = json_string marshal s' @ opt_string marshal ''target'' u' @ ''}'' @ t'"
    by (simp add: opt_string_def [of marshal "''sha256''"])
  then show ?thesis by (rule json_string_cancel [OF assms(1,2)])
qed

definition rest_json :: "(string \<Rightarrow> string) \<Rightarrow> manifest_entry \<Rightarrow> string \<Rightarrow> string" where
  "rest_json marshal e t =
     opt_string marshal ''sha256'' (SHA256 e) @ opt_string marshal ''target'' (Target e) @ ''}'' @ t"

lemma rest_json_head: "\<exists>x u. rest_json marshal e t = x # u \<and> \<not> is_digit x"
  by (simp add: rest_json_def opt_string_def json_key_def is_digit_def)

lemma size_rest_head: "\<exists>x u. opt_size v @ rest_json marshal e t = x # u \<and> \<not> is_digit x"
  using rest_json_head [of marshal e t] by (simp add: opt_size_def json_key_def is_digit_def)

lemma size_cancel:
  assumes "opt_size v @ rest_json marshal e t = opt_size v' @ rest_json marshal e' t'"
  shows "v = v' \<and> rest_json marshal e t = rest_json marshal e' t'"
proof (cases "v = 0 \<longleftrightarrow> v' = 0")
  case True
  obtain x u where x: "rest_json marshal e t = x # u" "\<not> is_digit x" using rest_json_head by blast
  obtain x' u' where x': "rest_json marshal e' t' = x' # u'" "\<not> is_digit x'" using rest_json_head by blast
  show ?thesis
    using True assms FormatInt_cancel [OF x(2) x'(2), of v u v' u'] x x'
    by (cases "v = 0") (auto simp: opt_size_def)
next
  case False
  with assms show ?thesis
    by (auto simp: opt_size_def rest_json_def opt_string_def json_key_def split: if_splits)
qed

lemma entry_json_rest:
  "entry_json marshal e @ t =
     json_key (CHR ''{'') ''path'' @ json_string marshal (Path e) @
     json_key (CHR '','') ''type'' @ json_string marshal (Type e) @
     json_key (CHR '','') ''mode'' @ decimal (unat (Mode e)) @ opt_size (Size e) @ rest_json marshal e t"
  by (simp add: entry_json_eq opt_size_def rest_json_def opt_string_def)

lemma entry_json_cancel:
  assumes pl: "plain_entry e" "plain_entry e'"
    and eq: "entry_json marshal e @ t = entry_json marshal e' @ t'"
  shows "e = e' \<and> t = t'"
proof -
  note p = pl [unfolded plain_entry_def]
  let ?r = "\<lambda>e t. json_key (CHR '','') ''type'' @ json_string marshal (Type e) @
     json_key (CHR '','') ''mode'' @ decimal (unat (Mode e)) @ opt_size (Size e) @ rest_json marshal e t"
  from eq have "json_string marshal (Path e) @ ?r e t = json_string marshal (Path e') @ ?r e' t'"
    by (simp add: entry_json_rest)
  then have path: "Path e = Path e'" and r: "?r e t = ?r e' t'"
    using json_string_cancel p by blast+
  from r have "json_string marshal (Type e) @ json_key (CHR '','') ''mode'' @ decimal (unat (Mode e)) @ opt_size (Size e) @ rest_json marshal e t
    = json_string marshal (Type e') @ json_key (CHR '','') ''mode'' @ decimal (unat (Mode e')) @ opt_size (Size e') @ rest_json marshal e' t'"
    by simp
  then have type: "Type e = Type e'"
    and "decimal (unat (Mode e)) @ opt_size (Size e) @ rest_json marshal e t
      = decimal (unat (Mode e')) @ opt_size (Size e') @ rest_json marshal e' t'"
    using json_string_cancel p by (blast, metis json_string_cancel same_append_eq)
  then have mode: "unat (Mode e) = unat (Mode e')"
    and s: "opt_size (Size e) @ rest_json marshal e t = opt_size (Size e') @ rest_json marshal e' t'"
    using decimal_cancel size_rest_head by metis+
  from size_cancel [OF s] have size: "Size e = Size e'" and "rest_json marshal e t = rest_json marshal e' t'"
    by auto
  then have sha: "SHA256 e = SHA256 e'" and "opt_string marshal ''target'' (Target e) @ ''}'' @ t
      = opt_string marshal ''target'' (Target e') @ ''}'' @ t'"
    using sha_cancel p unfolding rest_json_def by blast+
  then have "Target e = Target e'" "t = t'" using target_cancel p by blast+
  with path type mode size sha show ?thesis by (simp add: word_unat_eq_iff)
qed

lemma entries_json_cancel:
  "list_all plain_entry es \<Longrightarrow> list_all plain_entry es' \<Longrightarrow>
   entries_json marshal i es @ '']}'' = entries_json marshal i es' @ '']}'' \<Longrightarrow> es = es'"
proof (induction es arbitrary: es' i)
  case Nil
  then show ?case by (cases es') (auto simp: entry_json_rest json_key_def)
next
  case (Cons e es)
  have "es' \<noteq> []" using Cons.prems by (auto simp: entry_json_rest json_key_def)
  then obtain e' es'' where es': "es' = e' # es''" by (cases es') auto
  have "entry_json marshal e @ entries_json marshal (Suc i) es @ '']}''
      = entry_json marshal e' @ entries_json marshal (Suc i) es'' @ '']}''"
    using Cons.prems(3) es' by simp
  then have "e = e' \<and> entries_json marshal (Suc i) es @ '']}'' = entries_json marshal (Suc i) es'' @ '']}''"
    using Cons.prems(1,2) es' by (intro entry_json_cancel) simp_all
  with Cons.IH [of es'' "Suc i"] Cons.prems(1,2) es' show ?case by simp
qed

lemma AppendManifestJSON_inj:
  assumes "list_all plain_entry (slice (Entries m))" "list_all plain_entry (slice (Entries m'))"
    and "AppendManifestJSON marshal [] m = AppendManifestJSON marshal [] m'"
  shows "m = m'"
  using assms entries_json_cancel [of _ _ marshal 0]
  by (cases m; cases m') (auto simp: AppendManifestJSON_eq json_null_def json_open_def split: option.splits)

text \<open>C34. A root hash identifies its manifest: two manifests of plain strings with the same
  \<open>RootHash\<close> are the same manifest, unless SHA-256 collides on their two encodings.\<close>

theorem RootHash_identifies:
  assumes "list_all plain_entry (slice (Entries m))" "list_all plain_entry (slice (Entries m'))"
    and "inj_on sha256hex {AppendManifestJSON marshal [] m, AppendManifestJSON marshal [] m'}"
    and "RootHash marshal sha256hex m = RootHash marshal sha256hex m'"
  shows "m = m'"
proof -
  have "concat (writeManifestJSON marshal x) = AppendManifestJSON marshal [] x" for x
    by (simp add: writeManifestJSON_def AppendManifestJSON_eq concat_write_entries split: option.split)
  with assms(4) have "sha256hex (AppendManifestJSON marshal [] m) = sha256hex (AppendManifestJSON marshal [] m')"
    by (simp add: RootHash_def)
  then have "AppendManifestJSON marshal [] m = AppendManifestJSON marshal [] m'"
    by (rule inj_onD [OF assms(3)]) simp_all
  with assms(1,2) show ?thesis by (rule AppendManifestJSON_inj)
qed

theorem RootHash_identifies_witness:
  "\<lparr>Entries = Some [sample_file]\<rparr> = \<lparr>Entries = Some (rev [sample_file])\<rparr>"
proof (rule RootHash_identifies [where marshal = id and sha256hex = id])
  show "list_all plain_entry (slice (Entries \<lparr>Entries = Some [sample_file]\<rparr>))"
    by (simp add: plain_entry_def plain_string_def sample_file_def jsonPlain_def)
  then show "list_all plain_entry (slice (Entries \<lparr>Entries = Some (rev [sample_file])\<rparr>))" by simp
qed simp_all

end
