(* ===== verification/Pathpolicy.thy ===== *)
theory Pathpolicy
  imports Relpath Proto
begin

text \<open>
  Package \<open>internal/pathpolicy\<close>: compilation of ignore rules (\<open>policy.go\<close>), the segment
  and path matchers, and the validation of artifact and cache declarations. Indices into a
  pattern or a name are modelled by the suffix they point at: \<open>pattern[i:]\<close> for an index
  \<open>i\<close>, so \<open>i == len(pattern)\<close> is the empty suffix. \<open>filepath.ToSlash\<close> is the identity
  (Unix). \<open>strings.ToLower\<close>, which uses the Unicode tables, is the parameter \<open>lower\<close>.
\<close>

definition MaxPatterns :: nat where "MaxPatterns = 10000"
definition MaxPatternBytes :: nat where "MaxPatternBytes = 8 * 2 ^ 10"
definition MaxPolicyBytes :: nat where "MaxPolicyBytes = 256 * 2 ^ 10"
definition MaxCaches :: nat where "MaxCaches = 64"

abbreviation star :: char where "star \<equiv> CHR ''*''"
abbreviation bslash :: char where "bslash \<equiv> CHR 0x5C"

record rule =
  components :: "string list"
  negated :: bool
  directoryOnly :: bool
  anchored :: bool

record matcher =
  matcher_prefix :: string
  matcher_rules :: "rule list"
  matcher_caseFold :: bool

datatype policy_error =
    TooManyCaches
  | InvalidCacheName string
  | CachePathMetadata string
  | CachePaths policy_error
  | CacheParentCasing string string
  | CachesOverlap string string
  | TooManyArtifacts
  | ArtifactNotExact string
  | ArtifactReserved string
  | ArtifactsTooLarge
  | ArtifactRepeated string
  | UnsafePrefix string
  | TooManyPatterns
  | PatternTooLong
  | PatternLineBreak
  | PolicyTooLarge

subsection \<open>Bytes and classes\<close>

definition foldASCII :: "char \<Rightarrow> bool \<Rightarrow> char" where
  "foldASCII value enabled =
     (if enabled \<and> CHR ''A'' \<le> value \<and> value \<le> CHR ''Z''
      then char_of ((of_char value :: nat) + (of_char CHR ''a'' - of_char CHR ''A'')) else value)"

definition equalByte :: "char \<Rightarrow> char \<Rightarrow> bool \<Rightarrow> bool" where
  "equalByte left right caseFold \<longleftrightarrow> foldASCII left caseFold = foldASCII right caseFold"

definition inRange :: "char \<Rightarrow> char \<Rightarrow> char \<Rightarrow> bool \<Rightarrow> bool" where
  "inRange value start end' caseFold =
     (let foldedValue = foldASCII value caseFold;
          foldedStart = foldASCII start caseFold;
          foldedEnd = foldASCII end' caseFold;
          upper = char_of ((of_char value :: nat) - (of_char CHR ''a'' - of_char CHR ''A''))
      in if foldedStart \<le> foldedValue \<and> foldedValue \<le> foldedEnd then True
         else caseFold \<and> CHR ''a'' \<le> value \<and> value \<le> CHR ''z'' \<and> start \<le> upper \<and> upper \<le> end')"

definition isASCIIAlpha :: "char \<Rightarrow> bool" where
  "isASCIIAlpha value \<longleftrightarrow>
     (CHR ''a'' \<le> value \<and> value \<le> CHR ''z'') \<or> (CHR ''A'' \<le> value \<and> value \<le> CHR ''Z'')"

definition isASCIIDigit :: "char \<Rightarrow> bool" where
  "isASCIIDigit value \<longleftrightarrow> CHR ''0'' \<le> value \<and> value \<le> CHR ''9''"

text \<open>The second component is \<open>valid\<close>.\<close>

definition matchPOSIXClass :: "string \<Rightarrow> char \<Rightarrow> bool \<Rightarrow> bool \<times> bool" where
  "matchPOSIXClass name value caseFold =
     (if name = ''alnum'' then (isASCIIAlpha value \<or> isASCIIDigit value, True)
      else if name = ''alpha'' then (isASCIIAlpha value, True)
      else if name = ''blank'' then (value = CHR '' '' \<or> value = CHR 0x09, True)
      else if name = ''cntrl'' then (value \<le> CHR 0x1F \<or> value = CHR 0x7F, True)
      else if name = ''digit'' then (isASCIIDigit value, True)
      else if name = ''graph'' then (CHR 0x20 < value \<and> value \<le> CHR 0x7E, True)
      else if name = ''lower'' then
        ((CHR ''a'' \<le> value \<and> value \<le> CHR ''z'') \<or> (caseFold \<and> CHR ''A'' \<le> value \<and> value \<le> CHR ''Z''), True)
      else if name = ''print'' then (CHR 0x20 \<le> value \<and> value \<le> CHR 0x7E, True)
      else if name = ''punct'' then
        (CHR 0x20 < value \<and> value \<le> CHR 0x7E \<and> \<not> isASCIIAlpha value \<and> \<not> isASCIIDigit value, True)
      else if name = ''space'' then
        (value = CHR '' '' \<or> value = CHR 0x09 \<or> value = CHR 0x0A \<or> value = CHR 0x0D \<or>
         value = CHR 0x0C \<or> value = CHR 0x0B, True)
      else if name = ''upper'' then
        ((CHR ''A'' \<le> value \<and> value \<le> CHR ''Z'') \<or> (caseFold \<and> CHR ''a'' \<le> value \<and> value \<le> CHR ''z''), True)
      else if name = ''xdigit'' then
        (isASCIIDigit value \<or> (CHR ''a'' \<le> value \<and> value \<le> CHR ''f'') \<or> (CHR ''A'' \<le> value \<and> value \<le> CHR ''F''), True)
      else (False, False))"

text \<open>The loop of \<open>matchClass\<close>. \<open>None\<close> is the invalid class \<open>(false, 0, false)\<close>; \<open>Some (m, rest)\<close>
  is \<open>(m, next, true)\<close> with \<open>rest = pattern[next:]\<close>. \<open>previous\<close> is NUL for "no range start".\<close>

function class_loop :: "char \<Rightarrow> bool \<Rightarrow> bool \<Rightarrow> bool \<Rightarrow> char \<Rightarrow> string \<Rightarrow> (bool \<times> string) option" where
  "class_loop value caseFold neg matched previous [] = None"
| "class_loop value caseFold neg matched previous (current # cs) =
     (if current = CHR '']'' then Some (if neg then \<not> matched else matched, cs)
      else if current = bslash then
        (case cs of [] \<Rightarrow> None
         | c # cs' \<Rightarrow> class_loop value caseFold neg (matched \<or> equalByte c value caseFold) c cs')
      else if current = CHR ''-'' \<and> previous \<noteq> nul \<and> cs \<noteq> [] \<and> hd cs \<noteq> CHR '']'' then
        (if hd cs = bslash then
           (case tl cs of [] \<Rightarrow> None
            | e # cs' \<Rightarrow> class_loop value caseFold neg (matched \<or> inRange value previous e caseFold) nul cs')
         else class_loop value caseFold neg (matched \<or> inRange value previous (hd cs) caseFold) nul (tl cs))
      else if current = CHR ''['' \<and> cs \<noteq> [] \<and> hd cs = CHR '':'' then
        (case index_of (tl cs) '':]'' of
           None \<Rightarrow> class_loop value caseFold neg (matched \<or> equalByte (CHR ''['') value caseFold) (CHR ''['') cs
         | Some k \<Rightarrow>
             (case matchPOSIXClass (take k (tl cs)) value caseFold of (classMatched, valid) \<Rightarrow>
                if \<not> valid then None
                else class_loop value caseFold neg (matched \<or> classMatched) nul (drop (k + 2) (tl cs))))
      else class_loop value caseFold neg (matched \<or> equalByte current value caseFold) current cs)"
  by pat_completeness auto
termination
  by (relation "measure (\<lambda>(_, _, _, _, _, cs). length cs)") (auto simp: neq_Nil_conv)

text \<open>\<open>matchClass\<close> from the byte after the opening bracket.\<close>

definition matchClass :: "string \<Rightarrow> char \<Rightarrow> bool \<Rightarrow> (bool \<times> string) option" where
  "matchClass cs value caseFold =
     (if cs = [] then None
      else let neg = (hd cs = CHR ''!'' \<or> hd cs = CHR ''^'');
               cs' = (if neg then tl cs else cs)
           in if cs' \<noteq> [] \<and> hd cs' = CHR '']''
              then class_loop value caseFold neg (equalByte (CHR '']'') value caseFold) (CHR '']'') (tl cs')
              else class_loop value caseFold neg False nul cs')"

subsection \<open>Segments\<close>

text \<open>One pattern element that is not a star against one byte of the name: the rest of the
  pattern when it matches.\<close>

definition seg_step :: "bool \<Rightarrow> string \<Rightarrow> char \<Rightarrow> string option" where
  "seg_step caseFold p c =
     (case p of
        [] \<Rightarrow> None
      | d # p' \<Rightarrow>
          if d = CHR ''?'' then Some p'
          else if d = bslash then
            (case p' of [] \<Rightarrow> None | x # p'' \<Rightarrow> if equalByte x c caseFold then Some p'' else None)
          else if d = CHR ''['' then
            (case matchClass p' c caseFold of
               Some (classMatched, rest) \<Rightarrow> if classMatched then Some rest else None
             | None \<Rightarrow> None)
          else if equalByte d c caseFold then Some p' else None)"

text \<open>The loop of \<open>matchSegment\<close>. The state is \<open>pattern[patternIndex:]\<close>, \<open>name[nameIndex:]\<close>
  and, once a star was met, \<open>pattern[starPattern:]\<close> and \<open>name[starName:]\<close>. (\<open>starName\<close> never
  passes \<open>nameIndex\<close>, so its suffix is not empty where the loop moves it on.)\<close>

function seg_loop :: "bool \<Rightarrow> string \<Rightarrow> string \<Rightarrow> (string \<times> string) option \<Rightarrow> bool" where
  "seg_loop caseFold p n st =
     (case n of
        [] \<Rightarrow> dropWhile ((=) star) p = []
      | c # n' \<Rightarrow>
          if p \<noteq> [] \<and> hd p = star then
            (let p' = dropWhile ((=) star) p in seg_loop caseFold p' n (Some (p', n)))
          else (case seg_step caseFold p c of
                  Some p' \<Rightarrow> seg_loop caseFold p' n' st
                | None \<Rightarrow>
                    (case st of
                       None \<Rightarrow> False
                     | Some (sp, sn) \<Rightarrow>
                         (case sn of [] \<Rightarrow> False
                          | _ # sn' \<Rightarrow> seg_loop caseFold sp sn' (Some (sp, sn'))))))"
  by pat_completeness auto
termination
proof (relation "measures [\<lambda>(_, p, n, st). (case st of None \<Rightarrow> Suc (length n) | Some (_, sn) \<Rightarrow> max (length sn) (length n)),
    \<lambda>(_, p, n, st). length n, \<lambda>(_, p, n, st). length p]", goal_cases)
  case (2 caseFold p n st c n' p')
  then have "length p' < length p" by (cases p) (auto simp: length_dropWhile_le less_Suc_eq_le)
  then show ?case using 2 by (auto split: option.splits)
qed (auto split: option.splits)

declare seg_loop.simps [simp del]

definition matchSegment :: "string \<Rightarrow> string \<Rightarrow> bool \<Rightarrow> bool" where
  "matchSegment pattern name caseFold = seg_loop caseFold pattern name None"

text \<open>What a segment pattern means: a star takes any number of bytes, every other element
  exactly one.\<close>

declare class_loop.simps(2) [simp del]

lemma class_loop_shorter:
  "class_loop v cf neg matched previous cs = Some (m, rest) \<Longrightarrow> length rest < length cs"
proof (induction v cf neg matched previous cs rule: class_loop.induct)
  case (2 v cf neg matched previous current cs)
  have "length cs' \<le> length cs \<Longrightarrow> length rest < length cs' \<Longrightarrow> length rest < length (current # cs)" for cs'
    by simp
  note le = this
  show ?case
    using "2.prems" "2.IH"
    by (auto simp: class_loop.simps(2) neq_Nil_conv split: if_splits list.splits option.splits prod.splits intro: le)
       fastforce
qed simp

lemma matchClass_shorter:
  assumes "matchClass cs value caseFold = Some (m, rest)"
  shows "length rest < length cs"
proof -
  obtain cs' n mt pv where "class_loop value caseFold n mt pv cs' = Some (m, rest)" "length cs' \<le> length cs"
    using assms by (auto simp: matchClass_def Let_def split: if_splits)
  then show ?thesis using class_loop_shorter by fastforce
qed

lemma seg_step_shorter: "seg_step caseFold p c = Some p' \<Longrightarrow> length p' < length p"
  by (auto simp: seg_step_def split: list.splits if_splits option.splits prod.splits dest!: matchClass_shorter)

function glob :: "bool \<Rightarrow> string \<Rightarrow> string \<Rightarrow> bool" where
  "glob caseFold [] n = (n = [])"
| "glob caseFold (d # p) n =
     (if d = star then glob caseFold p n \<or> (case n of [] \<Rightarrow> False | _ # n' \<Rightarrow> glob caseFold (d # p) n')
      else (case n of [] \<Rightarrow> False
            | c # n' \<Rightarrow> (case seg_step caseFold (d # p) c of None \<Rightarrow> False | Some p' \<Rightarrow> glob caseFold p' n')))"
  by pat_completeness auto
termination
  by (relation "measure (\<lambda>(_, p, n). length p + length n)")
     (auto dest!: seg_step_shorter simp: neq_Nil_conv)

subsection \<open>The backtracking loop computes the meaning\<close>

text \<open>Whether a class is well formed and where it ends does not depend on the byte it is
  tried on.\<close>

lemma matchPOSIXClass_valid: "snd (matchPOSIXClass name v cf) = snd (matchPOSIXClass name v' cf)"
  by (simp add: matchPOSIXClass_def)

lemma class_loop_rest:
  "map_option snd (class_loop v cf neg m prev cs) = map_option snd (class_loop v' cf neg m' prev cs)"
proof (induction cs arbitrary: m m' prev rule: length_induct)
  case (1 cs)
  then have IH: "length xs < length cs \<Longrightarrow>
      map_option snd (class_loop v cf neg m prev xs) = map_option snd (class_loop v' cf neg m' prev xs)"
    for xs m m' prev by blast
  show ?case
  proof (cases cs)
    case (Cons c ds)
    consider "c = CHR '']''" | "c = bslash"
      | "c \<noteq> CHR '']''" "c \<noteq> bslash" "c = CHR ''-'' \<and> prev \<noteq> nul \<and> ds \<noteq> [] \<and> hd ds \<noteq> CHR '']''"
      | "c \<noteq> CHR '']''" "c \<noteq> bslash" "\<not> (c = CHR ''-'' \<and> prev \<noteq> nul \<and> ds \<noteq> [] \<and> hd ds \<noteq> CHR '']'')"
        "c = CHR ''['' \<and> ds \<noteq> [] \<and> hd ds = CHR '':''"
      | "c \<noteq> CHR '']''" "c \<noteq> bslash" "\<not> (c = CHR ''-'' \<and> prev \<noteq> nul \<and> ds \<noteq> [] \<and> hd ds \<noteq> CHR '']'')"
        "\<not> (c = CHR ''['' \<and> ds \<noteq> [] \<and> hd ds = CHR '':'')"
      by blast
    then show ?thesis
    proof cases
      case 2
      then show ?thesis using Cons IH by (cases ds) (simp_all add: class_loop.simps(2))
    next
      case 3
      then obtain d es where ds: "ds = d # es" by (cases ds) auto
      show ?thesis
      proof (cases "d = bslash")
        case True
        then show ?thesis using 3 ds Cons IH by (cases es) (simp_all add: class_loop.simps(2))
      next
        case False
        then show ?thesis using 3 ds Cons IH by (simp add: class_loop.simps(2))
      qed
    next
      case 4
      show ?thesis
      proof (cases "index_of (tl ds) '':]''")
        case (Some k)
        obtain a b a' where pm: "matchPOSIXClass (take k (tl ds)) v cf = (a, b)"
          "matchPOSIXClass (take k (tl ds)) v' cf = (a', b)"
          using matchPOSIXClass_valid [of "take k (tl ds)" v cf v']
          by (cases "matchPOSIXClass (take k (tl ds)) v cf"; cases "matchPOSIXClass (take k (tl ds)) v' cf") auto
        have "length (drop (k + 2) (tl ds)) < length cs" using Cons by simp
        from IH [OF this, of "m \<or> a" nul "m' \<or> a'"] show ?thesis using 4 Some pm Cons by (simp add: class_loop.simps(2))
      qed (use 4 Cons IH in \<open>simp add: class_loop.simps(2)\<close>)
    next
      case 5
      have "class_loop w cf neg mm prev cs = class_loop w cf neg (mm \<or> equalByte c w cf) c ds" for w mm
        using 5 Cons by (auto simp: class_loop.simps(2))
      then show ?thesis using IH [of ds] Cons by simp
    qed (use Cons in \<open>simp add: class_loop.simps(2)\<close>)
  qed simp
qed

lemma matchClass_rest:
  "matchClass cs v cf = Some (m, r) \<Longrightarrow> matchClass cs v' cf = Some (m', r') \<Longrightarrow> r = r'"
  using class_loop_rest [of v cf] by (auto simp: matchClass_def Let_def split: if_splits)
    (metis (no_types) class_loop_rest option.inject option.simps(9) snd_conv)+

lemma seg_step_rest: "seg_step cf p c = Some r \<Longrightarrow> seg_step cf p c' = Some r' \<Longrightarrow> r = r'"
  by (auto simp: seg_step_def split: list.splits if_splits option.splits prod.splits dest: matchClass_rest)

lemma glob_star: "glob cf (star # p) n \<longleftrightarrow> (\<exists>k. glob cf p (drop k n))"
proof (induction n)
  case Nil
  then show ?case by simp
next
  case (Cons c n)
  have "(\<exists>k. glob cf p (drop k (c # n))) \<longleftrightarrow> glob cf p (c # n) \<or> (\<exists>k. glob cf p (drop k n))"
    by (metis drop0 drop_Suc_Cons not0_implies_Suc)
  with Cons show ?case by simp
qed

lemma glob_stars: "hd p = star \<Longrightarrow> p \<noteq> [] \<Longrightarrow> glob cf p n \<longleftrightarrow> glob cf (star # dropWhile ((=) star) p) n"
proof (induction p arbitrary: n)
  case (Cons d p)
  show ?case
  proof (cases "p \<noteq> [] \<and> hd p = star")
    case True
    then have "glob cf (star # p) n \<longleftrightarrow> (\<exists>k. glob cf (star # dropWhile ((=) star) p) (drop k n))"
      using Cons.IH by (simp add: glob_star del: glob.simps)
    also have "\<dots> \<longleftrightarrow> glob cf (star # dropWhile ((=) star) p) n"
      by (simp only: glob_star drop_drop) (metis add.commute add_0)
    finally show ?thesis using Cons.prems by simp
  next
    case False
    then have "dropWhile ((=) star) p = p" by (cases p) auto
    with Cons.prems show ?thesis by simp
  qed
qed simp

lemma glob_Nil: "glob cf p [] \<longleftrightarrow> dropWhile ((=) star) p = []"
  by (induction p) auto

lemma glob_step:
  "\<not> (p \<noteq> [] \<and> hd p = star) \<Longrightarrow>
   glob cf p (c # n) \<longleftrightarrow> (case seg_step cf p c of None \<Rightarrow> False | Some p' \<Rightarrow> glob cf p' n)"
  by (cases p) (auto simp: seg_step_def)

lemma seg_loop_Cons:
  "\<not> (p \<noteq> [] \<and> hd p = star) \<Longrightarrow>
   seg_loop cf p (c # n) st =
     (case seg_step cf p c of
        Some p' \<Rightarrow> seg_loop cf p' n st
      | None \<Rightarrow> (case st of None \<Rightarrow> False
          | Some (sp, sn) \<Rightarrow> (case sn of [] \<Rightarrow> False | _ # sn' \<Rightarrow> seg_loop cf sp sn' (Some (sp, sn')))))"
  by (subst seg_loop.simps) auto

text \<open>While the loop works after a star, every later start of the star's rest that leads to a
  match also leads to a match from the loop's own position.\<close>

definition ahead :: "bool \<Rightarrow> string \<Rightarrow> string \<Rightarrow> string \<Rightarrow> string \<Rightarrow> bool" where
  "ahead cf sp sn p n \<longleftrightarrow> length n \<le> length sn \<and> (\<forall>k. glob cf sp (drop k sn) \<longrightarrow> glob cf p (drop k n))"

lemma ahead_refl: "ahead cf p n p n"
  by (simp add: ahead_def)

lemma ahead_step:
  assumes "ahead cf sp sn p (c # n)" "\<not> (p \<noteq> [] \<and> hd p = star)" "seg_step cf p c = Some p'"
  shows "ahead cf sp sn p' n"
proof -
  have "glob cf p' (drop k n)" if "glob cf sp (drop k sn)" for k
  proof -
    have g: "glob cf p (drop k (c # n))" using that assms(1) by (simp add: ahead_def)
    show ?thesis
    proof (cases "drop k (c # n)")
      case Nil
      with g assms(2,3) show ?thesis by (cases p) (auto simp: seg_step_def)
    next
      case (Cons c' n')
      with g obtain p'' where "seg_step cf p c' = Some p''" "glob cf p'' n'"
        using glob_step [OF assms(2)] by (auto split: option.splits)
      moreover have "n' = drop k n" using Cons by (metis drop_Suc_Cons drop_Suc list.sel(3) tl_drop)
      ultimately show ?thesis using seg_step_rest assms(3) by blast
    qed
  qed
  with assms(1) show ?thesis by (simp add: ahead_def)
qed

definition retry :: "bool \<Rightarrow> (string \<times> string) option \<Rightarrow> bool" where
  "retry cf st \<longleftrightarrow> (case st of None \<Rightarrow> False | Some (sp, sn) \<Rightarrow> \<exists>k. glob cf sp (drop (Suc k) sn))"

lemma seg_loop_glob:
  assumes "case st of None \<Rightarrow> True | Some (sp, sn) \<Rightarrow> ahead cf sp sn p n"
  shows "seg_loop cf p n st \<longleftrightarrow> glob cf p n \<or> retry cf st"
  using assms
proof (induction cf p n st rule: seg_loop.induct)
  case (1 cf p n st)
  show ?case
  proof (cases n)
    case Nil
    then have "retry cf st \<Longrightarrow> glob cf p n"
      using "1.prems" by (auto simp: retry_def ahead_def split: option.splits)
    with Nil show ?thesis by (auto simp: seg_loop.simps [of cf p] glob_Nil)
  next
    case (Cons c n')
    show ?thesis
    proof (cases "p \<noteq> [] \<and> hd p = star")
      case True
      let ?p = "dropWhile ((=) star) p"
      have "seg_loop cf p n st \<longleftrightarrow> glob cf ?p n \<or> retry cf (Some (?p, n))"
        using "1.IH"(1) [OF Cons True refl] True Cons by (simp add: seg_loop.simps [of cf p "c # n'"] ahead_refl Let_def)
      also have "\<dots> \<longleftrightarrow> glob cf (star # ?p) n"
        unfolding glob_star retry_def by simp (metis drop0 not0_implies_Suc)
      also have "\<dots> \<longleftrightarrow> glob cf p n" using glob_stars True by blast
      finally have "seg_loop cf p n st \<longleftrightarrow> glob cf p n" .
      moreover have "retry cf st \<Longrightarrow> glob cf p n"
      proof -
        assume "retry cf st"
        then obtain k where "glob cf p (drop k n)"
          using "1.prems" by (auto simp: retry_def ahead_def split: option.splits)
        then have "glob cf (star # ?p) (drop k n)" using glob_stars True by blast
        then obtain j where "glob cf ?p (drop (j + k) n)" unfolding glob_star drop_drop by blast
        then have "glob cf (star # ?p) n" unfolding glob_star by blast
        then show ?thesis using glob_stars True by blast
      qed
      ultimately show ?thesis by blast
    next
      case nostar: False
      show ?thesis
      proof (cases "seg_step cf p c")
        case (Some p')
        have "case st of None \<Rightarrow> True | Some (sp, sn) \<Rightarrow> ahead cf sp sn p' n'"
          using "1.prems" ahead_step [OF _ nostar Some] Cons by (auto split: option.splits)
        then show ?thesis
          using "1.IH"(3) [OF Cons nostar Some] Cons Some
          by (simp add: seg_loop_Cons [OF nostar] glob_step [OF nostar])
      next
        case None
        show ?thesis
        proof (cases st)
          case st: (Some s)
          obtain sp x sn where s: "s = (sp, x # sn)"
            using "1.prems" Cons st by (cases s; cases "snd s") (auto simp: ahead_def)
          have "seg_loop cf p n st \<longleftrightarrow> glob cf sp sn \<or> retry cf (Some (sp, sn))"
            using "1.IH"(2) [OF Cons nostar None st, of sp "x # sn" x sn] s Cons None st
            by (simp add: seg_loop_Cons [OF nostar] ahead_refl)
          also have "\<dots> \<longleftrightarrow> retry cf st"
            unfolding st s retry_def by simp (metis drop0 not0_implies_Suc)
          finally show ?thesis using None Cons by (simp add: glob_step [OF nostar])
        next
          case st: None
          then show ?thesis using None Cons
            by (simp add: seg_loop_Cons [OF nostar] glob_step [OF nostar] retry_def)
        qed
      qed
    qed
  qed
qed

text \<open>C33. \<open>matchSegment\<close>, which keeps only the last star to fall back to, accepts a name exactly
  when the pattern means it: stars take any bytes, every other element one, and forgetting
  the earlier stars loses no match.\<close>

theorem matchSegment_iff_glob: "matchSegment pattern name caseFold \<longleftrightarrow> glob caseFold pattern name"
  by (simp add: matchSegment_def seg_loop_glob retry_def)

lemma matchSegment_glob: "matchSegment pattern name caseFold \<longleftrightarrow> glob caseFold pattern name"
  by (simp add: matchSegment_def seg_loop_glob retry_def)

end
