(* ===== verification/Policy_Rules.thy ===== *)
theory Policy_Rules
  imports Pathpolicy
begin

text \<open>
  The rules of \<open>internal/pathpolicy/policy.go\<close>: compiling a pattern, matching it against the
  components of a path (with the memo table of the double-star search), and the decision
  \<open>Ignored\<close> over a compiled policy.
\<close>

subsection \<open>Matching components\<close>

definition isDoubleStar :: "string \<Rightarrow> bool" where
  "isDoubleStar component \<longleftrightarrow> 2 \<le> length component \<and> trim_both component ''*'' = ''''"

type_synonym memo = "nat \<times> nat \<rightharpoonup> bool"

text \<open>The closure \<open>match\<close>: the memo table is passed through the calls, and \<open>||\<close> and \<open>&&\<close>
  evaluate their right side only when needed.\<close>

function match_memo :: "bool \<Rightarrow> string list \<Rightarrow> string list \<Rightarrow> nat \<Rightarrow> nat \<Rightarrow> memo \<Rightarrow> bool \<times> memo" where
  "match_memo caseFold pattern name pi ni memo =
     (case memo (pi, ni) of
        Some matched \<Rightarrow> (matched, memo)
      | None \<Rightarrow>
          (let (matched, memo') =
             (if length pattern \<le> pi then (ni = length name, memo)
              else if isDoubleStar (pattern ! pi) then
                (if pi = length pattern - 1 then (ni < length name, memo)
                 else (case match_memo caseFold pattern name (pi + 1) ni memo of
                         (True, memo1) \<Rightarrow> (True, memo1)
                       | (False, memo1) \<Rightarrow>
                           if ni < length name then match_memo caseFold pattern name pi (ni + 1) memo1
                           else (False, memo1)))
              else if ni < length name then
                (if matchSegment (pattern ! pi) (name ! ni) caseFold
                 then match_memo caseFold pattern name (pi + 1) (ni + 1) memo else (False, memo))
              else (False, memo))
           in (matched, memo'((pi, ni) \<mapsto> matched))))"
  by pat_completeness auto
termination
  by (relation "measure (\<lambda>(_, pattern, name, pi, ni, _). (length pattern - pi) + (length name - ni))") auto

declare match_memo.simps [simp del]

definition matchComponents :: "string list \<Rightarrow> string list \<Rightarrow> bool \<Rightarrow> bool" where
  "matchComponents pattern name caseFold =
     (if \<not> list_ex isDoubleStar pattern then
        (if length pattern \<noteq> length name then False
         else list_all (\<lambda>i. matchSegment (pattern ! i) (name ! i) caseFold) [0..<length pattern])
      else fst (match_memo caseFold pattern name 0 0 (\<lambda>_. None)))"

definition matchesParts :: "rule \<Rightarrow> string list \<Rightarrow> bool \<Rightarrow> bool" where
  "matchesParts r parts caseFold =
     (let parts' = (if \<not> anchored r then drop (length parts - 1) parts else parts)
      in matchComponents (components r) parts' caseFold)"

text \<open>The meaning of a component pattern: a double star takes any number of components, at
  least one when it is last.\<close>

function path_match :: "bool \<Rightarrow> string list \<Rightarrow> string list \<Rightarrow> bool" where
  "path_match caseFold [] ns = (ns = [])"
| "path_match caseFold (p # ps) ns =
     (if isDoubleStar p then
        (if ps = [] then ns \<noteq> []
         else path_match caseFold ps ns \<or> (case ns of [] \<Rightarrow> False | _ # ns' \<Rightarrow> path_match caseFold (p # ps) ns'))
      else (case ns of [] \<Rightarrow> False | n # ns' \<Rightarrow> glob caseFold p n \<and> path_match caseFold ps ns'))"
  by pat_completeness auto
termination
  by (relation "measure (\<lambda>(_, ps, ns). length ps + length ns)") auto

definition memo_ok :: "bool \<Rightarrow> string list \<Rightarrow> string list \<Rightarrow> memo \<Rightarrow> bool" where
  "memo_ok cf pattern name memo \<longleftrightarrow>
     (\<forall>pi ni b. memo (pi, ni) = Some b \<longrightarrow> b = path_match cf (drop pi pattern) (drop ni name))"

lemma path_match_drop:
  assumes "pi < length pattern" "ni \<le> length name"
  shows "path_match cf (drop pi pattern) (drop ni name) =
    (if isDoubleStar (pattern ! pi) then
       (if pi = length pattern - 1 then ni < length name
        else path_match cf (drop (pi + 1) pattern) (drop ni name) \<or>
             (ni < length name \<and> path_match cf (drop pi pattern) (drop (ni + 1) name)))
     else ni < length name \<and> glob cf (pattern ! pi) (name ! ni) \<and>
          path_match cf (drop (pi + 1) pattern) (drop (ni + 1) name))"
proof -
  have p: "drop pi pattern = pattern ! pi # drop (pi + 1) pattern" using assms(1) by (simp add: Cons_nth_drop_Suc)
  have last: "drop (pi + 1) pattern = [] \<longleftrightarrow> pi = length pattern - 1" using assms(1) by auto
  show ?thesis
  proof (cases "ni < length name")
    case True
    then have n: "drop ni name = name ! ni # drop (ni + 1) name" by (simp add: Cons_nth_drop_Suc)
    show ?thesis using True last
      unfolding n p by (subst path_match.simps(2)) (simp del: path_match.simps)
  next
    case False
    then have "drop ni name = []" by simp
    with False last show ?thesis unfolding p by (simp del: path_match.simps add: path_match.simps(2))
  qed
qed

lemma match_memo_correct:
  assumes "memo_ok cf pattern name memo" "pi \<le> length pattern" "ni \<le> length name"
  shows "fst (match_memo cf pattern name pi ni memo) = path_match cf (drop pi pattern) (drop ni name)
    \<and> memo_ok cf pattern name (snd (match_memo cf pattern name pi ni memo))"
  using assms
proof (induction cf pattern name pi ni memo rule: match_memo.induct)
  case (1 cf pattern name pi ni memo)
  show ?case
  proof (cases "memo (pi, ni)")
    case (Some b)
    then show ?thesis using "1.prems" by (auto simp: match_memo.simps [of cf pattern name pi] memo_ok_def)
  next
    case None
    show ?thesis
    proof (cases "pi < length pattern")
      case False
      then have pi: "length pattern \<le> pi" "drop pi pattern = []" by auto
      moreover have "drop ni name = [] \<longleftrightarrow> ni = length name" using "1.prems" by auto
      ultimately show ?thesis using "1.prems" None
        by (auto simp: match_memo.simps [of cf pattern name pi] memo_ok_def)
    next
      case True
      then have pl: "\<not> length pattern \<le> pi" by simp
      note step = path_match_drop [OF True "1.prems"(3), of cf]
      note eval = match_memo.simps [of cf pattern name pi ni memo]
      have fin: ?thesis
        if "match_memo cf pattern name pi ni memo = (m, memo'((pi, ni) \<mapsto> m))"
          "m = path_match cf (drop pi pattern) (drop ni name)" "memo_ok cf pattern name memo'" for m memo'
        using that by (auto simp: memo_ok_def)
      show ?thesis
      proof (cases "isDoubleStar (pattern ! pi)")
        case ds: True
        show ?thesis
        proof (cases "pi = length pattern - 1")
          case True
          then have "length pattern = Suc pi" using pl by simp
          with ds None "1.prems"(1) show ?thesis
            by (intro fin [of "ni < length name" memo]) (simp_all add: eval step)
        next
          case nl: False
          obtain b memo1 where r1: "match_memo cf pattern name (pi + 1) ni memo = (b, memo1)" by fastforce
          have ok1: "b = path_match cf (drop (pi + 1) pattern) (drop ni name)" "memo_ok cf pattern name memo1"
            using "1.IH"(1) [OF None pl ds nl "1.prems"(1) _ "1.prems"(3)] pl r1 by auto
          show ?thesis
          proof (cases "\<not> b \<and> ni < length name")
            case True
            obtain b' memo2 where r2: "match_memo cf pattern name pi (ni + 1) memo1 = (b', memo2)" by fastforce
            have "b' = path_match cf (drop pi pattern) (drop (ni + 1) name)" "memo_ok cf pattern name memo2"
              using "1.IH"(2) [OF None pl ds nl r1 [symmetric] _ _ ok1(2)] True pl r2 by auto
            with True ok1 r1 r2 nl ds pl None show ?thesis
              by (intro fin [of b' memo2]) (simp_all add: eval step)
          next
            case False
            with ok1 r1 nl ds pl None show ?thesis
              by (intro fin [of b memo1]) (auto simp: eval step split: bool.splits)
          qed
        qed
      next
        case nds: False
        show ?thesis
        proof (cases "ni < length name \<and> matchSegment (pattern ! pi) (name ! ni) cf")
          case True
          obtain b memo1 where r1: "match_memo cf pattern name (pi + 1) (ni + 1) memo = (b, memo1)" by fastforce
          have "b = path_match cf (drop (pi + 1) pattern) (drop (ni + 1) name)" "memo_ok cf pattern name memo1"
            using "1.IH"(3) [OF None pl nds _ _ "1.prems"(1)] True pl r1 by auto
          with True r1 nds pl None show ?thesis
            by (intro fin [of b memo1]) (simp_all add: eval step matchSegment_glob)
        next
          case False
          with nds pl None "1.prems"(1) show ?thesis
            by (intro fin [of False memo]) (auto simp: eval step matchSegment_glob)
        qed
      qed
    qed
  qed
qed

lemma path_match_no_double:
  "\<not> list_ex isDoubleStar ps \<Longrightarrow>
   path_match cf ps ns \<longleftrightarrow> length ps = length ns \<and> (\<forall>i < length ps. glob cf (ps ! i) (ns ! i))"
proof (induction ps arbitrary: ns)
  case (Cons p ps)
  then show ?case by (cases ns) (auto simp: All_less_Suc2)
qed auto

lemma matchComponents_path_match: "matchComponents pattern name cf = path_match cf pattern name"
proof (cases "list_ex isDoubleStar pattern")
  case True
  have "memo_ok cf pattern name (\<lambda>_. None)" by (simp add: memo_ok_def)
  from match_memo_correct [OF this, of 0 0] True show ?thesis by (simp add: matchComponents_def)
next
  case False
  then show ?thesis
    by (auto simp: matchComponents_def path_match_no_double list_all_iff matchSegment_glob)
qed

text \<open>C32. \<open>matchComponents\<close> is the meaning of its pattern: the fast path without a double star and
  the memoised search with one compute the same relation, in which a double star takes any
  number of components (at least one in last place).\<close>

theorem matchComponents_iff_path_match:
  "matchComponents pattern name caseFold \<longleftrightarrow> path_match caseFold pattern name"
  by (simp add: matchComponents_path_match)

subsection \<open>Compiling rules\<close>

definition count_trailing :: "char \<Rightarrow> string \<Rightarrow> nat" where
  "count_trailing c s = length (takeWhile ((=) c) (rev s))"

text \<open>The loop removes one trailing space at a time unless an odd number of backslashes
  precedes it.\<close>

function trimUnescapedTrailingSpaces :: "string \<Rightarrow> string" where
  "trimUnescapedTrailingSpaces pattern =
     (if \<not> has_suffix pattern '' '' then pattern
      else if odd (count_trailing bslash (take (length pattern - 1) pattern)) then pattern
      else trimUnescapedTrailingSpaces (trim_suffix pattern '' ''))"
  by pat_completeness auto
termination
  by (relation "measure length") (auto simp: has_suffix_def trim_suffix_def suffix_def)

declare trimUnescapedTrailingSpaces.simps [simp del]

fun split_pattern_loop :: "string \<Rightarrow> string \<Rightarrow> string list" where
  "split_pattern_loop component [] = [component]"
| "split_pattern_loop component (c # cs) =
     (if c \<noteq> slash then split_pattern_loop (component @ [c]) cs
      else (if odd (count_trailing bslash component) then take (length component - 1) component
            else component) # split_pattern_loop [] cs)"

definition splitPattern :: "string \<Rightarrow> string list" where
  "splitPattern pattern = split_pattern_loop [] pattern"

definition compileRule :: "string \<Rightarrow> rule option" where
  "compileRule pattern0 =
     (let pattern = trimUnescapedTrailingSpaces pattern0
      in if pattern = '''' \<or> has_prefix pattern ''#'' then None
         else
           let neg = has_prefix pattern ''!'';
               pattern = (if neg then trim_prefix pattern ''!'' else pattern)
           in if pattern = '''' then None
              else
                let dirOnly = has_suffix pattern ''/'';
                    pattern = (if dirOnly then trim_suffix pattern ''/'' else pattern);
                    anch = has_prefix pattern ''/'' \<or> contains_str pattern ''/'';
                    pattern = trim_prefix pattern ''/''
                in if pattern = '''' then None
                   else Some \<lparr>components = splitPattern pattern, negated = neg,
                              directoryOnly = dirOnly, anchored = anch\<rparr>)"

text \<open>The loop over the patterns of \<open>Compile\<close>; \<open>tot\<close> counts the bytes so far.\<close>

fun compile_patterns :: "nat \<Rightarrow> string list \<Rightarrow> policy_error + rule list" where
  "compile_patterns tot [] = Inr []"
| "compile_patterns tot (pattern # ps) =
     (if MaxPatternBytes < length pattern then Inl PatternTooLong
      else if contains_any pattern [nul, CHR 0x0D, CHR 0x0A] then Inl PatternLineBreak
      else if int (length pattern) > int MaxPolicyBytes - int tot then Inl PolicyTooLarge
      else bind_res (compile_patterns (tot + length pattern) ps)
             (\<lambda>rules. Inr (case compileRule pattern of None \<Rightarrow> rules | Some r \<Rightarrow> r # rules)))"

definition validatePrefix :: "string \<Rightarrow> policy_error + unit" where
  "validatePrefix pre =
     (if pre = '''' then Inr ()
      else if has_prefix pre ''/'' \<or> path_clean pre \<noteq> pre \<or> pre = ''.'' \<or> pre = ''..'' \<or>
              has_prefix pre ''../'' \<or> nul \<in> set pre
      then Inl (UnsafePrefix pre) else Inr ())"

subsection \<open>The decision\<close>

definition dir_at :: "string list \<Rightarrow> nat \<Rightarrow> bool \<Rightarrow> bool" where
  "dir_at parts i directory \<longleftrightarrow> i < length parts - 1 \<or> directory"

text \<open>The inner loop: the last rule that matches decides.\<close>

fun rules_decide :: "bool \<Rightarrow> string list \<Rightarrow> bool \<Rightarrow> rule list \<Rightarrow> bool \<Rightarrow> bool" where
  "rules_decide caseFold parts isDir [] decided = decided"
| "rules_decide caseFold parts isDir (r # rs) decided =
     rules_decide caseFold parts isDir rs
       (if (\<not> directoryOnly r \<or> isDir) \<and> matchesParts r parts caseFold then \<not> negated r else decided)"

definition ignored_parts :: "matcher \<Rightarrow> string list \<Rightarrow> bool \<Rightarrow> bool" where
  "ignored_parts m parts directory =
     foldl (\<lambda>ignored i. ignored \<or>
        rules_decide (matcher_caseFold m) (take (i + 1) parts) (dir_at parts i directory) (matcher_rules m) False)
       False [0..<length parts]"

definition Ignored :: "matcher option \<Rightarrow> string \<Rightarrow> bool \<Rightarrow> bool" where
  "Ignored mo name directory =
     (case mo of
        None \<Rightarrow> False
      | Some m \<Rightarrow>
          (let name = trim_prefix name ''./'';
               name = (if matcher_prefix m \<noteq> '''' then path_join (matcher_prefix m) name else name)
           in ignored_parts m (split_on slash name) directory))"

subsection \<open>Facts about decisions\<close>

definition rule_hits :: "bool \<Rightarrow> string list \<Rightarrow> bool \<Rightarrow> rule \<Rightarrow> bool" where
  "rule_hits caseFold parts isDir r \<longleftrightarrow> (\<not> directoryOnly r \<or> isDir) \<and> matchesParts r parts caseFold"

lemma rules_decide_last:
  "rules_decide cf parts isDir rs d =
     (case filter (rule_hits cf parts isDir) rs of [] \<Rightarrow> d | h # hs \<Rightarrow> \<not> negated (last (h # hs)))"
  by (induction rs arbitrary: d) (auto simp: rule_hits_def split: list.splits)

lemma ignored_parts_iff:
  "ignored_parts m parts directory \<longleftrightarrow>
     (\<exists>i < length parts. rules_decide (matcher_caseFold m) (take (i + 1) parts)
        (dir_at parts i directory) (matcher_rules m) False)"
proof -
  have "foldl (\<lambda>b i. b \<or> P i) a xs \<longleftrightarrow> a \<or> (\<exists>i \<in> set xs. P i)" for P a and xs :: "nat list"
    by (induction xs arbitrary: a) auto
  then show ?thesis by (auto simp: ignored_parts_def)
qed

lemma rules_decide_False:
  "rules_decide cf parts isDir rs False \<longleftrightarrow>
     (let hits = filter (rule_hits cf parts isDir) rs in hits \<noteq> [] \<and> \<not> negated (last hits))"
  by (simp add: rules_decide_last Let_def split: list.split)

lemma ignored_parts_below:
  assumes "ignored_parts m ps True" "qs \<noteq> []"
  shows "ignored_parts m (ps @ qs) directory"
proof -
  obtain i where i: "i < length ps"
    "rules_decide (matcher_caseFold m) (take (i + 1) ps) (dir_at ps i True) (matcher_rules m) False"
    using assms(1) by (auto simp: ignored_parts_iff)
  have "i < length (ps @ qs)" "take (i + 1) (ps @ qs) = take (i + 1) ps"
    "dir_at (ps @ qs) i directory = dir_at ps i True"
    using i(1) assms(2) by (cases qs; simp add: dir_at_def)+
  with i(2) show ?thesis unfolding ignored_parts_iff by metis
qed

lemma trim_dot_slash_rel: "rel_path p \<Longrightarrow> trim_prefix p ''./'' = p"
proof -
  assume r: "rel_path p"
  have "\<not> prefix ''./'' p"
  proof
    assume "prefix ''./'' p"
    then obtain t where "p = ''.'' @ slash # t" by (auto simp: prefix_def)
    then have "''.'' \<in> set (split_on slash p)" using split_on_append [of slash "''.''" t] by auto
    then show False using rel_path_elems [OF r] by (auto simp: plain_elem_def)
  qed
  then show ?thesis by (simp add: trim_prefix_def)
qed

lemma Ignored_rel:
  assumes "rel_path p" "is_ok (validatePrefix (matcher_prefix m))"
  shows "Ignored (Some m) p d = ignored_parts m
    ((if matcher_prefix m = '''' then [] else split_on slash (matcher_prefix m)) @ split_on slash p) d"
proof -
  have "matcher_prefix m = '''' \<or> rel_path (matcher_prefix m)"
    using assms(2) by (auto simp: validatePrefix_def rel_path_def IsClean_fixed split: if_splits)
  then show ?thesis
    using assms(1) by (auto simp: Ignored_def Let_def trim_dot_slash_rel path_join_rel split_on_append_any)
qed

text \<open>C36. An ignored directory takes everything below it with it: no later rule, negated or not,
  brings back a path under a directory the policy ignores.\<close>

theorem Ignored_below_directory:
  assumes "rel_path dir" "rel_path (dir @ slash # rest)"
    and "is_ok (validatePrefix (matcher_prefix m))" and "Ignored (Some m) dir True"
  shows "Ignored (Some m) (dir @ slash # rest) directory"
  using assms ignored_parts_below [of m "(if matcher_prefix m = '''' then [] else split_on slash (matcher_prefix m)) @ split_on slash dir"
      "split_on slash rest" directory]
  by (simp add: Ignored_rel split_on_append_any)

definition sample_matcher :: matcher where
  "sample_matcher = \<lparr>matcher_prefix = ''pkg'', matcher_rules =
     [\<lparr>components = [''out*''], negated = False, directoryOnly = True, anchored = False\<rparr>,
      \<lparr>components = [''keep''], negated = True, directoryOnly = False, anchored = False\<rparr>],
     matcher_caseFold = False\<rparr>"

theorem Ignored_below_directory_witness:
  "Ignored (Some sample_matcher) ''output/keep'' False"
proof -
  have r: "rel_path ''output''" "rel_path ''output/keep''"
    by (simp_all add: rel_path_def IsClean_def has_prefix_def)
  have p: "validatePrefix (matcher_prefix sample_matcher) = Inr ()"
    by (simp add: sample_matcher_def validatePrefix_def has_prefix_def path_clean_def)
  have "Ignored (Some sample_matcher) ''output'' True"
    using r(1) p by (simp add: Ignored_rel is_ok_unit)
      (code_simp)
  with r p Ignored_below_directory [of "''output''" "''keep''" sample_matcher False] show ?thesis by simp
qed

text \<open>One prefix of the path at a time, the last rule that matches decides, and the path is
  ignored when some prefix is: exactly then a rule list has a last matching rule, for the
  path or one of its parent directories, that is not a negation.\<close>

theorem Ignored_last_matching_rule:
  "Ignored (Some m) name directory \<longleftrightarrow>
    (let name' = trim_prefix name ''./'';
         parts = split_on slash (if matcher_prefix m \<noteq> '''' then path_join (matcher_prefix m) name' else name')
     in \<exists>i < length parts. \<exists>hits.
          hits = filter (rule_hits (matcher_caseFold m) (take (i + 1) parts) (dir_at parts i directory)) (matcher_rules m) \<and>
          hits \<noteq> [] \<and> \<not> negated (last hits))"
  by (simp add: Ignored_def ignored_parts_iff rules_decide_False Let_def)

end
