(* ===== verification/Policy_Decls.thy ===== *)
theory Policy_Decls
  imports Policy_Rules
begin

text \<open>
  Artifact and cache declarations (\<open>artifacts.go\<close>, \<open>caches.go\<close>) and the whole of
  \<open>Compile\<close>, which validates them before it compiles the ignore rules.
\<close>

subsection \<open>Validation\<close>

definition artifact_bytes :: string where
  "artifact_bytes = [bslash, nul, CHR 0x0D, CHR 0x0A, CHR ''*'', CHR ''?'', CHR ''['', CHR '']'']"

definition artifact_exact :: "string \<Rightarrow> bool" where
  "artifact_exact name \<longleftrightarrow>
     \<not> (name = '''' \<or> has_prefix name ''/'' \<or> path_clean name \<noteq> name \<or> name = ''.'' \<or> name = ''..'' \<or>
        has_prefix name ''../'' \<or> contains_any name artifact_bytes)"

definition artifact_reserved :: "string \<Rightarrow> bool" where
  "artifact_reserved name \<longleftrightarrow>
     list_ex (\<lambda>(i, part). equal_fold part ''.git'' \<or> (i = 0 \<and> has_prefix part ''.errand-change-''))
       (enumerate 0 (split_on slash name))"

fun validate_artifact_list :: "nat \<Rightarrow> string list \<Rightarrow> string list \<Rightarrow> policy_error + unit" where
  "validate_artifact_list tot seen [] = Inr ()"
| "validate_artifact_list tot seen (name # names) =
     (if \<not> artifact_exact name then Inl (ArtifactNotExact name)
      else if artifact_reserved name then Inl (ArtifactReserved name)
      else if MaxPatternBytes < length name \<or> int (length name) > int MaxPolicyBytes - int tot
      then Inl ArtifactsTooLarge
      else if name \<in> set seen then Inl (ArtifactRepeated name)
      else validate_artifact_list (tot + length name) (name # seen) names)"

definition ValidateArtifacts :: "string list \<Rightarrow> policy_error + unit" where
  "ValidateArtifacts paths =
     (if MaxPatterns < length paths then Inl TooManyArtifacts
      else validate_artifact_list 0 [] paths)"

definition beneath :: "string \<Rightarrow> string \<Rightarrow> bool" where
  "beneath name root \<longleftrightarrow> name = root \<or> has_prefix name (root @ ''/'')"

definition cache_name_char :: "char \<Rightarrow> bool" where
  "cache_name_char c \<longleftrightarrow>
     (CHR ''a'' \<le> c \<and> c \<le> CHR ''z'') \<or> (CHR ''A'' \<le> c \<and> c \<le> CHR ''Z'') \<or>
     (CHR ''0'' \<le> c \<and> c \<le> CHR ''9'') \<or> c = CHR ''-'' \<or> c = CHR ''_'' \<or> c = CHR ''.''"

fun validate_cache_names :: "string list \<Rightarrow> cache_binding list \<Rightarrow> policy_error + unit" where
  "validate_cache_names names [] = Inr ()"
| "validate_cache_names names (cache # cs) =
     (let name = cache_name cache
      in if name = '''' \<or> 64 < length name \<or> name = ''.'' \<or> name = ''..'' \<or> name \<in> set names
         then Inl (InvalidCacheName name)
         else if \<not> list_all cache_name_char name then Inl (InvalidCacheName name)
         else if cache_path cache = ''.errand.toml'' \<or> cache_path cache = ''.errandignore''
         then Inl (CachePathMetadata (cache_path cache))
         else validate_cache_names (name # names) cs)"

text \<open>The parents of every path, each recorded under its folded spelling.\<close>

fun parent_casing :: "(string \<Rightarrow> string) \<Rightarrow> (string \<rightharpoonup> string) \<Rightarrow> string list \<Rightarrow> policy_error + (string \<rightharpoonup> string)" where
  "parent_casing lower parents [] = Inr parents"
| "parent_casing lower parents (parent # ps) =
     (case parents (lower parent) of
        Some previous \<Rightarrow>
          if previous \<noteq> parent then Inl (CacheParentCasing previous parent)
          else parent_casing lower (parents(lower parent \<mapsto> parent)) ps
      | None \<Rightarrow> parent_casing lower (parents(lower parent \<mapsto> parent)) ps)"

fun caches_overlap :: "(string \<Rightarrow> string) \<Rightarrow> string list \<Rightarrow> string list \<Rightarrow> policy_error + unit" where
  "caches_overlap lower before [] = Inr ()"
| "caches_overlap lower before (a # as) =
     bind_res
       (each_ok (\<lambda>b. check_that (\<not> (beneath (lower a) (lower b) \<or> beneath (lower b) (lower a))) (CachesOverlap a b)) before)
       (\<lambda>_. caches_overlap lower (before @ [a]) as)"

definition ValidateCaches :: "(string \<Rightarrow> string) \<Rightarrow> cache_binding list \<Rightarrow> policy_error + unit" where
  "ValidateCaches lower caches =
     (if MaxCaches < length caches then Inl TooManyCaches
      else let paths = map cache_path caches
           in bind_res (validate_cache_names [] caches) (\<lambda>_.
              case ValidateArtifacts paths of
                Inl e \<Rightarrow> Inl (CachePaths e)
              | Inr _ \<Rightarrow>
                  bind_res (parent_casing lower (\<lambda>_. None) (concat (map parent_dirs paths))) (\<lambda>_.
                  caches_overlap lower [] paths)))"

definition InCache :: "string \<Rightarrow> cache_binding list \<Rightarrow> bool" where
  "InCache name caches = list_ex (\<lambda>cache. beneath name (cache_path cache)) caches"

definition Compile :: "(string \<Rightarrow> string) \<Rightarrow> selection_policy \<Rightarrow> policy_error + matcher" where
  "Compile lower policy =
     bind_res (ValidateCaches lower (Caches policy)) (\<lambda>_.
     bind_res (ValidateArtifacts (Artifacts policy)) (\<lambda>_.
     bind_res (validatePrefix (Prefix policy)) (\<lambda>_.
       if MaxPatterns < length (Ignore policy) then Inl TooManyPatterns
       else bind_res (compile_patterns 0 (Ignore policy)) (\<lambda>rules.
         Inr \<lparr>matcher_prefix = Prefix policy, matcher_rules = rules, matcher_caseFold = CaseFold policy\<rparr>))))"

subsection \<open>What validation gives\<close>

lemma artifact_exact_rel: "artifact_exact name \<Longrightarrow> rel_path name"
  by (auto simp: artifact_exact_def rel_path_def IsClean_fixed)

lemma validate_artifact_list_ok:
  assumes "validate_artifact_list tot seen names = Inr ()"
  shows "(\<forall>n \<in> set names. artifact_exact n \<and> \<not> artifact_reserved n \<and> length n \<le> MaxPatternBytes) \<and>
    distinct names \<and> set names \<inter> set seen = {} \<and>
    (names \<noteq> [] \<longrightarrow> tot + sum_list (map length names) \<le> MaxPolicyBytes)"
  using assms
proof (induction tot seen names rule: validate_artifact_list.induct)
  case (2 tot seen name names)
  then show ?case by (auto split: if_splits)
qed simp

lemma ValidateArtifacts_ok:
  assumes "is_ok (ValidateArtifacts paths)"
  shows "length paths \<le> MaxPatterns" "distinct paths" "sum_list (map length paths) \<le> MaxPolicyBytes"
    "\<And>n. n \<in> set paths \<Longrightarrow> artifact_exact n \<and> \<not> artifact_reserved n"
  using assms validate_artifact_list_ok [of 0 "[]" paths]
  by (cases "paths = []"; auto simp: ValidateArtifacts_def is_ok_unit split: if_splits)+

lemma caches_overlap_ok:
  assumes "caches_overlap lower before as = Inr ()"
  shows "\<forall>i < length as. \<forall>b \<in> set before \<union> set (take i as).
    \<not> beneath (lower (as ! i)) (lower b) \<and> \<not> beneath (lower b) (lower (as ! i))"
  using assms
proof (induction lower before as rule: caches_overlap.induct)
  case (2 lower before a as)
  let ?f = "\<lambda>b. check_that (\<not> (beneath (lower a) (lower b) \<or> beneath (lower b) (lower a))) (CachesOverlap a b)"
  have "is_ok (each_ok ?f before)" and rest: "caches_overlap lower (before @ [a]) as = Inr ()"
    using "2.prems" by (simp_all add: bind_res_Inr_iff is_ok_unit)
  then have now: "\<forall>b \<in> set before. \<not> beneath (lower a) (lower b) \<and> \<not> beneath (lower b) (lower a)"
    by simp
  show ?case
  proof (intro allI impI ballI)
    fix i b
    assume i: "i < length (a # as)" and b: "b \<in> set before \<union> set (take i (a # as))"
    show "\<not> beneath (lower ((a # as) ! i)) (lower b) \<and> \<not> beneath (lower b) (lower ((a # as) ! i))"
    proof (cases i)
      case 0
      with b now show ?thesis by simp
    next
      case (Suc j)
      with b have "b \<in> set (before @ [a]) \<union> set (take j as)" by auto
      moreover have "j < length as" using i Suc by simp
      ultimately show ?thesis using "2.IH" [OF rest] Suc by (metis nth_Cons_Suc)
    qed
  qed
qed simp

lemma beneath_comparable:
  assumes "beneath n a" "beneath n b"
  shows "beneath a b \<or> beneath b a"
proof -
  have pre: "beneath y x" if "prefix (x @ [slash]) n" "prefix (y @ [slash]) n" "length x \<le> length y" for x y
  proof -
    have "prefix (x @ [slash]) (y @ [slash])" by (rule prefix_length_prefix [OF that(1,2)]) (simp add: that(3))
    then show ?thesis by (cases "x = y") (auto simp: beneath_def has_prefix_def)
  qed
  show ?thesis
  proof (cases "prefix (a @ [slash]) n \<and> prefix (b @ [slash]) n")
    case True
    then show ?thesis using pre [of a b] pre [of b a] by (cases "length a \<le> length b") simp_all
  next
    case False
    then show ?thesis using assms by (auto simp: beneath_def has_prefix_def)
  qed
qed

lemma beneath_lower:
  assumes "\<And>x y. lower (x @ slash # y) = lower x @ slash # lower y" "beneath a b"
  shows "beneath (lower a) (lower b)"
  using assms by (auto simp: beneath_def has_prefix_def prefix_def)

lemma ValidateCaches_ok:
  assumes "is_ok (ValidateCaches lower caches)"
  shows "length caches \<le> MaxCaches" "is_ok (ValidateArtifacts (map cache_path caches))"
    "caches_overlap lower [] (map cache_path caches) = Inr ()"
  using assms
  by (auto simp: ValidateCaches_def Let_def is_ok_unit bind_res_Inr_iff split: if_splits sum.splits)

lemma compile_patterns_bounds:
  assumes "compile_patterns tot ps = Inr rules"
  shows "length rules \<le> length ps \<and> (ps \<noteq> [] \<longrightarrow> tot + sum_list (map length ps) \<le> MaxPolicyBytes) \<and>
    (\<forall>p \<in> set ps. length p \<le> MaxPatternBytes \<and> nul \<notin> set p)"
  using assms
proof (induction tot ps arbitrary: rules rule: compile_patterns.induct)
  case (2 tot p ps)
  then have c: "\<not> MaxPatternBytes < length p" "\<not> contains_any p [nul, CHR 0x0D, CHR 0x0A]"
    "\<not> int (length p) > int MaxPolicyBytes - int tot"
    by (auto split: if_splits)
  with "2.prems" obtain rs where rs: "compile_patterns (tot + length p) ps = Inr rs"
    "rules = (case compileRule p of None \<Rightarrow> rs | Some r \<Rightarrow> r # rs)"
    by (auto simp: bind_res_Inr_iff)
  have "length rules \<le> Suc (length rs)" using rs(2) by (simp split: option.splits)
  moreover have "nul \<notin> set p" using c(2) by (auto simp: contains_any_def list_ex_iff)
  ultimately show ?case using "2.IH" [OF c rs(1)] c by (cases ps) auto
qed simp

subsection \<open>Properties\<close>

text \<open>Artifact declarations that pass validation are bounded, distinct, exact workspace paths:
  clean and relative, inside the workspace, without Git metadata in any component, at most
  \<open>MaxPatterns\<close> of them and \<open>MaxPolicyBytes\<close> in all.\<close>

theorem ValidateArtifacts_sound:
  assumes "ValidateArtifacts paths = Inr ()"
  shows "length paths \<le> MaxPatterns \<and> sum_list (map length paths) \<le> MaxPolicyBytes \<and> distinct paths \<and>
    (\<forall>n \<in> set paths. rel_path n \<and> (\<forall>part \<in> set (split_on slash n). \<not> equal_fold part ''.git''))"
proof -
  from assms have ok: "is_ok (ValidateArtifacts paths)" by simp
  have "\<not> equal_fold part ''.git''" if n: "n \<in> set paths" and part: "part \<in> set (split_on slash n)" for n part
  proof -
    obtain i where "i < length (split_on slash n)" "split_on slash n ! i = part"
      using part by (auto simp: in_set_conv_nth)
    then have "(i, part) \<in> set (enumerate 0 (split_on slash n))" by (simp add: in_set_enumerate_eq)
    then show ?thesis
      using ValidateArtifacts_ok(4) [OF ok n] by (auto simp: artifact_reserved_def list_ex_iff)
  qed
  with ValidateArtifacts_ok [OF ok] artifact_exact_rel show ?thesis by blast
qed

lemmas decl_eval = ValidateArtifacts_def artifact_exact_def artifact_reserved_def artifact_bytes_def
  has_prefix_def path_clean_def contains_any_def equal_fold_def ascii_lower_def MaxPatterns_def
  MaxPatternBytes_def MaxPolicyBytes_def ValidateCaches_def MaxCaches_def cache_name_char_def
  parent_dirs.simps Dir_def beneath_def check_that_def Let_def

theorem ValidateArtifacts_sound_witness:
  "ValidateArtifacts [''dist/app'', ''report.txt''] = Inr () \<and> rel_path ''dist/app''"
proof -
  have "ValidateArtifacts [''dist/app'', ''report.txt''] = Inr ()"
    by (simp add: decl_eval)
  with ValidateArtifacts_sound [of "[''dist/app'', ''report.txt'']"] show ?thesis by simp
qed

text \<open>C35. Cache bindings that pass validation do not overlap: no path lies in two of them, on a
  file system that tells case apart and on one that does not. The folding maps the parts of
  a path between slashes separately.\<close>

theorem ValidateCaches_disjoint:
  assumes "ValidateCaches lower caches = Inr ()"
    and "\<And>x y. lower (x @ slash # y) = lower x @ slash # lower y"
    and "i < length caches" "j < length caches"
    and "beneath (lower name) (lower (cache_path (caches ! i)))"
    and "beneath (lower name) (lower (cache_path (caches ! j)))"
  shows "i = j"
proof (rule ccontr)
  assume "i \<noteq> j"
  let ?p = "map cache_path caches"
  have ov: "caches_overlap lower [] ?p = Inr ()" using assms(1) ValidateCaches_ok(3) [of lower caches] by simp
  have sep: "\<not> beneath (lower (?p ! k)) (lower (?p ! l)) \<and> \<not> beneath (lower (?p ! l)) (lower (?p ! k))"
    if "l < k" "k < length caches" for k l
  proof -
    have "?p ! l \<in> set (take k ?p)" using that by (auto simp: in_set_conv_nth intro!: exI [of _ l])
    then show ?thesis using caches_overlap_ok [OF ov] that by auto
  qed
  have "beneath (lower (?p ! i)) (lower (?p ! j)) \<or> beneath (lower (?p ! j)) (lower (?p ! i))"
    using beneath_comparable [OF assms(5,6)] assms(3,4) by simp
  with sep [of i j] sep [of j i] assms(3,4) \<open>i \<noteq> j\<close> show False by (cases "i < j") auto
qed

definition sample_caches :: "cache_binding list" where
  "sample_caches = [\<lparr>cache_name = ''go'', cache_path = ''.cache/go''\<rparr>,
                    \<lparr>cache_name = ''npm'', cache_path = ''.cache/npm''\<rparr>]"

lemma map_lower_slash: "map ascii_lower (x @ slash # y) = map ascii_lower x @ slash # map ascii_lower y"
  by (simp add: ascii_lower_def)

theorem ValidateCaches_disjoint_witness:
  "ValidateCaches (map ascii_lower) sample_caches = Inr () \<and>
   \<not> (beneath (map ascii_lower ''.cache/go/x'') (map ascii_lower (cache_path (sample_caches ! 1))))"
proof -
  have v: "ValidateCaches (map ascii_lower) sample_caches = Inr ()"
    by (simp add: sample_caches_def decl_eval)
  have l: "length sample_caches = 2" by (simp add: sample_caches_def)
  have b: "beneath (map ascii_lower ''.cache/go/x'') (map ascii_lower (cache_path (sample_caches ! 0)))"
    by code_simp
  have "\<not> beneath (map ascii_lower ''.cache/go/x'') (map ascii_lower (cache_path (sample_caches ! 1)))"
  proof
    assume "beneath (map ascii_lower ''.cache/go/x'') (map ascii_lower (cache_path (sample_caches ! 1)))"
    with ValidateCaches_disjoint [OF v map_lower_slash, of 0 1, OF _ _ b] l show False by simp
  qed
  with v show ?thesis by simp
qed

text \<open>A policy that compiles is within its bounds and has a safe prefix; the matcher never has
  more rules than the policy has patterns.\<close>

theorem Compile_sound:
  assumes "Compile lower policy = Inr m"
  shows "length (matcher_rules m) \<le> length (Ignore policy) \<and> length (Ignore policy) \<le> MaxPatterns \<and>
    sum_list (map length (Ignore policy)) \<le> MaxPolicyBytes \<and>
    (matcher_prefix m = '''' \<or> rel_path (matcher_prefix m)) \<and> matcher_prefix m = Prefix policy \<and>
    (\<forall>n \<in> set (Artifacts policy) \<union> cache_path ` set (Caches policy). rel_path n)"
proof -
  from assms obtain rules where c: "ValidateCaches lower (Caches policy) = Inr ()" and a: "ValidateArtifacts (Artifacts policy) = Inr ()"
    and p: "validatePrefix (Prefix policy) = Inr ()" and n: "length (Ignore policy) \<le> MaxPatterns"
    and r: "compile_patterns 0 (Ignore policy) = Inr rules"
    and m: "m = \<lparr>matcher_prefix = Prefix policy, matcher_rules = rules, matcher_caseFold = CaseFold policy\<rparr>"
    by (auto simp: Compile_def bind_res_Inr_iff split: if_splits)
  have "Prefix policy = '''' \<or> rel_path (Prefix policy)"
    using p by (auto simp: validatePrefix_def rel_path_def IsClean_fixed split: if_splits)
  moreover have "rel_path x" if "x \<in> set (Artifacts policy)" for x
    using ValidateArtifacts_ok(4) [of "Artifacts policy" x] a that artifact_exact_rel by simp
  moreover have "rel_path x" if "x \<in> cache_path ` set (Caches policy)" for x
    using ValidateArtifacts_ok(4) [OF ValidateCaches_ok(2), of lower "Caches policy" x] c that artifact_exact_rel by simp
  ultimately show ?thesis using compile_patterns_bounds [OF r] m n by (cases "Ignore policy = []") auto
qed

definition sample_policy :: selection_policy where
  "sample_policy = \<lparr>Caches = sample_caches, Artifacts = [''dist''], Prefix = ''pkg'',
     Ignore = [''# generated'', ''*.o'', ''!keep.o'', ''/build/''], CaseFold = False\<rparr>"

lemmas compile_eval = compileRule_def trimUnescapedTrailingSpaces.simps has_suffix_def suffix_def
  trim_prefix_def trim_suffix_def contains_str_def splitPattern_def count_trailing_def

theorem Compile_sound_witness:
  "\<exists>m. Compile (map ascii_lower) sample_policy = Inr m \<and> length (matcher_rules m) = 3 \<and> rel_path (matcher_prefix m)"
proof -
  have "is_ok (compile_patterns 0 (Ignore sample_policy))"
    "(case compile_patterns 0 (Ignore sample_policy) of Inl _ \<Rightarrow> 0 | Inr rs \<Rightarrow> length rs) = 3"
    by (simp_all add: sample_policy_def compile_eval decl_eval)
  then obtain rules where rules: "compile_patterns 0 (Ignore sample_policy) = Inr rules" "length rules = 3"
    by (auto simp: is_ok_iff)
  have ok: "ValidateCaches (map ascii_lower) (Caches sample_policy) = Inr ()"
    "ValidateArtifacts (Artifacts sample_policy) = Inr ()" "validatePrefix (Prefix sample_policy) = Inr ()"
    by (simp_all add: sample_policy_def sample_caches_def decl_eval validatePrefix_def)
  have len: "\<not> MaxPatterns < length (Ignore sample_policy)" by (simp add: MaxPatterns_def sample_policy_def)
  have m: "Compile (map ascii_lower) sample_policy = Inr \<lparr>matcher_prefix = Prefix sample_policy,
      matcher_rules = rules, matcher_caseFold = CaseFold sample_policy\<rparr>"
    by (simp add: Compile_def rules ok len)
  have "Prefix sample_policy \<noteq> ''''" by (simp add: sample_policy_def)
  with rules(2) m Compile_sound [OF m] show ?thesis by simp
qed

end
