(* ===== verification/Archive.thy ===== *)
theory Archive
  imports Relpath Proto
begin

text \<open>
  Package \<open>internal/archive\<close>, the validation half: manifest-level path safety before any
  byte is written (\<open>archive.go\<close>) and the names a Windows runner would read differently
  (\<open>windows_names.go\<close>). \<open>Validate\<close> builds a map of all paths; \<open>ValidateSortedContext\<close>
  relies on the order, looks parents up by binary search and remembers the ancestor
  chains it has checked. A context is the value of its \<open>Err\<close> method, constant during a
  call. The runtime platform is a record: whether \<open>runtime.GOOS\<close> is windows, and the
  Unicode upper-casing \<open>strings.ToUpper\<close>, which the theorems leave arbitrary.
\<close>

subsection \<open>Windows names\<close>

record platform =
  IsWindows :: bool
  ToUpper :: "string \<Rightarrow> string"

datatype archive_error =
    UnsafePath string
  | WindowsName string
  | NegativeSize string
  | InvalidSHA256 string
  | FileWithTarget string
  | DirectoryFields string
  | SymlinkFields string
  | NoEntryType string
  | UnsupportedType string
  | DuplicatePath string
  | PassesThrough string string
  | UnsafeTarget string
  | EscapesWorkspace string
  | NotSorted
  | ContextCanceled
  | WorkspaceExceeds
  | StreamError
  | NotInManifest string
  | DuplicateStreamEntry string
  | TypeMismatch string
  | ContentMismatchError string
  | UnsupportedTarType string
  | FileSystemError string
  | LinkTraversed string
  | ResolveError string
  | MissingFromStream string
  | CacheMiss nat

definition superscripts :: "string list" where
  "superscripts = [[CHR 0xC2, CHR 0xB9], [CHR 0xC2, CHR 0xB2], [CHR 0xC2, CHR 0xB3]]"

definition windows_forbidden :: string where
  "windows_forbidden = [CHR 0x5C, CHR 0x3A, CHR 0x2A, CHR 0x3F, CHR 0x22, CHR 0x3C, CHR 0x3E, CHR 0x7C]"

text \<open>The loop over the runes of the name looks for ASCII characters only, and a byte of a
  longer rune is never ASCII, so the model goes over the bytes. \<open>True\<close> is a problem.\<close>

definition windowsNameProblem :: "(string \<Rightarrow> string) \<Rightarrow> string \<Rightarrow> bool" where
  "windowsNameProblem to_upper name =
     (if \<exists>c \<in> set name. of_char c < (0x20 :: nat) \<or> c \<in> set windows_forbidden then True
      else if has_suffix name ''.'' \<or> has_suffix name '' '' then True
      else
        let upper = to_upper name;
            base = trim_right (takeWhile (\<lambda>c. c \<noteq> CHR ''.'') upper) '' ''
        in if base \<in> set [''CON'', ''PRN'', ''AUX'', ''NUL'', ''CONIN$'', ''CONOUT$''] then True
           else if length base \<ge> 4 \<and> (has_prefix base ''COM'' \<or> has_prefix base ''LPT'') \<and>
                   (let number = drop 3 base
                    in (length number = 1 \<and> CHR ''0'' \<le> hd number \<and> hd number \<le> CHR ''9'') \<or>
                       number \<in> set superscripts) then True
           else has_prefix upper ''GIT~'' \<and> trim_both (drop 4 upper) ''0123456789'' = '''' \<and>
                length upper > 4)"

definition checkWindowsPath :: "(string \<Rightarrow> string) \<Rightarrow> string \<Rightarrow> archive_error + unit" where
  "checkWindowsPath to_upper p =
     each_ok (\<lambda>component. check_that (\<not> windowsNameProblem to_upper component) (WindowsName p))
       (split_on slash p)"

definition checkPlatformPath :: "platform \<Rightarrow> string \<Rightarrow> archive_error + unit" where
  "checkPlatformPath os p = (if \<not> IsWindows os then Inr () else checkWindowsPath (ToUpper os) p)"

definition platformSymlinkTarget :: "platform \<Rightarrow> string \<Rightarrow> bool" where
  "platformSymlinkTarget os target \<longleftrightarrow> \<not> IsWindows os \<or> \<not> contains_any target [CHR 0x5C, CHR 0x3A]"

subsection \<open>Entries\<close>

definition hex_digit :: "char \<Rightarrow> bool" where
  "hex_digit c \<longleftrightarrow> (CHR ''0'' \<le> c \<and> c \<le> CHR ''9'') \<or> (CHR ''a'' \<le> c \<and> c \<le> CHR ''f'') \<or>
     (CHR ''A'' \<le> c \<and> c \<le> CHR ''F'')"

definition validateEntry :: "manifest_entry \<Rightarrow> archive_error + unit" where
  "validateEntry e =
     (if Type e = EntryFile then
        if Size e < 0 then Inl (NegativeSize (Path e))
        else if length (SHA256 e) \<noteq> 64 then Inl (InvalidSHA256 (Path e))
        else if \<not> list_all hex_digit (SHA256 e) then Inl (InvalidSHA256 (Path e))
        else if Target e \<noteq> '''' then Inl (FileWithTarget (Path e))
        else Inr ()
      else if Type e = EntryDir then
        if Size e \<noteq> 0 \<or> SHA256 e \<noteq> '''' \<or> Target e \<noteq> '''' then Inl (DirectoryFields (Path e))
        else Inr ()
      else if Type e = EntrySymlink then
        if Size e \<noteq> 0 \<or> SHA256 e \<noteq> '''' then Inl (SymlinkFields (Path e)) else Inr ()
      else if Type e = '''' then Inl (NoEntryType (Path e))
      else Inl (UnsupportedType (Path e)))"

definition checkRelPath :: "platform \<Rightarrow> string \<Rightarrow> archive_error + unit" where
  "checkRelPath os p =
     (if p = '''' \<or> has_prefix p ''/'' \<or> \<not> IsClean p \<or> p = ''..'' \<or> has_prefix p ''../'' \<or>
         nul \<in> set p then Inl (UnsafePath p)
      else checkPlatformPath os p)"

definition checkSymlinkTarget :: "platform \<Rightarrow> string \<Rightarrow> string \<Rightarrow> archive_error + unit" where
  "checkSymlinkTarget os link target =
     (if target = '''' \<or> has_prefix target ''/'' \<or> \<not> platformSymlinkTarget os target then
        Inl (UnsafeTarget link)
      else
        let resolved = path_clean (path_join (path_dir link) target)
        in if resolved = ''..'' \<or> has_prefix resolved ''../'' then Inl (EscapesWorkspace link)
           else Inr ())"

definition check_link :: "platform \<Rightarrow> manifest_entry \<Rightarrow> archive_error + unit" where
  "check_link os e =
     (if Type e = EntrySymlink then checkSymlinkTarget os (Path e) (Target e) else Inr ())"

definition ValidateEntry :: "platform \<Rightarrow> manifest_entry \<Rightarrow> archive_error + unit" where
  "ValidateEntry os e =
     bind_res (checkRelPath os (Path e)) (\<lambda>_. bind_res (validateEntry e) (\<lambda>_. check_link os e))"

subsection \<open>Whole manifests\<close>

text \<open>The first loop of \<open>ValidateContext\<close>, which fills the map \<open>seen\<close> from path to type.\<close>

fun validate_seen ::
  "platform \<Rightarrow> (string \<rightharpoonup> string) \<Rightarrow> manifest_entry list \<Rightarrow> archive_error + (string \<rightharpoonup> string)" where
  "validate_seen os seen [] = Inr seen"
| "validate_seen os seen (e # es) =
     bind_res (checkRelPath os (Path e)) (\<lambda>_.
     bind_res (validateEntry e) (\<lambda>_.
       if seen (Path e) \<noteq> None then Inl (DuplicatePath (Path e))
       else validate_seen os (seen(Path e \<mapsto> Type e)) es))"

text \<open>One round of the second loop: the explicit ancestors must be directories. Every path
  has passed \<open>checkRelPath\<close> by then, so \<open>path.Dir\<close> is \<open>Dir\<close> all the way up.\<close>

definition check_parents :: "(string \<rightharpoonup> string) \<Rightarrow> manifest_entry \<Rightarrow> archive_error + unit" where
  "check_parents seen e =
     each_ok (\<lambda>dir. case seen dir of
                      None \<Rightarrow> Inr ()
                    | Some parentType \<Rightarrow>
                        check_that (parentType = EntryDir) (PassesThrough (Path e) dir))
       (parent_dirs (Path e))"

definition ValidateContext ::
  "platform \<Rightarrow> archive_error option \<Rightarrow> manifest \<Rightarrow> archive_error + unit" where
  "ValidateContext os ctx m =
     (case ctx of
        Some err \<Rightarrow> Inl err
      | None \<Rightarrow>
          bind_res (validate_seen os Map.empty (slice (Entries m))) (\<lambda>seen.
            each_ok (\<lambda>e. bind_res (check_parents seen e) (\<lambda>_. check_link os e)) (slice (Entries m))))"

definition Validate :: "platform \<Rightarrow> manifest \<Rightarrow> archive_error + unit" where
  "Validate os m = ValidateContext os None m"

text \<open>The ancestor loop of \<open>ValidateSortedContext\<close>: \<open>es\<close> are all entries, \<open>i\<close> the index of
  the current one, \<open>dirs\<close> the ancestors still to visit (nearest first), \<open>parents\<close> the
  ancestors already checked.\<close>

fun sorted_parents ::
  "manifest_entry list \<Rightarrow> nat \<Rightarrow> string list \<Rightarrow> string list \<Rightarrow> archive_error + string list" where
  "sorted_parents es i [] parents = Inr parents"
| "sorted_parents es i (parent # dirs) parents =
     (if parent \<in> set parents then Inr parents
      else
        let j = sort_search i (\<lambda>j. Path (es ! j) \<ge> parent)
        in if j < i \<and> Path (es ! j) = parent \<and> Type (es ! j) \<noteq> EntryDir
           then Inl (PassesThrough (Path (es ! i)) parent)
           else sorted_parents es i dirs (parent # parents))"

text \<open>The loop over the entries from index \<open>i\<close>; \<open>todo\<close> is \<open>es[i:]\<close>.\<close>

fun sorted_loop ::
  "platform \<Rightarrow> manifest_entry list \<Rightarrow> nat \<Rightarrow> string list \<Rightarrow> manifest_entry list \<Rightarrow> archive_error + unit" where
  "sorted_loop os es i parents [] = Inr ()"
| "sorted_loop os es i parents (e # todo) =
     (if i > 0 \<and> Path (es ! (i - 1)) \<ge> Path e then Inl NotSorted
      else
        bind_res (checkRelPath os (Path e)) (\<lambda>_.
        bind_res (validateEntry e) (\<lambda>_.
        bind_res (check_link os e) (\<lambda>_.
        bind_res (sorted_parents es i (parent_dirs (Path e)) parents) (\<lambda>parents'.
          sorted_loop os es (i + 1) parents' todo)))))"

definition ValidateSortedContext ::
  "platform \<Rightarrow> archive_error option \<Rightarrow> manifest \<Rightarrow> archive_error + unit" where
  "ValidateSortedContext os ctx m =
     (case ctx of
        Some err \<Rightarrow> Inl err
      | None \<Rightarrow> sorted_loop os (slice (Entries m)) 0 [] (slice (Entries m)))"

subsection \<open>What validation establishes\<close>

text \<open>The contract, without maps, indices or caches.\<close>

definition entry_ok :: "platform \<Rightarrow> manifest_entry \<Rightarrow> bool" where
  "entry_ok os e \<longleftrightarrow>
     is_ok (checkRelPath os (Path e)) \<and> is_ok (validateEntry e) \<and> is_ok (check_link os e)"

definition manifest_ok :: "platform \<Rightarrow> manifest_entry list \<Rightarrow> bool" where
  "manifest_ok os es \<longleftrightarrow>
     (\<forall>e \<in> set es. entry_ok os e) \<and> distinct (map Path es) \<and>
     (\<forall>e \<in> set es. \<forall>d \<in> set es. Path d \<in> set (parent_dirs (Path e)) \<longrightarrow> Type d = EntryDir)"

lemma validate_seen_Inr:
  "validate_seen os seen es = Inr seen' \<longleftrightarrow>
     (\<forall>e \<in> set es. is_ok (checkRelPath os (Path e)) \<and> is_ok (validateEntry e)) \<and>
     distinct (map Path es) \<and> (\<forall>e \<in> set es. seen (Path e) = None) \<and>
     seen' = seen ++ map_of (map (\<lambda>e. (Path e, Type e)) es)"
proof (induction es arbitrary: seen)
  case (Cons e es)
  let ?m = "map_of (map (\<lambda>e. (Path e, Type e)) es)"
  have "seen(Path e \<mapsto> Type e) ++ ?m = seen ++ ?m(Path e \<mapsto> Type e)" if "Path e \<notin> Path ` set es"
    using that by (subst map_add_upd_left) (auto simp: dom_map_of_conv_image_fst image_image)
  moreover have "(\<forall>x \<in> set es. (seen(Path e \<mapsto> Type e)) (Path x) = None) \<longleftrightarrow>
      Path e \<notin> Path ` set es \<and> (\<forall>x \<in> set es. seen (Path x) = None)"
    by (auto simp: image_iff)
  ultimately show ?case
    by (auto simp: bind_res_Inr_iff is_ok_unit Cons.IH simp del: fun_upd_apply)
qed auto

lemma check_parents_ok:
  "distinct (map Path es) \<Longrightarrow>
   is_ok (check_parents (map_of (map (\<lambda>e. (Path e, Type e)) es)) e) \<longleftrightarrow>
     (\<forall>d \<in> set es. Path d \<in> set (parent_dirs (Path e)) \<longrightarrow> Type d = EntryDir)"
proof -
  assume "distinct (map Path es)"
  then have "map_of (map (\<lambda>e. (Path e, Type e)) es) q = Some t \<longleftrightarrow>
      (\<exists>d \<in> set es. Path d = q \<and> Type d = t)" for q t
    by (subst map_of_eq_Some_iff) (auto simp: comp_def)
  then show ?thesis
    by (fastforce simp: check_parents_def split: option.splits)
qed

lemma Validate_manifest_ok: "is_ok (Validate os m) \<longleftrightarrow> manifest_ok os (slice (Entries m))"
  by (auto simp: Validate_def ValidateContext_def validate_seen_Inr check_parents_ok
      manifest_ok_def entry_ok_def is_ok_unit [symmetric])

lemma checkRelPath_rel:
  assumes "is_ok (checkRelPath os p)"
  shows "rel_path p \<or> p = ''.''"
  using assms by (auto simp: checkRelPath_def rel_path_def split: if_splits)

lemma parent_dirs_dot [simp]: "parent_dirs ''.'' = []"
  by (simp add: parent_dirs.simps Dir_def)

lemma parent_dirs_Cons:
  assumes "rel_path p" "parent_dirs p = q # dirs"
  shows "rel_path q" "dirs = parent_dirs q" "length q < length p"
proof -
  show "rel_path q" "length q < length p"
    using assms parent_dirs_rel parent_dirs_shorter by (metis list.set_intros(1))+
  show "dirs = parent_dirs q"
    using assms(2) by (auto simp: parent_dirs.simps [of p] Let_def split: if_splits)
qed

subsection \<open>The sorted validator\<close>

definition dir_before :: "manifest_entry list \<Rightarrow> nat \<Rightarrow> string \<Rightarrow> bool" where
  "dir_before es i q \<longleftrightarrow> (\<forall>d \<in> set (take i es). Path d = q \<longrightarrow> Type d = EntryDir)"

text \<open>The cache holds ancestors of entries seen so far, is closed upwards and has only
  directories.\<close>

definition cache_ok :: "manifest_entry list \<Rightarrow> nat \<Rightarrow> string list \<Rightarrow> bool" where
  "cache_ok es i parents \<longleftrightarrow>
     (\<forall>q \<in> set parents. dir_before es i q \<and> set (parent_dirs q) \<subseteq> set parents \<and>
        (\<exists>e \<in> set (take i es). q < Path e))"

lemma search_dir_before:
  assumes "sorted_wrt (<) (map Path (take i es))" "i \<le> length es"
  shows "(let j = sort_search i (\<lambda>j. Path (es ! j) \<ge> q)
          in j < i \<and> Path (es ! j) = q \<and> Type (es ! j) \<noteq> EntryDir) \<longleftrightarrow> \<not> dir_before es i q"
proof -
  let ?j = "sort_search i (\<lambda>j. Path (es ! j) \<ge> q)"
  note key = sort_search_key(4) [OF assms, of q]
  have inj: "inj_on Path (set (take i es))"
    using assms by (simp add: strict_sorted_iff distinct_map)
  have at: "es ! ?j \<in> set (take i es)" if "?j < i"
    using that assms(2) by (auto simp: in_set_conv_nth)
  have "\<not> dir_before es i q \<longleftrightarrow> (\<exists>d \<in> set (take i es). Path d = q \<and> Type d \<noteq> EntryDir)"
    by (auto simp: dir_before_def)
  also have "\<dots> \<longleftrightarrow> ?j < i \<and> Path (es ! ?j) = q \<and> Type (es ! ?j) \<noteq> EntryDir"
  proof
    assume "\<exists>d \<in> set (take i es). Path d = q \<and> Type d \<noteq> EntryDir"
    then obtain d where d: "d \<in> set (take i es)" "Path d = q" "Type d \<noteq> EntryDir" by blast
    then have j: "?j < i \<and> Path (es ! ?j) = q" using key by blast
    then have "es ! ?j = d" using inj_onD [OF inj _ at d(1)] d(2) by simp
    with j d show "?j < i \<and> Path (es ! ?j) = q \<and> Type (es ! ?j) \<noteq> EntryDir" by simp
  qed (use at in blast)
  finally show ?thesis by (simp add: Let_def)
qed

lemma sorted_parents_spec:
  assumes "sorted_wrt (<) (map Path (take i es))" "i \<le> length es" "cache_ok es i old"
    and "dirs = [] \<or> (\<exists>q. dirs = q # parent_dirs q \<and> rel_path q)"
    and "set new \<inter> set dirs = {}" "\<forall>q \<in> set new. dir_before es i q"
  shows "if \<forall>q \<in> set dirs. dir_before es i q
         then \<exists>parents. sorted_parents es i dirs (new @ old) = Inr parents \<and>
                set parents = set new \<union> set old \<union> set dirs
         else \<not> is_ok (sorted_parents es i dirs (new @ old))"
  using assms(4-6)
proof (induction dirs arbitrary: new)
  case (Cons q dirs)
  then have q: "dirs = parent_dirs q" "rel_path q" by auto
  have chain: "dirs = [] \<or> (\<exists>q. dirs = q # parent_dirs q \<and> rel_path q)"
    using parent_dirs_Cons(1,2) [OF q(2)] unfolding q(1) by (metis neq_Nil_conv)
  show ?case
  proof (cases "q \<in> set (new @ old)")
    case True
    then have "q \<in> set old" using Cons.prems by auto
    then have sub: "set (q # dirs) \<subseteq> set old" using assms(3) q(1) by (simp add: cache_ok_def)
    then have "\<forall>x \<in> set (q # dirs). dir_before es i x" using assms(3) by (auto simp: cache_ok_def)
    moreover have "sorted_parents es i (q # dirs) (new @ old) = Inr (new @ old)" using True by simp
    moreover have "set (new @ old) = set new \<union> set old \<union> set (q # dirs)" using sub by auto
    ultimately show ?thesis by (subst if_P) blast+
  next
    case False
    note search = search_dir_before [OF assms(1,2), of q]
    show ?thesis
    proof (cases "dir_before es i q")
      case good: True
      have "q \<notin> set dirs" using parent_dirs_shorter [OF q(2)] q(1) by blast
      then have "set (q # new) \<inter> set dirs = {}" "\<forall>x \<in> set (q # new). dir_before es i x"
        using Cons.prems(2,3) good by auto
      note IH = Cons.IH [OF chain this]
      have step: "sorted_parents es i (q # dirs) (new @ old) = sorted_parents es i dirs ((q # new) @ old)"
        using False good search by (auto simp: Let_def)
      show ?thesis
      proof (cases "\<forall>x \<in> set dirs. dir_before es i x")
        case all: True
        from IH all obtain parents where "sorted_parents es i dirs ((q # new) @ old) = Inr parents"
          "set parents = set (q # new) \<union> set old \<union> set dirs" by auto
        then show ?thesis unfolding step using all good by auto
      next
        case some: False
        with IH have "\<not> is_ok (sorted_parents es i dirs ((q # new) @ old))" by simp
        then show ?thesis unfolding step using some by auto
      qed
    next
      case bad: False
      then show ?thesis using False search by (auto simp: Let_def)
    qed
  qed
qed simp

lemma parents_of_ok_path:
  assumes "is_ok (checkRelPath os p)" "q \<in> set (parent_dirs p)"
  shows "q < p" "rel_path q" "set (parent_dirs q) \<subseteq> set (parent_dirs p)"
proof -
  have "rel_path p" using checkRelPath_rel [OF assms(1)] assms(2) by auto
  then show "q < p" "rel_path q" "set (parent_dirs q) \<subseteq> set (parent_dirs p)"
    using assms(2) parent_dirs_less parent_dirs_rel in_parent_dirs_trans by blast+
qed

lemma sorted_parents_of:
  assumes "sorted_wrt (<) (map Path (take i es))" "i \<le> length es" "cache_ok es i parents"
    and "is_ok (checkRelPath os p)"
  shows "if \<forall>q \<in> set (parent_dirs p). dir_before es i q
         then \<exists>parents'. sorted_parents es i (parent_dirs p) parents = Inr parents' \<and>
                set parents' = set parents \<union> set (parent_dirs p)
         else \<not> is_ok (sorted_parents es i (parent_dirs p) parents)"
proof -
  have "parent_dirs p = [] \<or> (\<exists>q. parent_dirs p = q # parent_dirs q \<and> rel_path q)"
    using checkRelPath_rel [OF assms(4)] parent_dirs_Cons(1,2) by (metis neq_Nil_conv parent_dirs_dot)
  from sorted_parents_spec [OF assms(1-3) this, of "[]"] show ?thesis by (auto split: if_splits)
qed

lemma cache_ok_step:
  assumes "cache_ok es i parents" "sorted_wrt (<) (map Path (take (Suc i) es))" "i < length es"
    and "is_ok (checkRelPath os (Path (es ! i)))"
    and "\<forall>q \<in> set (parent_dirs (Path (es ! i))). dir_before es i q"
    and "set parents' = set parents \<union> set (parent_dirs (Path (es ! i)))"
  shows "cache_ok es (Suc i) parents'"
proof -
  have take: "set (take (Suc i) es) = insert (es ! i) (set (take i es))"
    using assms(3) by (simp add: take_Suc_conv_app_nth)
  have below: "Path e < Path (es ! i)" if "e \<in> set (take i es)" for e
    using that assms(2,3) by (auto simp: take_Suc_conv_app_nth sorted_wrt_append)
  have keep: "dir_before es (Suc i) q" if "dir_before es i q" "q < Path (es ! i)" for q
    using that by (auto simp: dir_before_def take)
  have "dir_before es (Suc i) q \<and> set (parent_dirs q) \<subseteq> set parents' \<and> (\<exists>e \<in> set (take (Suc i) es). q < Path e)"
    if "q \<in> set parents'" for q
  proof (cases "q \<in> set parents")
    case True
    then obtain e where e: "e \<in> set (take i es)" "q < Path e" "dir_before es i q" "set (parent_dirs q) \<subseteq> set parents"
      using assms(1) by (auto simp: cache_ok_def)
    then have "q < Path (es ! i)" using below by fastforce
    with e keep show ?thesis by (auto simp: assms(6) take)
  next
    case False
    then have "q \<in> set (parent_dirs (Path (es ! i)))" using that assms(6) by simp
    with parents_of_ok_path [OF assms(4) this] assms(5) keep show ?thesis by (auto simp: assms(6) take)
  qed
  then show ?thesis by (simp add: cache_ok_def)
qed

lemma order_step:
  assumes "sorted_wrt (<) (map Path (take i es))" "i < length es"
  shows "i > 0 \<and> Path (es ! (i - 1)) \<ge> Path (es ! i) \<longleftrightarrow> \<not> sorted_wrt (<) (map Path (take (Suc i) es))"
proof (cases i)
  case (Suc k)
  have le: "Path d \<le> Path (es ! k)" if d: "d \<in> set (take i es)" for d
  proof -
    obtain j where "j \<le> k" "d = es ! j" using d Suc by (auto simp: in_set_conv_nth less_Suc_eq_le)
    then show ?thesis
      using sorted_wrt_nth_less [OF assms(1), of j k] Suc assms(2) by (cases "j = k") (auto simp: less_imp_le)
  qed
  have "es ! k \<in> set (take i es)" using Suc assms(2) by (auto simp: in_set_conv_nth)
  then have "(\<forall>d \<in> set (take i es). Path d < Path (es ! i)) \<longleftrightarrow> Path (es ! k) < Path (es ! i)"
    using le by (meson le_less_trans)
  moreover have "sorted_wrt (<) (map Path (take (Suc i) es)) \<longleftrightarrow> (\<forall>d \<in> set (take i es). Path d < Path (es ! i))"
    using assms by (auto simp: take_Suc_conv_app_nth sorted_wrt_append)
  ultimately show ?thesis using Suc by (metis diff_Suc_1 not_le zero_less_Suc)
qed (use assms in \<open>simp add: take_Suc_conv_app_nth\<close>)

lemma dir_before_all:
  assumes "sorted_wrt (<) (map Path es)" "i < length es" "is_ok (checkRelPath os (Path (es ! i)))"
  shows "(\<forall>q \<in> set (parent_dirs (Path (es ! i))). dir_before es i q) \<longleftrightarrow>
    (\<forall>d \<in> set es. Path d \<in> set (parent_dirs (Path (es ! i))) \<longrightarrow> Type d = EntryDir)"
proof -
  have "d \<in> set (take i es)" if d: "d \<in> set es" "Path d < Path (es ! i)" for d
  proof -
    obtain j where j: "j < length es" "d = es ! j" using d(1) by (auto simp: in_set_conv_nth)
    then have "j < i"
      using sorted_wrt_nth_less [OF assms(1), of i j] d(2) by (cases i j rule: linorder_cases) auto
    then show ?thesis using j assms(2) by (auto simp: in_set_conv_nth)
  qed
  then show ?thesis
    using parents_of_ok_path(1) [OF assms(3)] in_set_takeD unfolding dir_before_def by metis
qed

lemma sorted_loop_spec:
  assumes "drop i es = todo" "i \<le> length es" "sorted_wrt (<) (map Path (take i es))" "cache_ok es i parents"
  shows "is_ok (sorted_loop os es i parents todo) \<longleftrightarrow>
    sorted_wrt (<) (map Path es) \<and> (\<forall>e \<in> set todo. entry_ok os e) \<and>
    (\<forall>e \<in> set todo. \<forall>d \<in> set es. Path d \<in> set (parent_dirs (Path e)) \<longrightarrow> Type d = EntryDir)"
  using assms
proof (induction todo arbitrary: i parents)
  case (Cons e todo)
  have i: "i < length es" "es ! i = e" "drop (Suc i) es = todo"
    using Cons.prems(1) by (metis drop_all list.distinct(1) not_le, metis nth_via_drop,
        metis drop_Suc list.sel(3) tl_drop)
  note order = order_step [OF Cons.prems(3) i(1), unfolded i(2)]
  show ?case
  proof (cases "sorted_wrt (<) (map Path (take (Suc i) es)) \<and> entry_ok os e")
    case False
    then have "\<not> is_ok (sorted_loop os es i parents (e # todo))"
      using order by (auto simp: entry_ok_def)
    moreover have "\<not> (sorted_wrt (<) (map Path es) \<and> entry_ok os e)"
      using False sorted_wrt_take [of "(<)" "map Path es" "Suc i"] by (auto simp: take_map)
    ultimately show ?thesis by auto
  next
    case True
    then have rel: "is_ok (checkRelPath os (Path e))" by (simp add: entry_ok_def)
    have step: "is_ok (sorted_loop os es i parents (e # todo)) \<longleftrightarrow>
        is_ok (bind_res (sorted_parents es i (parent_dirs (Path e)) parents)
          (\<lambda>parents'. sorted_loop os es (Suc i) parents' todo))"
      using True order by (auto simp: entry_ok_def is_ok_unit)
    note parents = sorted_parents_of [OF Cons.prems(3,2,4) rel]
    note all = dir_before_all [of es i os, OF _ i(1), unfolded i(2), OF _ rel]
    show ?thesis
    proof (cases "\<forall>q \<in> set (parent_dirs (Path e)). dir_before es i q")
      case good: True
      then obtain parents' where ps: "sorted_parents es i (parent_dirs (Path e)) parents = Inr parents'"
        "set parents' = set parents \<union> set (parent_dirs (Path e))" using parents by auto
      have "cache_ok es (Suc i) parents'"
        using cache_ok_step [OF Cons.prems(4) _ i(1), unfolded i(2), OF _ rel good ps(2)] True by simp
      with Cons.IH [OF i(3)] i(1) True have "is_ok (sorted_loop os es (Suc i) parents' todo) \<longleftrightarrow>
          sorted_wrt (<) (map Path es) \<and> (\<forall>e \<in> set todo. entry_ok os e) \<and>
          (\<forall>e \<in> set todo. \<forall>d \<in> set es. Path d \<in> set (parent_dirs (Path e)) \<longrightarrow> Type d = EntryDir)"
        by simp
      then show ?thesis unfolding step ps(1) using good all True by auto
    next
      case bad: False
      then have "\<not> is_ok (sorted_parents es i (parent_dirs (Path e)) parents)" using parents by simp
      then have "\<not> is_ok (sorted_loop os es i parents (e # todo))" unfolding step by (auto simp: is_ok_iff bind_res_Inr_iff)
      then show ?thesis using bad all by auto
    qed
  qed
qed auto

lemma ValidateSorted_manifest_ok:
  "is_ok (ValidateSortedContext os None m) \<longleftrightarrow>
     sorted_wrt (<) (map Path (slice (Entries m))) \<and> manifest_ok os (slice (Entries m))"
proof -
  let ?es = "slice (Entries m)"
  have "is_ok (ValidateSortedContext os None m) \<longleftrightarrow> sorted_wrt (<) (map Path ?es) \<and>
      (\<forall>e \<in> set ?es. entry_ok os e) \<and>
      (\<forall>e \<in> set ?es. \<forall>d \<in> set ?es. Path d \<in> set (parent_dirs (Path e)) \<longrightarrow> Type d = EntryDir)"
    using sorted_loop_spec [of 0 ?es ?es "[]" os] by (simp add: ValidateSortedContext_def cache_ok_def)
  then show ?thesis by (auto simp: manifest_ok_def strict_sorted_iff)
qed

subsection \<open>Symlink containment\<close>

text \<open>Following a target element by element from a directory at the given depth below the
  workspace root, without ever stepping above the root.\<close>

fun walk_inside :: "nat \<Rightarrow> string list \<Rightarrow> bool" where
  "walk_inside depth [] = True"
| "walk_inside depth (e # es) =
     (if e = '''' \<or> e = ''.'' then walk_inside depth es
      else if e = ''..'' then (case depth of 0 \<Rightarrow> False | Suc d \<Rightarrow> walk_inside d es)
      else walk_inside (Suc depth) es)"

lemma clean_elems_escaped:
  "out \<noteq> [] \<Longrightarrow> last out = ''..'' \<Longrightarrow>
     clean_elems False out es \<noteq> [] \<and> hd (clean_elems False out es) = ''..''"
proof (induction es arbitrary: out)
  case Nil
  then show ?case by (simp add: hd_rev)
next
  case (Cons e es)
  have "tl out \<noteq> [] \<and> last (tl out) = ''..''" if "hd out \<noteq> ''..''"
    using that Cons.prems by (cases out) (auto split: if_splits)
  then show ?case using Cons by auto
qed

lemma clean_elems_walk:
  "''..'' \<notin> set out \<Longrightarrow>
     (if walk_inside (length out) es then ''..'' \<notin> set (clean_elems False out es)
      else clean_elems False out es \<noteq> [] \<and> hd (clean_elems False out es) = ''..'')"
proof (induction es arbitrary: out)
  case (Cons e es)
  show ?case
  proof (cases "e = ''..''")
    case True
    show ?thesis
    proof (cases out)
      case Nil
      then show ?thesis using True clean_elems_escaped [of "[''..'']" es] by simp
    next
      case (Cons x out')
      then show ?thesis using True Cons.IH [of out'] Cons.prems by auto
    qed
  next
    case False
    then show ?thesis using Cons.IH [of out] Cons.IH [of "e # out"] Cons.prems by auto
  qed
qed simp

lemma path_clean_relative:
  assumes "s \<noteq> ''''" "hd s \<noteq> slash"
  defines "es \<equiv> clean_elems False [] (split_on slash s)"
  shows "path_clean s = (if es = [] then ''.'' else join_with slash es)"
    "es \<noteq> [] \<Longrightarrow> split_on slash (join_with slash es) = es" "path_clean (path_clean s) = path_clean s"
proof -
  have cl: "clean_list True es" using clean_elems_clean [of False "[]"] by (simp add: es_def)
  have plain: "\<forall>e \<in> set es. slash \<notin> set e"
    using clean_elems_subset [of False "[]" "split_on slash s"] split_on_no_sep by (auto simp: es_def)
  have nonempty: "join_with slash es \<noteq> ''''" if "es \<noteq> []"
    using that clean_list_nonempty_elems [OF cl] by (auto simp: join_with_eq_Nil)
  show eq: "path_clean s = (if es = [] then ''.'' else join_with slash es)"
    using assms nonempty by (auto simp: path_clean_def Let_def)
  show sp: "split_on slash (join_with slash es) = es" if "es \<noteq> []"
    using split_join [OF that plain] .
  show "path_clean (path_clean s) = path_clean s"
  proof (cases "es = []")
    case True
    then show ?thesis by (simp add: eq path_clean_specials)
  next
    case False
    have ne: "join_with slash es \<noteq> ''''" by (rule nonempty [OF False])
    have "hd (join_with slash es) \<noteq> slash"
    proof
      assume "hd (join_with slash es) = slash"
      then obtain t where "join_with slash es = [] @ slash # t" using ne by (cases "join_with slash es") auto
      then have "[] \<in> set es" using sp [OF False] split_on_append [of slash "[]" t] by auto
      then show False using clean_list_nonempty_elems [OF cl] by blast
    qed
    moreover have "clean_elems False [] es = es" using clean_elems_id [OF cl, of False "[]"] by simp
    ultimately show ?thesis using False ne sp [OF False] by (simp add: eq path_clean_def [of "join_with slash es"] Let_def)
  qed
qed

lemma clean_elems_plain_prefix:
  "\<forall>e \<in> set ds. plain_elem e \<Longrightarrow> clean_elems False out (ds @ es) = clean_elems False (rev ds @ out) es"
  by (induction ds arbitrary: out) (auto simp: plain_elem_def)

lemma starts_with_dotdot:
  assumes "es \<noteq> []" "split_on slash (join_with slash es) = es"
  shows "join_with slash es = ''..'' \<or> has_prefix (join_with slash es) ''../'' \<longleftrightarrow> hd es = ''..''"
proof
  assume "join_with slash es = ''..'' \<or> has_prefix (join_with slash es) ''../''"
  then show "hd es = ''..''"
  proof
    assume "join_with slash es = ''..''"
    then have "split_on slash (join_with slash es) = [''..'']" by simp
    then show ?thesis using assms(2) by simp
  next
    assume "has_prefix (join_with slash es) ''../''"
    then obtain t where "join_with slash es = ''..'' @ slash # t" by (auto simp: has_prefix_def prefix_def)
    then show ?thesis using assms(2) split_on_append [of slash "''..''" t] by auto
  qed
next
  assume "hd es = ''..''"
  then show "join_with slash es = ''..'' \<or> has_prefix (join_with slash es) ''../''"
    using assms(1) by (cases es; cases "tl es") (auto simp: has_prefix_def)
qed

lemma link_dir_elems:
  assumes "rel_path link" "target \<noteq> ''''" "\<not> has_prefix target ''/''"
  shows "\<exists>ds s. path_join (path_dir link) target = path_clean s \<and> s \<noteq> '''' \<and> hd s \<noteq> slash \<and>
    (\<forall>e \<in> set ds. plain_elem e) \<and> length ds = length (parent_dirs link) \<and>
    clean_elems False [] (split_on slash s) = clean_elems False (rev ds) (split_on slash target)"
proof -
  obtain es where es: "es \<noteq> []" "\<forall>e \<in> set es. plain_elem e" "link = join_with slash es"
    using assms(1) by (rule rel_pathE)
  let ?ds = "butlast es"
  have ds: "\<forall>e \<in> set ?ds. plain_elem e" using es(2) by (meson in_set_butlastD)
  have split: "es = ?ds @ [last es]" using es(1) by simp
  have "IsClean link" using assms(1) by (simp add: rel_path_def)
  then have dir: "path_dir link = (if ?ds = [] then ''.'' else join_with slash ?ds)"
    using Dir_path_dir Dir_join_snoc [OF ds, of "last es"] es by (metis last_in_set split)
  have len: "length ?ds = length (parent_dirs link)" using parent_dirs_join [OF es(1,2)] es(3) by simp
  let ?s = "path_dir link @ slash # target"
  have dir_ne: "path_dir link \<noteq> '''' \<and> hd (path_dir link) \<noteq> slash"
  proof (cases "?ds = []")
    case False
    then show ?thesis using rel_path_join [OF False ds] dir
      by (cases "join_with slash ?ds") (auto simp: rel_path_def has_prefix_def)
  qed (simp add: dir)
  have "split_on slash ?s = split_on slash (path_dir link) @ split_on slash target"
    by (rule split_on_append_any)
  then have "clean_elems False [] (split_on slash ?s) = clean_elems False (rev ?ds) (split_on slash target)"
  proof (cases "?ds = []")
    case False
    have "split_on slash (join_with slash ?ds) = ?ds"
      using split_join [OF False] ds by (auto simp: plain_elem_def)
    then show ?thesis using False dir clean_elems_plain_prefix [OF ds, of "[]"] by (simp add: split_on_append_any)
  qed (simp add: dir)
  moreover have "path_join (path_dir link) target = path_clean ?s"
    using assms(2) dir_ne by (simp add: path_join_def)
  ultimately show ?thesis using ds len dir_ne by (intro exI [of _ ?ds] exI [of _ ?s]) auto
qed

lemma link_dir_root:
  assumes "target \<noteq> ''''" "\<not> has_prefix target ''/''"
  shows "\<exists>ds s. path_join (path_dir ''.'') target = path_clean s \<and> s \<noteq> '''' \<and> hd s \<noteq> slash \<and>
    (\<forall>e \<in> set ds. plain_elem e) \<and> length ds = length (parent_dirs ''.'') \<and>
    clean_elems False [] (split_on slash s) = clean_elems False (rev ds) (split_on slash target)"
proof -
  have dir: "path_dir ''.'' = ''.''" by code_simp
  have "split_on slash (''.'' @ slash # target) = [''.''] @ split_on slash target" using split_on_append_any [of slash "''.''" target] by simp
  then show ?thesis
    using assms by (intro exI [of _ "[]"] exI [of _ "''.'' @ slash # target"]) (simp add: dir path_join_def)
qed

lemma checkSymlinkTarget_walk:
  assumes "rel_path link \<or> link = ''.''"
  shows "is_ok (checkSymlinkTarget os link target) \<longleftrightarrow>
    target \<noteq> '''' \<and> \<not> has_prefix target ''/'' \<and> platformSymlinkTarget os target \<and>
    walk_inside (length (parent_dirs link)) (split_on slash target)"
proof (cases "target \<noteq> '''' \<and> \<not> has_prefix target ''/''")
  case True
  then obtain ds s where s: "path_join (path_dir link) target = path_clean s" "s \<noteq> ''''" "hd s \<noteq> slash"
    "\<forall>e \<in> set ds. plain_elem e" "length ds = length (parent_dirs link)"
    "clean_elems False [] (split_on slash s) = clean_elems False (rev ds) (split_on slash target)"
    using link_dir_elems [of link target] link_dir_root [of target] assms by metis
  let ?es = "clean_elems False [] (split_on slash s)"
  have resolved: "path_clean (path_join (path_dir link) target) = (if ?es = [] then ''.'' else join_with slash ?es)"
    using path_clean_relative [OF s(2,3)] s(1) by simp
  have "''..'' \<notin> set (rev ds)" using s(4) by (auto simp: plain_elem_def)
  from clean_elems_walk [OF this, of "split_on slash target"] s(5,6)
  have "walk_inside (length (parent_dirs link)) (split_on slash target) \<longleftrightarrow> ?es = [] \<or> hd ?es \<noteq> ''..''"
    by (auto split: if_splits) (metis hd_in_set)
  also have "\<dots> \<longleftrightarrow> \<not> (path_clean (path_join (path_dir link) target) = ''..'' \<or>
      has_prefix (path_clean (path_join (path_dir link) target)) ''../'')"
    using starts_with_dotdot [OF _ path_clean_relative(2) [OF s(2,3)]]
    by (auto simp: resolved has_prefix_def)
  finally show ?thesis using True by (simp add: checkSymlinkTarget_def Let_def)
qed (auto simp: checkSymlinkTarget_def)

lemma rel_path_not_dot: "rel_path p \<Longrightarrow> \<not> prefix ''./'' p"
proof
  assume p: "rel_path p" "prefix ''./'' p"
  then obtain es where es: "es \<noteq> []" "\<forall>e \<in> set es. plain_elem e" "p = join_with slash es" by (metis rel_pathE)
  then have split: "split_on slash p = es" using split_join [of es slash] by (auto simp: plain_elem_def)
  obtain t where "p = ''.'' @ slash # t" using p(2) by (auto simp: prefix_def)
  then have "''.'' \<in> set (split_on slash p)" using split_on_append_any [of slash "''.''" t] by simp
  then show False using split es(2) by (auto simp: plain_elem_def)
qed

subsection \<open>Properties\<close>

text \<open>C3. The sorted validator decides the same as the general one: \<open>ValidateSortedContext\<close>,
  with its binary search for parents and its cache of checked ancestors, accepts a
  manifest exactly when the paths are strictly increasing and \<open>Validate\<close> accepts it.\<close>

theorem ValidateSorted_iff_Validate:
  "is_ok (ValidateSortedContext os None m) \<longleftrightarrow>
     sorted_wrt (<) (map Path (slice (Entries m))) \<and> is_ok (Validate os m)"
  by (simp add: ValidateSorted_manifest_ok Validate_manifest_ok)

text \<open>C5. A manifest that passes \<open>Validate\<close> is safe to write: its paths are distinct; each is
  a clean path inside the workspace (or \<open>.\<close>, the workspace itself) without a NUL byte; an entry
  whose path is a directory prefix of another's is a directory, so nothing is routed through a
  listed file or symlink; and a symlink's target, read element by element from the link's
  directory, never climbs above the workspace root. The last is about the text of the
  target: other links on its way are not followed (see \<open>chained_links_leave\<close>).\<close>

theorem Validate_safe:
  assumes "is_ok (Validate os m)"
  shows "distinct (map Path (slice (Entries m))) \<and>
    (\<forall>e \<in> set (slice (Entries m)).
       (rel_path (Path e) \<or> Path e = ''.'') \<and> nul \<notin> set (Path e) \<and>
       (\<forall>d \<in> set (slice (Entries m)). prefix (Path d @ ''/'') (Path e) \<longrightarrow> Type d = EntryDir) \<and>
       (Type e = EntrySymlink \<longrightarrow> walk_inside (length (parent_dirs (Path e))) (split_on slash (Target e))))"
proof (intro conjI ballI impI)
  have ok: "manifest_ok os (slice (Entries m))" using assms by (simp add: Validate_manifest_ok)
  then show "distinct (map Path (slice (Entries m)))" by (simp add: manifest_ok_def)
  have paths: "rel_path (Path e) \<or> Path e = ''.''" if "e \<in> set (slice (Entries m))" for e
    using that ok checkRelPath_rel by (auto simp: manifest_ok_def entry_ok_def)
  fix e assume e: "e \<in> set (slice (Entries m))"
  have rel: "is_ok (checkRelPath os (Path e))" using e ok by (simp add: manifest_ok_def entry_ok_def)
  show path: "rel_path (Path e) \<or> Path e = ''.''" by (rule paths [OF e])
  show "nul \<notin> set (Path e)" using rel by (auto simp: checkRelPath_def split: if_splits)
  show "Type d = EntryDir" if d: "d \<in> set (slice (Entries m))" "prefix (Path d @ ''/'') (Path e)" for d
  proof -
    have "slash \<in> set (Path e)" using d(2) by (auto simp: prefix_def)
    then have "rel_path (Path e)" using path by auto
    moreover from this have "rel_path (Path d)" using paths [OF d(1)] d(2) rel_path_not_dot by auto
    ultimately show ?thesis using d e ok by (auto simp: manifest_ok_def in_parent_dirs_iff)
  qed
  show "walk_inside (length (parent_dirs (Path e))) (split_on slash (Target e))" if "Type e = EntrySymlink"
    using that e ok checkSymlinkTarget_walk [OF path] by (auto simp: manifest_ok_def entry_ok_def check_link_def)
qed

definition unix :: platform where
  "unix = \<lparr>IsWindows = False, ToUpper = id\<rparr>"

definition sample_tree :: manifest where
  "sample_tree = \<lparr>Entries = Some
     [\<lparr>Path = ''a'', Type = EntryDir, Mode = 0x1ED, Size = 0, SHA256 = '''', Target = ''''\<rparr>,
      \<lparr>Path = ''a/l'', Type = EntrySymlink, Mode = 0x1FF, Size = 0, SHA256 = '''', Target = ''../b''\<rparr>]\<rparr>"

text \<open>Resolution as the operating system does it: \<open>stack\<close> is the directory reached, innermost
  element first, and \<open>None\<close> is leaving the workspace.\<close>

fun follow_links :: "nat \<Rightarrow> manifest_entry list \<Rightarrow> string list \<Rightarrow> string list \<Rightarrow> string list option" where
  "follow_links 0 es stack elems = Some stack"
| "follow_links (Suc n) es stack [] = Some stack"
| "follow_links (Suc n) es stack (x # xs) =
     (if x = '''' \<or> x = ''.'' then follow_links n es stack xs
      else if x = ''..'' then (case stack of [] \<Rightarrow> None | _ # up \<Rightarrow> follow_links n es up xs)
      else case find (\<lambda>e. Path e = join_with slash (rev (x # stack)) \<and> Type e = EntrySymlink) es of
             Some e \<Rightarrow> follow_links n es stack (split_on slash (Target e) @ xs)
           | None \<Rightarrow> follow_links n es (x # stack) xs)"

definition chained_links :: manifest where
  "chained_links = \<lparr>Entries = Some
     [\<lparr>Path = ''d'', Type = EntryDir, Mode = 0x1ED, Size = 0, SHA256 = '''', Target = ''''\<rparr>,
      \<lparr>Path = ''d/s'', Type = EntrySymlink, Mode = 0x1FF, Size = 0, SHA256 = '''', Target = ''..''\<rparr>,
      \<lparr>Path = ''t'', Type = EntrySymlink, Mode = 0x1FF, Size = 0, SHA256 = '''', Target = ''d/s/../x''\<rparr>]\<rparr>"

lemma chained_links_leave:
  "is_ok (Validate unix chained_links) \<and> follow_links 20 (slice (Entries chained_links)) [] [''t''] = None"
  by code_simp

theorem Validate_safe_witness:
  "is_ok (Validate unix sample_tree) \<and>
   distinct (map Path (slice (Entries sample_tree))) \<and>
   (let d = slice (Entries sample_tree) ! 0; e = slice (Entries sample_tree) ! 1
    in nul \<notin> set (Path e) \<and> Type d = EntryDir \<and>
       walk_inside (length (parent_dirs (Path e))) (split_on slash (Target e)))"
proof -
  have ok: "is_ok (Validate unix sample_tree)" by code_simp
  let ?d = "slice (Entries sample_tree) ! 0" and ?e = "slice (Entries sample_tree) ! 1"
  have mem: "?d \<in> set (slice (Entries sample_tree))" "?e \<in> set (slice (Entries sample_tree))"
    by (simp_all add: sample_tree_def)
  have rel: "prefix (Path ?d @ ''/'') (Path ?e)" "Type ?e = EntrySymlink"
    by code_simp+
  note safe = Validate_safe [OF ok]
  from safe mem(2) have "nul \<notin> set (Path ?e)" by blast
  moreover from safe mem rel(1) have "Type ?d = EntryDir" by blast
  moreover from safe mem(2) rel(2)
  have "walk_inside (length (parent_dirs (Path ?e))) (split_on slash (Target ?e))" by blast
  ultimately show ?thesis unfolding Let_def using ok safe by blast
qed

text \<open>C10. The lexical test on the cleaned path is a statement about every step of the way:
  a link's target is accepted exactly when it is a non-empty relative path the platform
  reads as such, and following it element by element from the link's directory never goes
  above the workspace root.\<close>

theorem checkSymlinkTarget_never_leaves:
  assumes "rel_path link"
  shows "is_ok (checkSymlinkTarget os link target) \<longleftrightarrow>
    target \<noteq> '''' \<and> \<not> has_prefix target ''/'' \<and> platformSymlinkTarget os target \<and>
    walk_inside (length (parent_dirs link)) (split_on slash target)"
  using assms by (intro checkSymlinkTarget_walk) simp

theorem checkSymlinkTarget_never_leaves_witness:
  "rel_path ''d/l'' \<and> is_ok (checkSymlinkTarget unix ''d/l'' ''../x'') \<and>
   \<not> is_ok (checkSymlinkTarget unix ''d/l'' ''../../d/x'')"
proof -
  have r: "rel_path ''d/l''" by code_simp
  show ?thesis
    unfolding checkSymlinkTarget_never_leaves [OF r] using r
    by (intro conjI) code_simp+
qed

end
