(* ===== verification/Extract.thy ===== *)
theory Extract
  imports Archive
begin

unbundle bit_operations_syntax

text \<open>
  Package \<open>internal/archive\<close>, the extraction half: \<open>ExtractWith\<close> writes a tar stream into a
  fresh directory. The destination is a map from relative path to node, with the
  directory itself at \<open>.\<close>; the operations of package \<open>os\<close> the source calls are modelled on
  it (as an unprivileged owner sees them on Unix), and they report the one thing that
  must never happen, a path resolved through a symbolic link, as the error
  \<open>LinkTraversed\<close>. Every operation returns the file system it leaves behind also when it
  fails. Device failures are not modelled. The stream is a list of headers with bodies,
  SHA-256 a parameter. \<open>opts.ResolveMissing\<close> is a callback with a state of its own; its
  contract is the locale \<open>blob_resolver\<close>, which the snapshot cache interprets.
\<close>

subsection \<open>The file system\<close>

datatype fs_node =
    FFile bytes "32 word"
  | FDir "32 word"
  | FLink string

type_synonym fs = "string \<rightharpoonup> fs_node"
type_synonym 'a fs_res = "fs \<times> (archive_error + 'a)"

definition then_fs :: "'a fs_res \<Rightarrow> ('a \<Rightarrow> fs \<Rightarrow> 'b fs_res) \<Rightarrow> 'b fs_res" where
  "then_fs r k = (case r of (fs, Inl e) \<Rightarrow> (fs, Inl e) | (fs, Inr a) \<Rightarrow> k a fs)"

text \<open>\<open>os.FileMode(mode)\<close> as the kernel gets it: the permission bits and the set-uid, set-gid
  and sticky bits, which Go keeps at positions 23, 22 and 20.\<close>

definition syscallMode :: "32 word \<Rightarrow> 32 word" where
  "syscallMode mode =
     (mode AND 0x1FF) OR (if bit mode 23 then 0x800 else 0) OR
     (if bit mode 22 then 0x400 else 0) OR (if bit mode 20 then 0x200 else 0)"

definition searchable :: "32 word \<Rightarrow> bool" where
  "searchable mode \<longleftrightarrow> bit mode 6"

text \<open>Path resolution up to, but not including, the last element.\<close>

definition reach :: "string \<Rightarrow> fs \<Rightarrow> archive_error + unit" where
  "reach p fs =
     each_ok (\<lambda>d. case fs d of
                    Some (FDir mode) \<Rightarrow> check_that (searchable mode) (FileSystemError d)
                  | Some (FLink _) \<Rightarrow> Inl (LinkTraversed d)
                  | _ \<Rightarrow> Inl (FileSystemError d))
       (rev (parent_dirs p))"

text \<open>\<open>os.MkdirAll\<close>: missing directories are created from the top, each with the given
  permissions less the umask; an existing directory is left as it is.\<close>

fun mkdir_chain :: "32 word \<Rightarrow> string list \<Rightarrow> fs \<Rightarrow> unit fs_res" where
  "mkdir_chain mode [] fs = (fs, Inr ())"
| "mkdir_chain mode (d # ds) fs =
     (case fs d of
        None \<Rightarrow> mkdir_chain mode ds (fs(d \<mapsto> FDir mode))
      | Some (FDir old) \<Rightarrow>
          if ds = [] \<or> searchable old then mkdir_chain mode ds fs else (fs, Inl (FileSystemError d))
      | Some (FLink _) \<Rightarrow> (fs, Inl (LinkTraversed d))
      | Some (FFile _ _) \<Rightarrow> (fs, Inl (FileSystemError d)))"

definition MkdirAll :: "32 word \<Rightarrow> string \<Rightarrow> 32 word \<Rightarrow> fs \<Rightarrow> unit fs_res" where
  "MkdirAll umask p perm fs =
     (if p = ''.'' then (fs, Inr ())
      else mkdir_chain (syscallMode perm AND NOT umask) (rev (parent_dirs p) @ [p]) fs)"

text \<open>A new node at a path that must not exist: \<open>os.OpenFile\<close> with \<open>O_CREATE|O_EXCL\<close>, and
  \<open>os.Symlink\<close>.\<close>

definition create_node :: "string \<Rightarrow> fs_node \<Rightarrow> fs \<Rightarrow> unit fs_res" where
  "create_node p node fs =
     (case reach p fs of
        Inl e \<Rightarrow> (fs, Inl e)
      | Inr _ \<Rightarrow> (case fs p of
                    Some _ \<Rightarrow> (fs, Inl (FileSystemError p))
                  | None \<Rightarrow> (fs(p \<mapsto> node), Inr ())))"

definition Chmod :: "string \<Rightarrow> 32 word \<Rightarrow> fs \<Rightarrow> unit fs_res" where
  "Chmod p mode fs =
     (case reach p fs of
        Inl e \<Rightarrow> (fs, Inl e)
      | Inr _ \<Rightarrow> (case fs p of
                    Some (FDir _) \<Rightarrow> (fs(p \<mapsto> FDir (syscallMode mode)), Inr ())
                  | Some (FFile b _) \<Rightarrow> (fs(p \<mapsto> FFile b (syscallMode mode)), Inr ())
                  | Some (FLink _) \<Rightarrow> (fs, Inl (LinkTraversed p))
                  | None \<Rightarrow> (fs, Inl (FileSystemError p))))"

text \<open>\<open>io.Copy\<close> from an \<open>io.LimitReader\<close> of \<open>size+1\<close> bytes: the bytes copied, and whether the
  reader failed before the limit. At \<open>MaxInt64\<close> the sum wraps below zero and nothing is
  read.\<close>

definition copy_limited :: "int \<Rightarrow> bytes \<Rightarrow> bool \<Rightarrow> bytes \<times> bool" where
  "copy_limited n body truncated =
     (if n = MaxInt64 then ([], False)
      else (take (nat (n + 1)) body, truncated \<and> length body < nat (n + 1)))"

subsection \<open>Streams\<close>

datatype tar_type = TypeDir | TypeReg | TypeSymlink | OtherTarType

record tar_header =
  hdr_name :: string
  Typeflag :: tar_type
  Linkname :: string

text \<open>What \<open>tr.Next\<close> and the reads after it give: a header with the body (which may break
  off), or an error. The end of the list is \<open>io.EOF\<close>.\<close>

datatype tar_event =
    TarEntry tar_header bytes bool
  | TarFailure

subsection \<open>\<open>ExtractWith\<close>\<close>

fun workspace_budget :: "int \<Rightarrow> int \<Rightarrow> manifest_entry list \<Rightarrow> archive_error + int" where
  "workspace_budget maxBytes workspaceBytes [] = Inr workspaceBytes"
| "workspace_budget maxBytes workspaceBytes (e # es) =
     (if Type e = EntryFile then
        if maxBytes < 0 \<or> Size e > maxBytes - workspaceBytes then Inl WorkspaceExceeds
        else workspace_budget maxBytes (workspaceBytes + Size e) es
      else workspace_budget maxBytes workspaceBytes es)"

definition extract_file ::
  "(bytes \<Rightarrow> string) \<Rightarrow> 32 word \<Rightarrow> manifest_entry \<Rightarrow> bytes \<Rightarrow> bool \<Rightarrow> fs \<Rightarrow> unit fs_res" where
  "extract_file sha256hex umask e body truncated fs0 =
     then_fs (MkdirAll umask (Dir (Path e)) 0x1ED fs0) (\<lambda>_ fs1.
     let created = syscallMode (Mode e) AND NOT umask in
     then_fs (create_node (Path e) (FFile [] created) fs1) (\<lambda>_ fs2.
       case copy_limited (Size e) body truncated of
         (data, failed) \<Rightarrow>
           if failed then (fs2(Path e \<mapsto> FFile data created), Inl StreamError)
           else if int (length data) \<noteq> Size e \<or> sha256hex data \<noteq> SHA256 e then
             (fs2(Path e \<mapsto> FFile data created), Inl (ContentMismatchError (Path e)))
           else (fs2(Path e \<mapsto> FFile data (syscallMode (Mode e))), Inr ())))"

definition extract_entry ::
  "(bytes \<Rightarrow> string) \<Rightarrow> 32 word \<Rightarrow> manifest_entry \<Rightarrow> tar_header \<Rightarrow> bytes \<Rightarrow> bool \<Rightarrow> fs \<Rightarrow> unit fs_res" where
  "extract_entry sha256hex umask e hdr body truncated fs =
     (case Typeflag hdr of
        TypeDir \<Rightarrow>
          if Type e \<noteq> EntryDir then (fs, Inl (TypeMismatch (Path e)))
          else MkdirAll umask (Path e) (Mode e OR 0x1C0) fs
      | TypeReg \<Rightarrow>
          if Type e \<noteq> EntryFile then (fs, Inl (TypeMismatch (Path e)))
          else extract_file sha256hex umask e body truncated fs
      | TypeSymlink \<Rightarrow>
          if Type e \<noteq> EntrySymlink \<or> Linkname hdr \<noteq> Target e then (fs, Inl (TypeMismatch (Path e)))
          else (fs, Inr ())
      | OtherTarType \<Rightarrow> (fs, Inl (UnsupportedTarType (Path e))))"

text \<open>The loop over the stream; the result is the map \<open>written\<close>.\<close>

fun extract_stream ::
  "(bytes \<Rightarrow> string) \<Rightarrow> 32 word \<Rightarrow> (string \<rightharpoonup> manifest_entry) \<Rightarrow> string list \<Rightarrow> tar_event list \<Rightarrow> fs \<Rightarrow>
     string list fs_res" where
  "extract_stream sha256hex umask byPath written [] fs = (fs, Inr written)"
| "extract_stream sha256hex umask byPath written (TarFailure # stream) fs = (fs, Inl StreamError)"
| "extract_stream sha256hex umask byPath written (TarEntry hdr body truncated # stream) fs =
     (let name = trim_suffix (hdr_name hdr) ''/''
      in case byPath name of
           None \<Rightarrow> (fs, Inl (NotInManifest (hdr_name hdr)))
         | Some e \<Rightarrow>
             if name \<in> set written then (fs, Inl (DuplicateStreamEntry name))
             else then_fs (extract_entry sha256hex umask e hdr body truncated fs)
                    (\<lambda>_ fs'. extract_stream sha256hex umask byPath (name # written) stream fs'))"

type_synonym 'c resolver = "'c \<Rightarrow> string \<Rightarrow> manifest_entry \<Rightarrow> fs \<Rightarrow> 'c \<times> bool fs_res"

text \<open>The pass over the entries the stream did not have; the result is \<open>cacheMisses\<close>.\<close>

fun extract_missing ::
  "'c resolver option \<Rightarrow> string list \<Rightarrow> string list \<Rightarrow> manifest_entry list \<Rightarrow> 'c \<Rightarrow> fs \<Rightarrow>
     'c \<times> string list fs_res" where
  "extract_missing resolve written misses [] c fs = (c, fs, Inr misses)"
| "extract_missing resolve written misses (e # es) c fs =
     (if Path e \<in> set written then extract_missing resolve written misses es c fs
      else case (if Type e = EntryFile then resolve else None) of
             None \<Rightarrow> (c, fs, Inl (MissingFromStream (Path e)))
           | Some f \<Rightarrow>
               (case f c (Path e) e fs of
                  (c', fs', Inl err) \<Rightarrow> (c', fs', Inl err)
                | (c', fs', Inr True) \<Rightarrow> extract_missing resolve written misses es c' fs'
                | (c', fs', Inr False) \<Rightarrow> extract_missing resolve written (misses @ [Path e]) es c' fs'))"

text \<open>Symlinks last: no file write can traverse one of them. (\<open>fslink.NativeTypes\<close> is false
  off Windows.)\<close>

fun extract_links :: "32 word \<Rightarrow> manifest_entry list \<Rightarrow> fs \<Rightarrow> unit fs_res" where
  "extract_links umask [] fs = (fs, Inr ())"
| "extract_links umask (e # es) fs =
     (if Type e \<noteq> EntrySymlink then extract_links umask es fs
      else then_fs (MkdirAll umask (Dir (Path e)) 0x1ED fs) (\<lambda>_ fs1.
           then_fs (create_node (Path e) (FLink (Target e)) fs1) (\<lambda>_ fs2.
             extract_links umask es fs2)))"

fun chmod_dirs :: "manifest_entry list \<Rightarrow> fs \<Rightarrow> unit fs_res" where
  "chmod_dirs [] fs = (fs, Inr ())"
| "chmod_dirs (e # es) fs = then_fs (Chmod (Path e) (Mode e) fs) (\<lambda>_ fs'. chmod_dirs es fs')"

text \<open>\<open>sort.Slice\<close> by falling number of slashes; among equals the model keeps the order.\<close>

definition deepest_first :: "manifest_entry list \<Rightarrow> manifest_entry list" where
  "deepest_first es =
     sort_key (\<lambda>e. - int (count_char slash (Path e))) (filter (\<lambda>e. Type e = EntryDir) es)"

definition finish_extract ::
  "32 word \<Rightarrow> manifest_entry list \<Rightarrow> 'c \<times> string list fs_res \<Rightarrow> 'c \<times> unit fs_res" where
  "finish_extract umask es r =
     (case r of (c, r') \<Rightarrow>
        (c, then_fs r' (\<lambda>misses fs.
              if misses \<noteq> [] then (fs, Inl (CacheMiss (length misses)))
              else then_fs (extract_links umask es fs) (\<lambda>_ fs'. chmod_dirs (deepest_first es) fs'))))"

definition ExtractWith ::
  "platform \<Rightarrow> (bytes \<Rightarrow> string) \<Rightarrow> 32 word \<Rightarrow> tar_event list \<Rightarrow> manifest \<Rightarrow> int \<Rightarrow> 'c resolver option \<Rightarrow>
     'c \<Rightarrow> fs \<Rightarrow> 'c \<times> unit fs_res" where
  "ExtractWith os sha256hex umask stream m maxBytes resolve c fs =
     (let es = slice (Entries m)
      in case bind_res (Validate os m) (\<lambda>_. workspace_budget maxBytes 0 es) of
           Inl err \<Rightarrow> (c, fs, Inl err)
         | Inr _ \<Rightarrow>
             (case extract_stream sha256hex umask (map_of (map (\<lambda>e. (Path e, e)) es)) [] stream fs of
                (fs', Inl err) \<Rightarrow> (c, fs', Inl err)
              | (fs', Inr written) \<Rightarrow>
                  finish_extract umask es (extract_missing resolve written [] es c fs')))"

definition Extract_all ::
  "platform \<Rightarrow> (bytes \<Rightarrow> string) \<Rightarrow> 32 word \<Rightarrow> tar_event list \<Rightarrow> manifest \<Rightarrow> int \<Rightarrow> fs \<Rightarrow> unit fs_res" where
  "Extract_all os sha256hex umask stream m maxBytes fs =
     snd (ExtractWith os sha256hex umask stream m maxBytes None () fs)"

text \<open>The fresh, errand-owned directory extraction starts from.\<close>

definition fresh_dir :: fs where
  "fresh_dir = [''.'' \<mapsto> FDir 0x1C0]"

subsection \<open>Confinement\<close>

text \<open>What may stand at a path while a manifest is being extracted: an entry of it, of its
  own type, or a directory on the way to one.\<close>

definition node_allowed :: "manifest_entry list \<Rightarrow> string \<Rightarrow> fs_node \<Rightarrow> bool" where
  "node_allowed es q node =
     (case node of
        FFile _ _ \<Rightarrow> \<exists>e \<in> set es. Path e = q \<and> Type e = EntryFile
      | FLink target \<Rightarrow> \<exists>e \<in> set es. Path e = q \<and> Type e = EntrySymlink \<and> target = Target e
      | FDir _ \<Rightarrow> q = ''.'' \<or> (\<exists>e \<in> set es. q \<in> set (parent_dirs (Path e)) \<or> (Path e = q \<and> Type e = EntryDir)))"

definition within :: "manifest_entry list \<Rightarrow> fs \<Rightarrow> bool" where
  "within es fs \<longleftrightarrow> (\<forall>q node. fs q = Some node \<longrightarrow> node_allowed es q node)"

text \<open>Nothing is removed or overwritten; a directory stays a directory.\<close>

definition grows :: "fs \<Rightarrow> fs \<Rightarrow> bool" where
  "grows fs fs' \<longleftrightarrow>
     (\<forall>q node. fs q = Some node \<longrightarrow>
        (case node of FDir _ \<Rightarrow> (\<exists>m. fs' q = Some (FDir m)) | _ \<Rightarrow> fs' q = Some node))"

text \<open>The contract of one operation started in \<open>fs\<close>: whatever its outcome, it stays within
  the manifest, only adds, and never goes through a link.\<close>

definition confined :: "manifest_entry list \<Rightarrow> fs \<Rightarrow> 'a fs_res \<Rightarrow> bool" where
  "confined es fs r \<longleftrightarrow>
     within es (fst r) \<and> grows fs (fst r) \<and> (\<forall>q. snd r \<noteq> Inl (LinkTraversed q))"

definition dirable :: "manifest_entry list \<Rightarrow> string \<Rightarrow> bool" where
  "dirable es d \<longleftrightarrow> (\<exists>e \<in> set es. d \<in> set (parent_dirs (Path e)) \<or> (Path e = d \<and> Type e = EntryDir))"

lemma grows_refl [simp]: "grows fs fs"
  by (auto simp: grows_def split: fs_node.split)

lemma grows_trans: "grows a b \<Longrightarrow> grows b c \<Longrightarrow> grows a c"
  unfolding grows_def
proof (intro allI impI)
  fix q node
  assume ab: "\<forall>q node. a q = Some node \<longrightarrow> (case node of FDir _ \<Rightarrow> \<exists>m. b q = Some (FDir m) | _ \<Rightarrow> b q = Some node)"
    and bc: "\<forall>q node. b q = Some node \<longrightarrow> (case node of FDir _ \<Rightarrow> \<exists>m. c q = Some (FDir m) | _ \<Rightarrow> c q = Some node)"
    and q: "a q = Some node"
  from ab q have "case node of FDir _ \<Rightarrow> \<exists>m. b q = Some (FDir m) | _ \<Rightarrow> b q = Some node" by blast
  with bc show "case node of FDir _ \<Rightarrow> \<exists>m. c q = Some (FDir m) | _ \<Rightarrow> c q = Some node"
    by (cases node) fastforce+
qed

lemma grows_dir: "grows fs fs' \<Longrightarrow> fs q = Some (FDir m) \<Longrightarrow> \<exists>m'. fs' q = Some (FDir m')"
  by (force simp: grows_def)

lemma grows_file: "grows fs fs' \<Longrightarrow> fs q = Some (FFile b m) \<Longrightarrow> fs' q = Some (FFile b m)"
  by (force simp: grows_def)

lemma grows_link: "grows fs fs' \<Longrightarrow> fs q = Some (FLink t) \<Longrightarrow> fs' q = Some (FLink t)"
  by (force simp: grows_def)

lemma grows_new: "fs q = None \<Longrightarrow> grows fs (fs(q \<mapsto> node))"
  by (auto simp: grows_def split: fs_node.split)

lemma grows_chmod_dir: "fs q = Some (FDir m) \<Longrightarrow> grows fs (fs(q \<mapsto> FDir m'))"
  by (auto simp: grows_def split: fs_node.split)

lemma within_upd: "within es fs \<Longrightarrow> node_allowed es q node \<Longrightarrow> within es (fs(q \<mapsto> node))"
  by (simp add: within_def)

lemma confined_now [simp]:
  "confined es fs (fs, Inr a) \<longleftrightarrow> within es fs"
  "confined es fs (fs, Inl e) \<longleftrightarrow> within es fs \<and> (\<forall>q. e \<noteq> LinkTraversed q)"
  by (simp_all add: confined_def)

lemma confined_within: "confined es fs r \<Longrightarrow> within es (fst r)"
  by (simp add: confined_def)

lemma confined_then:
  assumes "confined es fs r" "\<And>a fs'. r = (fs', Inr a) \<Longrightarrow> within es fs' \<Longrightarrow> grows fs fs' \<Longrightarrow> confined es fs' (k a fs')"
  shows "confined es fs (then_fs r k)"
proof (cases r)
  case (Pair fs' x)
  show ?thesis
  proof (cases x)
    case (Inr a)
    with Pair assms(1) have fs': "within es fs'" "grows fs fs'" by (simp_all add: confined_def)
    from assms(2) [OF _ this] Pair Inr have "confined es fs' (k a fs')" by simp
    then show ?thesis
      using Pair Inr fs'(2) grows_trans by (auto simp: confined_def then_fs_def)
  qed (use Pair assms(1) in \<open>simp add: confined_def then_fs_def\<close>)
qed

lemma confined_step: "confined es fs' r \<Longrightarrow> grows fs fs' \<Longrightarrow> confined es fs r"
  by (auto simp: confined_def intro: grows_trans)

lemma dirable_allowed: "dirable es d \<Longrightarrow> node_allowed es d (FDir m)"
  by (auto simp: dirable_def node_allowed_def)

lemma dirable_node:
  assumes "manifest_ok os es" "within es fs" "dirable es d" "fs d = Some node"
  obtains m where "node = FDir m"
proof -
  have dir: "Type e' = EntryDir" if "e' \<in> set es" "Path e' = d" for e'
  proof -
    from assms(3) obtain e where e: "e \<in> set es" "d \<in> set (parent_dirs (Path e)) \<or> (Path e = d \<and> Type e = EntryDir)"
      by (auto simp: dirable_def)
    then show ?thesis
      using that assms(1) unfolding manifest_ok_def distinct_map by (metis inj_onD)
  qed
  have "node_allowed es d node" using assms(2,4) by (simp add: within_def)
  then show ?thesis
    using that dir by (cases node) (auto simp: node_allowed_def)
qed

lemma mkdir_chain_confined:
  assumes "manifest_ok os es" "\<forall>d \<in> set ds. dirable es d" "within es fs"
  shows "confined es fs (mkdir_chain mode ds fs)"
  using assms(2,3)
proof (induction ds arbitrary: fs)
  case (Cons d ds)
  show ?case
  proof (cases "fs d")
    case None
    have "confined es (fs(d \<mapsto> FDir mode)) (mkdir_chain mode ds (fs(d \<mapsto> FDir mode)))"
      using Cons.prems dirable_allowed by (intro Cons.IH within_upd) auto
    then have "confined es fs (mkdir_chain mode ds (fs(d \<mapsto> FDir mode)))"
      by (rule confined_step) (rule grows_new [of fs d, OF None])
    then show ?thesis using None by simp
  next
    case (Some node)
    have "dirable es d" using Cons.prems(1) by simp
    from dirable_node [OF assms(1) Cons.prems(2) this Some] obtain m where "node = FDir m" .
    then show ?thesis using Some Cons.IH [of fs] Cons.prems by simp
  qed
qed simp

lemma mkdir_chain_dirs:
  "mkdir_chain mode ds fs = (fs', Inr u) \<Longrightarrow> grows fs fs' \<and> (\<forall>d \<in> set ds. \<exists>m. fs' d = Some (FDir m))"
proof (induction ds arbitrary: fs)
  case (Cons d ds)
  show ?case
  proof (cases "fs d")
    case None
    then have "mkdir_chain mode ds (fs(d \<mapsto> FDir mode)) = (fs', Inr u)" using Cons.prems by simp
    from Cons.IH [OF this]
    have tail: "grows (fs(d \<mapsto> FDir mode)) fs'" "\<forall>d \<in> set ds. \<exists>m. fs' d = Some (FDir m)" by blast+
    then have "\<exists>m. fs' d = Some (FDir m)" using grows_dir [OF tail(1)] by simp
    moreover have "grows fs fs'"
      using grows_trans [OF grows_new tail(1)] None by blast
    ultimately show ?thesis using tail(2) by simp
  next
    case (Some node)
    then obtain m where node: "node = FDir m" and tail: "mkdir_chain mode ds fs = (fs', Inr u)"
      using Cons.prems by (auto split: fs_node.splits if_splits)
    from Cons.IH [OF tail] Some node show ?thesis using grows_dir by auto
  qed
qed simp

lemma entry_path:
  assumes "manifest_ok os es" "e \<in> set es"
  shows "rel_path (Path e) \<or> Path e = ''.''"
  using assms checkRelPath_rel by (auto simp: manifest_ok_def entry_ok_def)

lemma parents_of_Dir:
  assumes "rel_path p" "Dir p \<noteq> ''.''"
  shows "rev (parent_dirs (Dir p)) @ [Dir p] = rev (parent_dirs p)"
proof -
  have "Dir p \<noteq> ''/''"
  proof -
    obtain es where es: "es \<noteq> []" "\<forall>e \<in> set es. plain_elem e" "p = join_with slash es"
      using assms(1) by (rule rel_pathE)
    have plain: "\<forall>e \<in> set (butlast es). plain_elem e" "plain_elem (last es)"
      using es by (auto dest: in_set_butlastD)
    then have "Dir p = (if butlast es = [] then ''.'' else join_with slash (butlast es))"
      using Dir_join_snoc [OF plain] es(1,3) by simp
    then show ?thesis using rel_path_not_special [OF rel_path_join [OF _ plain(1)]] by (auto split: if_splits)
  qed
  then show ?thesis using assms(2) by (simp add: parent_dirs.simps [of p] Let_def)
qed

lemma MkdirAll_parent_confined:
  assumes "manifest_ok os es" "e \<in> set es" "within es fs"
  shows "confined es fs (MkdirAll umask (Dir (Path e)) perm fs)"
proof (cases "Dir (Path e) = ''.''")
  case False
  then have "rel_path (Path e)" using entry_path [OF assms(1,2)] by (auto simp: Dir_def)
  moreover have "\<forall>d \<in> set (rev (parent_dirs (Path e))). dirable es d" using assms(2) by (auto simp: dirable_def)
  ultimately show ?thesis
    using parents_of_Dir False mkdir_chain_confined [OF assms(1) _ assms(3)] by (simp add: MkdirAll_def)
qed (simp add: MkdirAll_def assms(3))

lemma MkdirAll_dir_confined:
  assumes "manifest_ok os es" "e \<in> set es" "within es fs" "Type e = EntryDir"
  shows "confined es fs (MkdirAll umask (Path e) perm fs)"
proof -
  have "\<forall>d \<in> set (rev (parent_dirs (Path e)) @ [Path e]). dirable es d"
    using assms(2,4) by (auto simp: dirable_def)
  from mkdir_chain_confined [OF assms(1) this assms(3)] show ?thesis
    by (simp add: MkdirAll_def assms(3))
qed

lemma MkdirAll_dir: "MkdirAll umask p perm fs = (fs', Inr u) \<Longrightarrow> p \<noteq> ''.'' \<Longrightarrow> \<exists>m. fs' p = Some (FDir m)"
  using mkdir_chain_dirs by (fastforce simp: MkdirAll_def)

lemma reach_error:
  "reach p fs = Inl err \<Longrightarrow> \<exists>d \<in> set (parent_dirs p). err = FileSystemError d \<or>
     (err = LinkTraversed d \<and> (\<exists>t. fs d = Some (FLink t)))"
proof -
  have "each_ok f ds = Inl err \<Longrightarrow> \<exists>d \<in> set ds. f d = Inl err" for f :: "string \<Rightarrow> archive_error + unit" and ds
    by (induction ds) (auto split: sum.splits)
  moreover assume "reach p fs = Inl err"
  ultimately show ?thesis
    unfolding reach_def by (fastforce simp: check_that_def split: option.splits fs_node.splits if_splits)
qed

lemma reach_no_link:
  assumes "manifest_ok os es" "e \<in> set es" "within es fs"
  shows "reach (Path e) fs \<noteq> Inl (LinkTraversed q)"
proof
  assume "reach (Path e) fs = Inl (LinkTraversed q)"
  then obtain t where "q \<in> set (parent_dirs (Path e))" "fs q = Some (FLink t)" by (auto dest: reach_error)
  then show False using dirable_node [OF assms(1,3), of q "FLink t"] assms(2) by (auto simp: dirable_def)
qed

lemma create_node_confined:
  assumes "manifest_ok os es" "e \<in> set es" "within es fs" "node_allowed es (Path e) node"
  shows "confined es fs (create_node (Path e) node fs)"
  using reach_no_link [OF assms(1-3)] assms(3,4) within_upd grows_new
  by (auto simp: create_node_def confined_def split: sum.split option.split)

lemma then_fs_Inr:
  "then_fs r k = (fs', Inr b) \<longleftrightarrow> (\<exists>fs1 a. r = (fs1, Inr a) \<and> k a fs1 = (fs', Inr b))"
  by (auto simp: then_fs_def split: prod.splits sum.splits)

lemma create_node_Inr:
  "create_node p node fs = (fs', Inr u) \<longleftrightarrow> is_ok (reach p fs) \<and> fs p = None \<and> fs' = fs(p \<mapsto> node)"
  by (auto simp: create_node_def is_ok_iff split: sum.splits option.splits)

subsection \<open>One entry\<close>

text \<open>A manifest entry that is in place. Directories get their declared mode last.\<close>

definition placed :: "(bytes \<Rightarrow> string) \<Rightarrow> manifest_entry \<Rightarrow> fs \<Rightarrow> bool" where
  "placed sha256hex e fs =
     (if Type e = EntryFile then
        (\<exists>b. fs (Path e) = Some (FFile b (syscallMode (Mode e))) \<and> int (length b) = Size e \<and>
             sha256hex b = SHA256 e)
      else if Type e = EntryDir then (\<exists>m. fs (Path e) = Some (FDir m))
      else fs (Path e) = Some (FLink (Target e)))"

lemma placed_grows: "placed sha e fs \<Longrightarrow> grows fs fs' \<Longrightarrow> placed sha e fs'"
  by (auto simp: placed_def dest: grows_dir grows_file grows_link split: if_splits)

text \<open>A file is created and then filled: both steps together add one node.\<close>

lemma create_fill_confined:
  assumes "manifest_ok os es" "e \<in> set es" "within es fs" "Type e = EntryFile"
    and "\<And>fs2. \<exists>b m. fst (k () fs2) = fs2(Path e \<mapsto> FFile b m)"
    and "\<And>fs2 q. snd (k () fs2) \<noteq> Inl (LinkTraversed q)"
  shows "confined es fs (then_fs (create_node (Path e) (FFile [] m0) fs) k)"
proof (cases "create_node (Path e) (FFile [] m0) fs")
  case (Pair fs2 r)
  have allowed: "node_allowed es (Path e) (FFile b m)" for b m
    using assms(2,4) by (auto simp: node_allowed_def)
  show ?thesis
  proof (cases r)
    case (Inl err)
    have "confined es fs (create_node (Path e) (FFile [] m0) fs)"
      by (rule create_node_confined [OF assms(1-3) allowed])
    then show ?thesis using Pair Inl by (simp add: then_fs_def confined_def)
  next
    case (Inr u)
    then have new: "fs (Path e) = None" and fs2: "fs2 = fs(Path e \<mapsto> FFile [] m0)"
      using Pair by (simp_all add: create_node_Inr)
    obtain b m where "fst (k () fs2) = fs(Path e \<mapsto> FFile b m)" using assms(5) [of fs2] fs2 by auto
    then show ?thesis
      using Pair Inr new assms(6) [of fs2] within_upd [OF assms(3) allowed] grows_new [of fs "Path e", OF new]
      by (auto simp: confined_def then_fs_def)
  qed
qed

lemma extract_file_confined:
  assumes "manifest_ok os es" "e \<in> set es" "within es fs" "Type e = EntryFile"
  shows "confined es fs (extract_file sha umask e body truncated fs)"
  unfolding extract_file_def Let_def
  by (rule confined_then [OF MkdirAll_parent_confined [OF assms(1-3)]],
      rule create_fill_confined [OF assms(1,2) _ assms(4)])
    (auto split: prod.split)

lemma extract_file_placed:
  assumes "extract_file sha umask e body truncated fs = (fs', Inr u)" "Type e = EntryFile"
  shows "placed sha e fs'"
proof -
  obtain data failed where copy: "copy_limited (Size e) body truncated = (data, failed)" by fastforce
  then show ?thesis
    using assms by (auto simp: extract_file_def Let_def then_fs_Inr placed_def split: if_splits)
qed

lemma extract_entry_confined:
  assumes "manifest_ok os es" "e \<in> set es" "within es fs"
  shows "confined es fs (extract_entry sha umask e hdr body truncated fs)"
  using extract_file_confined [OF assms] MkdirAll_dir_confined [OF assms] assms(3)
  by (auto simp: extract_entry_def split: tar_type.split)

lemma extract_entry_placed:
  assumes "extract_entry sha umask e hdr body truncated fs = (fs', Inr u)"
    and "Type e \<noteq> EntrySymlink" "fs ''.'' = Some (FDir m0)"
  shows "placed sha e fs'"
proof (cases "Typeflag hdr")
  case TypeDir
  then have "Type e = EntryDir" "MkdirAll umask (Path e) (Mode e OR 0x1C0) fs = (fs', Inr u)"
    using assms(1) by (auto simp: extract_entry_def split: if_splits)
  then show ?thesis
    using MkdirAll_dir assms(3) by (cases "Path e = ''.''") (auto simp: placed_def MkdirAll_def)
qed (use assms extract_file_placed in \<open>auto simp: extract_entry_def split: if_splits\<close>)

subsection \<open>The stream\<close>

lemma by_path_Some:
  "map_of (map (\<lambda>e. (Path e, e)) es) name = Some e \<Longrightarrow> e \<in> set es \<and> Path e = name"
  by (auto dest: map_of_SomeD)

lemma extract_stream_confined:
  assumes "manifest_ok os es" "within es fs"
  shows "confined es fs (extract_stream sha umask (map_of (map (\<lambda>e. (Path e, e)) es)) written stream fs)"
  using assms(2)
proof (induction stream arbitrary: written fs)
  case (Cons event stream)
  show ?case
  proof (cases event)
    case (TarEntry hdr body truncated)
    then show ?thesis
      using Cons by (auto simp: Let_def split: option.split
          intro!: confined_then [OF extract_entry_confined [OF assms(1)]] dest: by_path_Some)
  qed (simp add: Cons.prems)
qed simp

definition written_placed :: "(bytes \<Rightarrow> string) \<Rightarrow> manifest_entry list \<Rightarrow> string list \<Rightarrow> fs \<Rightarrow> bool" where
  "written_placed sha es written fs \<longleftrightarrow>
     (\<forall>e \<in> set es. Path e \<in> set written \<longrightarrow> Type e \<noteq> EntrySymlink \<longrightarrow> placed sha e fs)"

lemma extract_stream_placed:
  assumes "manifest_ok os es" "within es fs" "fs ''.'' = Some (FDir m0)" "written_placed sha es written fs"
    and "extract_stream sha umask (map_of (map (\<lambda>e. (Path e, e)) es)) written stream fs = (fs', Inr written')"
  shows "written_placed sha es written' fs'"
  using assms(2-5)
proof (induction stream arbitrary: written fs m0)
  case (Cons event stream)
  then obtain hdr body truncated where ev: "event = TarEntry hdr body truncated" by (cases event) auto
  let ?name = "trim_suffix (hdr_name hdr) ''/''"
  from Cons.prems(4) ev obtain e fs1 where
    e: "map_of (map (\<lambda>e. (Path e, e)) es) ?name = Some e" and
    one: "extract_entry sha umask e hdr body truncated fs = (fs1, Inr ())" and
    rest: "extract_stream sha umask (map_of (map (\<lambda>e. (Path e, e)) es)) (?name # written) stream fs1 = (fs', Inr written')"
    by (auto simp: Let_def then_fs_Inr split: option.splits if_splits)
  note e' = by_path_Some [OF e]
  have conf: "within es fs1" "grows fs fs1"
    using extract_entry_confined [OF assms(1) _ Cons.prems(1), of e sha umask hdr body truncated] e' one
    by (auto simp: confined_def)
  from grows_dir [OF conf(2) Cons.prems(2)] obtain m1 where root: "fs1 ''.'' = Some (FDir m1)" by blast
  have uniq: "d = e" if "d \<in> set es" "Path d = ?name" for d
    using that e' assms(1) unfolding manifest_ok_def distinct_map by (metis inj_onD)
  have "written_placed sha es (?name # written) fs1"
    using Cons.prems(3) placed_grows [OF _ conf(2)] extract_entry_placed [OF one _ Cons.prems(2)] uniq
    by (auto simp: written_placed_def)
  from Cons.IH [OF conf(1) root this rest] show ?case .
qed simp

subsection \<open>Missing entries, links and directory modes\<close>

text \<open>The contract of \<open>opts.ResolveMissing\<close>: it obeys the same confinement as extraction
  itself, and a reported hit has put the verified file in place.\<close>

locale blob_resolver =
  fixes resolve :: "'c resolver" and sha256hex :: "bytes \<Rightarrow> string"
  assumes resolve_confined:
    "manifest_ok os es \<Longrightarrow> e \<in> set es \<Longrightarrow> Type e = EntryFile \<Longrightarrow> within es fs \<Longrightarrow>
       confined es fs (snd (resolve c (Path e) e fs))"
  and resolve_placed:
    "resolve c (Path e) e fs = (c', fs', Inr True) \<Longrightarrow> Type e = EntryFile \<Longrightarrow> placed sha256hex e fs'"

definition resolver_ok :: "(bytes \<Rightarrow> string) \<Rightarrow> 'c resolver option \<Rightarrow> bool" where
  "resolver_ok sha resolve \<longleftrightarrow> (\<forall>f. resolve = Some f \<longrightarrow> blob_resolver f sha)"

lemma extract_missing_confined:
  assumes "manifest_ok os es" "resolver_ok sha resolve" "set todo \<subseteq> set es" "within es fs"
  shows "confined es fs (snd (extract_missing resolve written misses todo c fs))"
  using assms(3,4)
proof (induction todo arbitrary: misses c fs)
  case (Cons e todo)
  show ?case
  proof (cases "Path e \<in> set written \<or> Type e \<noteq> EntryFile \<or> resolve = None")
    case True
    then show ?thesis using Cons by (auto split: option.split)
  next
    case False
    then obtain f where f: "resolve = Some f" "Type e = EntryFile" "Path e \<notin> set written" by auto
    obtain c' fs' r where call: "f c (Path e) e fs = (c', fs', r)" by (metis surj_pair)
    have conf: "confined es fs (fs', r)"
      using blob_resolver.resolve_confined [of f sha os es e fs c] assms(1,2) f Cons.prems call
      by (simp add: resolver_ok_def)
    show ?thesis
    proof (cases r)
      case (Inr hit)
      have "within es fs'" "grows fs fs'" using conf by (simp_all add: confined_def)
      then show ?thesis
        using Cons.IH [of fs' misses c'] Cons.IH [of fs' "misses @ [Path e]" c'] Cons.prems(1) f call Inr
        by (cases hit) (auto intro: confined_step)
    qed (use conf f call in \<open>auto simp: confined_def\<close>)
  qed
qed simp

lemma extract_missing_placed:
  assumes "manifest_ok os es" "resolver_ok sha resolve" "set todo \<subseteq> set es" "within es fs"
    and "extract_missing resolve written misses todo c fs = (c', fs', Inr [])"
  shows "misses = [] \<and> (\<forall>e \<in> set todo. Path e \<notin> set written \<longrightarrow> placed sha e fs')"
  using assms(3-5)
proof (induction todo arbitrary: misses c fs)
  case (Cons e todo)
  show ?case
  proof (cases "Path e \<in> set written")
    case True
    then show ?thesis using Cons by simp
  next
    case False
    with Cons.prems(3) obtain f where f: "resolve = Some f" "Type e = EntryFile"
      by (auto split: option.splits if_splits)
    obtain c1 fs1 r where call: "f c (Path e) e fs = (c1, fs1, r)" by (metis surj_pair)
    have fr: "blob_resolver f sha" using assms(2) f(1) by (simp add: resolver_ok_def)
    have conf: "confined es fs (fs1, r)"
      using blob_resolver.resolve_confined [OF fr assms(1), of e fs c] f Cons.prems call by simp
    have hit: "r = Inr True"
    proof (rule ccontr)
      assume "r \<noteq> Inr True"
      then have "r = Inr False \<and> extract_missing resolve written (misses @ [Path e]) todo c1 fs1 = (c', fs', Inr [])"
        using Cons.prems(3) False f call by (auto split: sum.splits bool.splits)
      then show False using Cons.IH [of fs1 "misses @ [Path e]" c1] Cons.prems(1) conf by (auto simp: confined_def)
    qed
    have tail: "extract_missing resolve written misses todo c1 fs1 = (c', fs', Inr [])"
      using Cons.prems(3) False f call hit by simp
    have w1: "within es fs1" using conf by (simp add: confined_def)
    have "grows fs1 fs'"
      using extract_missing_confined [OF assms(1,2) _ w1, of todo written misses c1] tail Cons.prems(1)
      by (simp add: confined_def)
    moreover have "placed sha e fs1"
      using blob_resolver.resolve_placed [OF fr] call hit f(2) by blast
    ultimately have "placed sha e fs'" by (rule placed_grows [rotated])
    then show ?thesis using Cons.IH [OF _ w1 tail] Cons.prems(1) by auto
  qed
qed simp

lemma link_allowed:
  "e \<in> set es \<Longrightarrow> Type e = EntrySymlink \<Longrightarrow> node_allowed es (Path e) (FLink (Target e))"
  by (auto simp: node_allowed_def)

lemma extract_links_confined:
  assumes "manifest_ok os es" "set todo \<subseteq> set es" "within es fs"
  shows "confined es fs (extract_links umask todo fs)"
  using assms(2,3)
proof (induction todo arbitrary: fs)
  case (Cons e todo)
  then show ?case
    using MkdirAll_parent_confined [OF assms(1)] create_node_confined [OF assms(1)] link_allowed
    by (auto intro!: confined_then)
qed simp

lemma extract_links_placed:
  assumes "manifest_ok os es" "set todo \<subseteq> set es" "within es fs"
    and "extract_links umask todo fs = (fs', Inr u)" "e \<in> set todo" "Type e = EntrySymlink"
  shows "placed sha e fs'"
  using assms(2-5)
proof (induction todo arbitrary: fs)
  case (Cons d todo)
  show ?case
  proof (cases "Type d = EntrySymlink")
    case True
    with Cons.prems(3) obtain fs1 fs2 u1 u2 where
      one: "MkdirAll umask (Dir (Path d)) 0x1ED fs = (fs1, Inr u1)"
      "create_node (Path d) (FLink (Target d)) fs1 = (fs2, Inr u2)"
      "extract_links umask todo fs2 = (fs', Inr u)"
      by (auto simp: then_fs_Inr)
    have "within es fs1"
      using MkdirAll_parent_confined [OF assms(1) _ Cons.prems(2), of d umask "0x1ED"] Cons.prems(1) one(1)
      by (simp add: confined_def)
    then have w2: "within es fs2"
      using create_node_confined [OF assms(1), of d fs1 "FLink (Target d)"] link_allowed [of d es] True Cons.prems(1) one(2)
      by (simp add: confined_def)
    show ?thesis
    proof (cases "e = d")
      case eq: True
      have "placed sha d fs2" using one(2) True by (simp add: create_node_Inr placed_def)
      moreover have "grows fs2 fs'"
        using extract_links_confined [OF assms(1) _ w2, of todo umask] Cons.prems(1) one(3) by (simp add: confined_def)
      ultimately show ?thesis using eq placed_grows by blast
    next
      case False
      then show ?thesis using Cons.IH [OF _ w2 one(3)] Cons.prems(1,4) by simp
    qed
  next
    case False
    then show ?thesis using Cons assms(6) by auto
  qed
qed simp

lemma Chmod_confined:
  assumes "manifest_ok os es" "e \<in> set es" "within es fs" "Type e = EntryDir"
  shows "confined es fs (Chmod (Path e) mode fs)"
proof -
  have dir: "dirable es (Path e)" using assms(2,4) by (auto simp: dirable_def)
  have "\<exists>m. node = FDir m" if "fs (Path e) = Some node" for node
    using dirable_node [OF assms(1,3) dir that] by blast
  then show ?thesis
    using reach_no_link [OF assms(1-3)] assms(3) within_upd [OF assms(3) dirable_allowed [OF dir]] grows_chmod_dir
    by (auto simp: Chmod_def confined_def split: sum.split option.split fs_node.split)
qed

lemma chmod_dirs_confined:
  assumes "manifest_ok os es" "set todo \<subseteq> set es" "\<forall>e \<in> set todo. Type e = EntryDir" "within es fs"
  shows "confined es fs (chmod_dirs todo fs)"
  using assms(2-4)
proof (induction todo arbitrary: fs)
  case (Cons e todo)
  then show ?case using Chmod_confined [OF assms(1)] by (auto intro!: confined_then)
qed simp

lemma chmod_dirs_modes:
  assumes "chmod_dirs todo fs = (fs', Inr u)" "distinct (map Path todo)"
    and "\<forall>e \<in> set todo. \<exists>m. fs (Path e) = Some (FDir m)"
  shows "(\<forall>e \<in> set todo. fs' (Path e) = Some (FDir (syscallMode (Mode e)))) \<and>
         (\<forall>q. q \<notin> Path ` set todo \<longrightarrow> fs' q = fs q)"
  using assms
proof (induction todo arbitrary: fs)
  case (Cons e todo)
  then obtain fs1 u1 where "Chmod (Path e) (Mode e) fs = (fs1, Inr u1)" and tail: "chmod_dirs todo fs1 = (fs', Inr u)"
    by (auto simp: then_fs_Inr)
  then have fs1: "fs1 = fs(Path e \<mapsto> FDir (syscallMode (Mode e)))"
    using Cons.prems(3) by (auto simp: Chmod_def split: sum.splits)
  have "\<forall>d \<in> set todo. \<exists>m. fs1 (Path d) = Some (FDir m)" using Cons.prems(3) by (simp add: fs1)
  with Cons.IH [OF tail] Cons.prems(2) show ?case by (auto simp: fs1)
qed simp

subsection \<open>The whole extraction\<close>

lemma workspace_budget_sum:
  "workspace_budget maxBytes used es = Inr n \<Longrightarrow>
     n = used + sum_list (map Size (filter (\<lambda>e. Type e = EntryFile) es)) \<and> (n \<le> maxBytes \<or> n = used)"
proof (induction es arbitrary: used)
  case (Cons e es)
  show ?case
  proof (cases "Type e = EntryFile")
    case True
    then have ok: "Size e \<le> maxBytes - used" "workspace_budget maxBytes (used + Size e) es = Inr n"
      using Cons.prems by (auto split: if_splits)
    from Cons.IH [OF ok(2)] ok(1) True show ?thesis by auto
  next
    case False
    then show ?thesis using Cons by simp
  qed
qed simp

lemma deepest_first_set [simp]: "set (deepest_first es) = {e \<in> set es. Type e = EntryDir}"
  by (simp add: deepest_first_def)

lemma distinct_by_key: "distinct (map f xs) \<Longrightarrow> distinct (map f (sort_key k (filter P xs)))"
proof -
  assume "distinct (map f xs)"
  then have "distinct (sort_key k (filter P xs))" "inj_on f (set (sort_key k (filter P xs)))"
    by (auto simp: distinct_map intro: inj_on_subset)
  then show ?thesis by (simp add: distinct_map)
qed

lemma finish_confined:
  assumes "manifest_ok os es" "confined es fs (snd r)"
  shows "confined es fs (snd (finish_extract umask es r))"
proof -
  obtain c r' where Pair: "r = (c, r')" by (metis surj_pair)
  have "confined es fs (then_fs r' (\<lambda>misses fs.
      if misses \<noteq> [] then (fs, Inl (CacheMiss (length misses)))
      else then_fs (extract_links umask es fs) (\<lambda>_ fs'. chmod_dirs (deepest_first es) fs')))"
  proof (rule confined_then)
    show "confined es fs r'" using assms(2) Pair by simp
    show "confined es fs1 (if misses \<noteq> [] then (fs1, Inl (CacheMiss (length misses)))
      else then_fs (extract_links umask es fs1) (\<lambda>_ fs'. chmod_dirs (deepest_first es) fs'))"
      if "within es fs1" for misses fs1
      using that extract_links_confined [OF assms(1)] chmod_dirs_confined [OF assms(1)]
      by (auto intro!: confined_then)
  qed
  then show ?thesis by (simp add: finish_extract_def Pair)
qed

lemma workspace_budget_error: "workspace_budget maxBytes used es = Inl err \<Longrightarrow> err = WorkspaceExceeds"
  by (induction es arbitrary: used) (auto split: if_splits)

lemma ExtractWith_confined:
  assumes "resolver_ok sha resolve" "is_ok (Validate os m)" "within (slice (Entries m)) fs"
  shows "confined (slice (Entries m)) fs (snd (ExtractWith os sha umask stream m maxBytes resolve c fs))"
proof -
  let ?es = "slice (Entries m)"
  have ok: "manifest_ok os ?es" and val: "Validate os m = Inr ()"
    using assms(2) by (simp_all add: Validate_manifest_ok is_ok_unit [symmetric])
  show ?thesis
  proof (cases "workspace_budget maxBytes 0 ?es")
    case (Inl err)
    then show ?thesis
      using workspace_budget_error [OF Inl] assms(3) by (simp add: ExtractWith_def Let_def val)
  next
    case (Inr n)
    obtain fs1 r where stream: "extract_stream sha umask (map_of (map (\<lambda>e. (Path e, e)) ?es)) [] stream fs = (fs1, r)"
      by fastforce
    have conf: "confined ?es fs (fs1, r)" using extract_stream_confined [OF ok assms(3)] stream by metis
    show ?thesis
    proof (cases r)
      case (Inl err)
      then show ?thesis using conf Inr val stream by (simp add: ExtractWith_def Let_def confined_def)
    next
      case written: (Inr written)
      have "within ?es fs1" "grows fs fs1" using conf by (simp_all add: confined_def)
      then have "confined ?es fs (snd (finish_extract umask ?es (extract_missing resolve written [] ?es c fs1)))"
        using confined_step [OF finish_confined [OF ok extract_missing_confined [OF ok assms(1)]]] by blast
      then show ?thesis using written Inr val stream by (simp add: ExtractWith_def Let_def)
    qed
  qed
qed

lemma finish_placed:
  assumes "manifest_ok os es" "within es fs" "finish_extract umask es (c, fs, Inr misses) = (c', fs', Inr ())"
    and "\<forall>e \<in> set es. Type e \<noteq> EntrySymlink \<longrightarrow> placed sha e fs"
  shows "misses = [] \<and> (\<forall>e \<in> set es. placed sha e fs' \<and>
           (Type e = EntryDir \<longrightarrow> fs' (Path e) = Some (FDir (syscallMode (Mode e)))))"
proof -
  obtain fs1 u where links: "extract_links umask es fs = (fs1, Inr u)" and
    modes: "chmod_dirs (deepest_first es) fs1 = (fs', Inr ())" and none: "misses = []"
    using assms(3) by (auto simp: finish_extract_def then_fs_def split: if_splits prod.splits sum.splits)
  have conf: "within es fs1" "grows fs fs1"
    using extract_links_confined [OF assms(1) subset_refl assms(2), of umask] links by (simp_all add: confined_def)
  have all1: "placed sha e fs1" if "e \<in> set es" for e
    using that assms(4) placed_grows [OF _ conf(2)] extract_links_placed [OF assms(1) subset_refl assms(2) links]
    by (cases "Type e = EntrySymlink") auto
  have "confined es fs1 (chmod_dirs (deepest_first es) fs1)"
    by (rule chmod_dirs_confined [OF assms(1) _ _ conf(1)]) auto
  then have "grows fs1 fs'" using modes by (simp add: confined_def)
  then have "placed sha e fs'" if "e \<in> set es" for e using that all1 placed_grows by blast
  moreover have "fs' (Path e) = Some (FDir (syscallMode (Mode e)))" if "e \<in> set es" "Type e = EntryDir" for e
  proof -
    have "distinct (map Path (deepest_first es))"
      using assms(1) by (simp add: deepest_first_def distinct_by_key manifest_ok_def)
    moreover have "\<forall>e \<in> set (deepest_first es). \<exists>m. fs1 (Path e) = Some (FDir m)"
      using all1 by (fastforce simp: placed_def)
    ultimately show ?thesis using chmod_dirs_modes [OF modes] that by simp
  qed
  ultimately show ?thesis using none by blast
qed

lemma ExtractWith_placed:
  assumes "resolver_ok sha resolve" "within (slice (Entries m)) fs" "fs ''.'' = Some (FDir m0)"
    and "ExtractWith os sha umask stream m maxBytes resolve c fs = (c', fs', Inr ())"
  shows "is_ok (Validate os m)"
    "sum_list (map Size (filter (\<lambda>e. Type e = EntryFile) (slice (Entries m)))) \<le> max 0 maxBytes"
    "e \<in> set (slice (Entries m)) \<Longrightarrow> placed sha e fs' \<and>
       (Type e = EntryDir \<longrightarrow> fs' (Path e) = Some (FDir (syscallMode (Mode e))))"
proof -
  let ?es = "slice (Entries m)"
  obtain n fs1 written where val: "Validate os m = Inr ()" and budget: "workspace_budget maxBytes 0 ?es = Inr n" and
    stream: "extract_stream sha umask (map_of (map (\<lambda>e. (Path e, e)) ?es)) [] stream fs = (fs1, Inr written)" and
    finish: "finish_extract umask ?es (extract_missing resolve written [] ?es c fs1) = (c', fs', Inr ())"
    using assms(4) by (auto simp: ExtractWith_def Let_def bind_res_Inr_iff split: sum.splits prod.splits)
  show "is_ok (Validate os m)" using val by simp
  then have ok: "manifest_ok os ?es" by (simp add: Validate_manifest_ok)
  show "sum_list (map Size (filter (\<lambda>e. Type e = EntryFile) ?es)) \<le> max 0 maxBytes"
    using workspace_budget_sum [OF budget] by auto
  have conf: "within ?es fs1" using extract_stream_confined [OF ok assms(2), of sha umask "[]" stream] stream by (simp add: confined_def)
  have streamed: "written_placed sha ?es written fs1"
    by (rule extract_stream_placed [OF ok assms(2,3) _ stream]) (simp add: written_placed_def)
  obtain c2 fs2 r where missing: "extract_missing resolve written [] ?es c fs1 = (c2, fs2, r)" by (metis surj_pair)
  have conf2: "within ?es fs2" "grows fs1 fs2"
    using extract_missing_confined [OF ok assms(1) subset_refl conf, of written "[]" c] missing by (simp_all add: confined_def)
  obtain misses where r: "r = Inr misses" and none: "misses = []"
    using finish missing by (cases r) (auto simp: finish_extract_def then_fs_def split: if_splits)
  have "placed sha e fs2" if "e \<in> set ?es" "Type e \<noteq> EntrySymlink" for e
  proof (cases "Path e \<in> set written")
    case True
    then show ?thesis using streamed that placed_grows [OF _ conf2(2)] by (simp add: written_placed_def)
  next
    case False
    then show ?thesis
      using extract_missing_placed [OF ok assms(1) subset_refl conf, of written "[]" c c2 fs2] missing r none that by simp
  qed
  then show "placed sha e fs' \<and> (Type e = EntryDir \<longrightarrow> fs' (Path e) = Some (FDir (syscallMode (Mode e))))"
    if "e \<in> set ?es"
    using finish_placed [OF ok conf2(1), of umask c2 misses c' fs' sha] finish missing r that by simp
qed

lemma fresh_within: "within es fresh_dir"
  by (simp add: within_def fresh_dir_def node_allowed_def)

end
