(* ===== verification/Blob_Cache.thy ===== *)
theory Blob_Cache
  imports Extract "HOL-Library.AList" "HOL-Library.Product_Lexorder" "HOL-Library.Multiset"
begin

text \<open>
  The daemon's snapshot cache (\<open>internal/daemon/cache.go\<close>) and the pins jobs hold on it
  (\<open>cache_pins.go\<close>). The state is what the cache directory holds (blobs by hash with their
  modification times and file identities, and left-over insert temporaries), the byte counter
  the cache keeps in memory, and the pin counts. A definition is what one operation does while
  it holds the cache's mutex. \<open>Materialize\<close> releases it while it copies, so it is two such
  parts with the copy between them, and \<open>meanwhile\<close> is whatever others do to the cache in that
  time. \<open>Insert\<close> prepares its temporary outside the mutex, under \<open>insertMu\<close>, which every other
  operation that looks at temporaries takes too. \<open>now\<close> is the clock at the call. \<open>os.Remove\<close> may
  fail: the parameter \<open>rm\<close> says for which names it succeeds, so the error and rollback branches
  are live. SHA-256 is a parameter. Times are nanoseconds. Cancellation and failures of the
  device while a blob is read are not modelled.
\<close>

subsection \<open>State\<close>

text \<open>\<open>fsidentity.Identity\<close>\<close>

record identity =
  Device :: "64 word"
  Inode :: "64 word"

definition Identity_IsZero :: "identity \<Rightarrow> bool" where
  "Identity_IsZero i \<longleftrightarrow> i = \<lparr>Device = 0, Inode = 0\<rparr>"

record blob =
  Content :: bytes
  ModTime :: int
  Ident :: identity

record blob_cache =
  dir_blobs :: "(string \<times> blob) list"
  dir_temps :: "(string \<times> bytes) list"
  max_bytes :: int
  ttl :: int
  cache_bytes :: int
  pins :: "string \<Rightarrow> nat"

text \<open>\<open>cachePins\<close>, one job's hold; operations take a possibly nil pointer to one.\<close>

record cache_pins =
  shas :: "string list"
  released :: bool

datatype cache_error =
    InvalidBlobHash
  | UnexpectedCacheEntry
  | RemoveFailed
  | ChangedWhileInserting
  | RollbackFailed

record gc_result =
  RemovedBlobs :: nat
  FreedBytes :: int

abbreviation blob_size :: "blob \<Rightarrow> int" where
  "blob_size b \<equiv> int (length (Content b))"

definition validBlobHash :: "string \<Rightarrow> bool" where
  "validBlobHash sha \<longleftrightarrow> length sha = 64 \<and> list_all hex_digit sha"

definition expired :: "blob_cache \<Rightarrow> blob \<Rightarrow> int \<Rightarrow> bool" where
  "expired c b now \<longleftrightarrow> ModTime b < now - ttl c"

subsection \<open>Pins\<close>

definition pinnedLocked :: "blob_cache \<Rightarrow> string \<Rightarrow> bool" where
  "pinnedLocked c sha \<longleftrightarrow> pins c sha > 0"

definition unpinLocked :: "string \<Rightarrow> blob_cache \<Rightarrow> blob_cache" where
  "unpinLocked sha c = c\<lparr>pins := (pins c)(sha := pins c sha - 1)\<rparr>"

definition pinLocked :: "cache_pins option \<Rightarrow> string \<Rightarrow> blob_cache \<Rightarrow> blob_cache \<times> cache_pins option" where
  "pinLocked p sha c =
     (case p of
        None \<Rightarrow> (c, None)
      | Some q \<Rightarrow>
          if released q \<or> sha \<in> set (shas q) then (c, Some q)
          else (c\<lparr>pins := (pins c)(sha := pins c sha + 1)\<rparr>, Some (q\<lparr>shas := sha # shas q\<rparr>)))"

definition dropPinLocked :: "cache_pins option \<Rightarrow> string \<Rightarrow> blob_cache \<Rightarrow> blob_cache \<times> cache_pins option" where
  "dropPinLocked p sha c =
     (case p of
        None \<Rightarrow> (c, None)
      | Some q \<Rightarrow>
          if sha \<in> set (shas q)
          then (unpinLocked sha c, Some (q\<lparr>shas := filter (\<lambda>s. s \<noteq> sha) (shas q)\<rparr>))
          else (c, Some q))"

subsection \<open>The directory\<close>

definition remove_blob :: "string \<Rightarrow> blob_cache \<Rightarrow> blob_cache" where
  "remove_blob sha c =
     c\<lparr>dir_blobs := AList.delete sha (dir_blobs c),
       cache_bytes := cache_bytes c -
         (case map_of (dir_blobs c) sha of None \<Rightarrow> 0 | Some b \<Rightarrow> blob_size b)\<rparr>"

definition removeIfCurrent ::
  "(string \<Rightarrow> bool) \<Rightarrow> string \<Rightarrow> identity \<Rightarrow> blob_cache \<Rightarrow> blob_cache \<times> (cache_error + unit)" where
  "removeIfCurrent rm sha expected c =
     (if \<not> validBlobHash sha then (c, Inl InvalidBlobHash)
      else case map_of (dir_blobs c) sha of
             None \<Rightarrow> (c, Inr ())
           | Some b \<Rightarrow>
               if \<not> Identity_IsZero expected \<and> Ident b \<noteq> expected then (c, Inr ())
               else if rm sha then (remove_blob sha c, Inr ())
               else (c, Inl RemoveFailed))"

definition touch :: "string \<Rightarrow> int \<Rightarrow> blob_cache \<Rightarrow> blob_cache" where
  "touch sha now c = c\<lparr>dir_blobs := map (\<lambda>(k, b). (k, if k = sha then b\<lparr>ModTime := now\<rparr> else b)) (dir_blobs c)\<rparr>"

definition total_bytes :: "(string \<times> blob) list \<Rightarrow> int" where
  "total_bytes bs = (\<Sum>(k, b) \<leftarrow> bs. blob_size b)"

text \<open>\<open>walkLocked\<close> without a callback: the number of blobs and their bytes.\<close>

definition walkLocked :: "blob_cache \<Rightarrow> cache_error + nat \<times> int" where
  "walkLocked c =
     (if list_all (\<lambda>(k, b). validBlobHash k) (dir_blobs c)
      then Inr (length (dir_blobs c), total_bytes (dir_blobs c))
      else Inl UnexpectedCacheEntry)"

definition StatsContext :: "blob_cache \<Rightarrow> blob_cache \<times> (cache_error + nat \<times> int)" where
  "StatsContext c =
     (case walkLocked c of
        Inl e \<Rightarrow> (c, Inl e)
      | Inr (n, held) \<Rightarrow> (c\<lparr>cache_bytes := held\<rparr>, Inr (n, held)))"

subsection \<open>Eviction\<close>

text \<open>Least recently used first, by name among equals.\<close>

definition eviction_order :: "blob_cache \<Rightarrow> (string \<times> blob) list \<Rightarrow> (string \<times> blob) list" where
  "eviction_order c bs =
     sort_key (\<lambda>(k, b). (ModTime b, k)) (filter (\<lambda>(k, b). \<not> pinnedLocked c k) bs)"

definition evict_target :: "int \<Rightarrow> int" where
  "evict_target maxBytes = (if maxBytes \<ge> 10 then maxBytes - maxBytes div 10 else maxBytes)"

fun evict_loop ::
  "(string \<Rightarrow> bool) \<Rightarrow> int \<Rightarrow> (string \<times> blob) list \<Rightarrow> blob_cache \<Rightarrow> gc_result \<Rightarrow>
     blob_cache \<times> gc_result \<times> (cache_error + unit)" where
  "evict_loop rm target [] c r = (c, r, Inr ())"
| "evict_loop rm target ((k, b) # bs) c r =
     (if cache_bytes c \<le> target then (c, r, Inr ())
      else if \<not> rm k then (c, r, Inl RemoveFailed)
      else evict_loop rm target bs
             (c\<lparr>dir_blobs := AList.delete k (dir_blobs c), cache_bytes := cache_bytes c - blob_size b\<rparr>)
             (r\<lparr>RemovedBlobs := RemovedBlobs r + 1, FreedBytes := FreedBytes r + blob_size b\<rparr>))"

definition no_gc :: gc_result where
  "no_gc = \<lparr>RemovedBlobs = 0, FreedBytes = 0\<rparr>"

definition evictOverLocked ::
  "(string \<Rightarrow> bool) \<Rightarrow> blob_cache \<Rightarrow> blob_cache \<times> gc_result \<times> (cache_error + unit)" where
  "evictOverLocked rm c =
     (if cache_bytes c \<le> max_bytes c then (c, no_gc, Inr ())
      else case walkLocked c of
             Inl e \<Rightarrow> (c, no_gc, Inl e)
           | Inr (n, held) \<Rightarrow>
               evict_loop rm (evict_target (max_bytes c)) (eviction_order c (dir_blobs c))
                 (c\<lparr>cache_bytes := held\<rparr>) no_gc)"

definition enforceSizeLocked :: "(string \<Rightarrow> bool) \<Rightarrow> blob_cache \<Rightarrow> blob_cache \<times> (cache_error + unit)" where
  "enforceSizeLocked rm c = (case evictOverLocked rm c of (c', r, x) \<Rightarrow> (c', x))"

text \<open>\<open>release\<close> drops the job's pins; an eviction error is only logged.\<close>

definition release :: "(string \<Rightarrow> bool) \<Rightarrow> cache_pins option \<Rightarrow> blob_cache \<Rightarrow> blob_cache \<times> cache_pins option" where
  "release rm p c =
     (case p of
        None \<Rightarrow> (c, None)
      | Some q \<Rightarrow>
          let c1 = fold unpinLocked (shas q) c;
              q1 = q\<lparr>shas := [], released := True\<rparr>
          in (if shas q \<noteq> [] then fst (enforceSizeLocked rm c1) else c1, Some q1))"

subsection \<open>Expiry and collection\<close>

text \<open>The callback of \<open>GCContext\<close> over the directory; \<open>bs\<close> is what the walk still has to
  visit, \<open>bytes\<close> what it has counted.\<close>

fun expire_walk ::
  "(string \<Rightarrow> bool) \<Rightarrow> int \<Rightarrow> (string \<times> blob) list \<Rightarrow> blob_cache \<Rightarrow> gc_result \<Rightarrow> int \<Rightarrow>
     blob_cache \<times> gc_result \<times> (cache_error + int)" where
  "expire_walk rm now [] c r bytes = (c, r, Inr bytes)"
| "expire_walk rm now ((k, b) # bs) c r bytes =
     (if \<not> validBlobHash k then (c, r, Inl UnexpectedCacheEntry)
      else if expired c b now \<and> \<not> pinnedLocked c k then
        if \<not> rm k then (c, r, Inl RemoveFailed)
        else expire_walk rm now bs
               (c\<lparr>dir_blobs := AList.delete k (dir_blobs c), cache_bytes := cache_bytes c - blob_size b\<rparr>)
               (r\<lparr>RemovedBlobs := RemovedBlobs r + 1, FreedBytes := FreedBytes r + blob_size b\<rparr>) bytes
      else expire_walk rm now bs c r (bytes + blob_size b))"

fun cleanup_temps ::
  "(string \<Rightarrow> bool) \<Rightarrow> (string \<times> bytes) list \<Rightarrow> int \<Rightarrow> (string \<times> bytes) list \<times> (cache_error + int)" where
  "cleanup_temps rm [] freed = ([], Inr freed)"
| "cleanup_temps rm ((name, data) # ts) freed =
     (if \<not> rm name then ((name, data) # ts, Inl RemoveFailed)
      else cleanup_temps rm ts (freed + int (length data)))"

definition add_gc :: "gc_result \<Rightarrow> gc_result \<Rightarrow> gc_result" where
  "add_gc a b = \<lparr>RemovedBlobs = RemovedBlobs a + RemovedBlobs b, FreedBytes = FreedBytes a + FreedBytes b\<rparr>"

definition GC :: "(string \<Rightarrow> bool) \<Rightarrow> int \<Rightarrow> blob_cache \<Rightarrow> blob_cache \<times> gc_result \<times> (cache_error + unit)" where
  "GC rm now c =
     (case cleanup_temps rm (dir_temps c) 0 of
        (ts, Inl e) \<Rightarrow> (c\<lparr>dir_temps := ts\<rparr>, no_gc, Inl e)
      | (ts, Inr tempBytes) \<Rightarrow>
          (case expire_walk rm now (dir_blobs c) (c\<lparr>dir_temps := ts\<rparr>) (no_gc\<lparr>FreedBytes := tempBytes\<rparr>) 0 of
             (c1, r, Inl e) \<Rightarrow> (c1, r, Inl e)
           | (c1, r, Inr bytes) \<Rightarrow>
               (case evictOverLocked rm (c1\<lparr>cache_bytes := bytes\<rparr>) of
                  (c2, r2, x) \<Rightarrow> (c2, add_gc r r2, x))))"

text \<open>The dry run. \<open>plan_evict\<close> is its loop over the candidates.\<close>

fun plan_evict :: "int \<Rightarrow> (string \<times> blob) list \<Rightarrow> int \<Rightarrow> gc_result \<Rightarrow> gc_result" where
  "plan_evict target [] remaining r = r"
| "plan_evict target ((k, b) # bs) remaining r =
     (if remaining \<le> target then r
      else plan_evict target bs (remaining - blob_size b)
             (r\<lparr>RemovedBlobs := RemovedBlobs r + 1, FreedBytes := FreedBytes r + blob_size b\<rparr>))"

definition planGCLocked :: "int \<Rightarrow> blob_cache \<Rightarrow> cache_error + gc_result" where
  "planGCLocked now c =
     bind_res (walkLocked c) (\<lambda>(n, held).
       let tempBytes = (\<Sum>(name, data) \<leftarrow> dir_temps c. int (length data));
           unpinned = filter (\<lambda>(k, b). \<not> pinnedLocked c k) (dir_blobs c);
           old = filter (\<lambda>(k, b). expired c b now) unpinned;
           retained = filter (\<lambda>(k, b). \<not> expired c b now) unpinned;
           r = \<lparr>RemovedBlobs = length old, FreedBytes = tempBytes + total_bytes old\<rparr>;
           remaining = held - (FreedBytes r - tempBytes)
       in if remaining \<le> max_bytes c then Inr r
          else Inr (plan_evict (evict_target (max_bytes c))
                 (sort_key (\<lambda>(k, b). (ModTime b, k)) retained) remaining r))"

subsection \<open>Use\<close>

fun missing_loop ::
  "(string \<Rightarrow> bool) \<Rightarrow> int \<Rightarrow> (string \<times> int) list \<Rightarrow> string list \<Rightarrow> blob_cache \<Rightarrow> blob_cache \<times> string list" where
  "missing_loop rm now [] seen c = (c, [])"
| "missing_loop rm now ((sha, sz) # refs) seen c =
     (if sha \<in> set seen then missing_loop rm now refs seen c
      else
        case (if validBlobHash sha then map_of (dir_blobs c) sha else None) of
          None \<Rightarrow> (case missing_loop rm now refs (sha # seen) c of (c', ms) \<Rightarrow> (c', sha # ms))
        | Some b \<Rightarrow>
            if blob_size b \<noteq> sz then
              (case missing_loop rm now refs (sha # seen) c of (c', ms) \<Rightarrow> (c', sha # ms))
            else if expired c b now \<and> \<not> pinnedLocked c sha then
              (case missing_loop rm now refs (sha # seen) (if rm sha then remove_blob sha c else c) of
                 (c', ms) \<Rightarrow> (c', sha # ms))
            else missing_loop rm now refs (sha # seen) (touch sha now c))"

definition MissingContext ::
  "(string \<Rightarrow> bool) \<Rightarrow> int \<Rightarrow> (string \<times> int) list \<Rightarrow> blob_cache \<Rightarrow> blob_cache \<times> string list" where
  "MissingContext rm now refs c = missing_loop rm now refs [] c"

text \<open>\<open>Materialize\<close> copies a blob to \<open>dest\<close> while verifying it; a blob that proves corrupt is
  removed, if it is still the one at its path, and reported as a miss. Its first part runs under
  the mutex and gives the file it opened, if any.\<close>

type_synonym cache_state = "blob_cache \<times> cache_pins option"

definition materialize_open ::
  "(string \<Rightarrow> bool) \<Rightarrow> int \<Rightarrow> manifest_entry \<Rightarrow> blob_cache \<Rightarrow> blob_cache \<times> blob option" where
  "materialize_open rm now e c =
     (case (if validBlobHash (SHA256 e) then map_of (dir_blobs c) (SHA256 e) else None) of
        None \<Rightarrow> (c, None)
      | Some b \<Rightarrow>
          if blob_size b \<noteq> Size e then (c, None)
          else if expired c b now \<and> \<not> pinnedLocked c (SHA256 e) then
            (if rm (SHA256 e) then remove_blob (SHA256 e) c else c, None)
          else (c, Some b))"

text \<open>The copy, without the mutex, of what the open file gives; whether it had the declared size
  and hash.\<close>

definition materialize_copy ::
  "(bytes \<Rightarrow> string) \<Rightarrow> 32 word \<Rightarrow> bytes \<Rightarrow> string \<Rightarrow> manifest_entry \<Rightarrow> fs \<Rightarrow> bool fs_res" where
  "materialize_copy sha256hex umask content dest e fs =
     (case MkdirAll umask (Dir dest) 0x1ED fs of
        (fs1, Inl err) \<Rightarrow> (fs1, Inl err)
      | (fs1, Inr _) \<Rightarrow>
          (case create_node dest (FFile [] (syscallMode (Mode e) AND NOT umask)) fs1 of
             (fs2, Inl err) \<Rightarrow> (fs2, Inl err)
           | (fs2, Inr _) \<Rightarrow>
               (case copy_limited (Size e) content False of
                  (data, failed) \<Rightarrow>
                    if int (length data) \<noteq> Size e \<or> sha256hex data \<noteq> SHA256 e then (fs2(dest := None), Inr False)
                    else (fs2(dest \<mapsto> FFile data (syscallMode (Mode e))), Inr True))))"

text \<open>The last part, under the mutex again: a corrupt blob goes, a good one is touched and pinned
  if the path still has the file that was copied.\<close>

definition materialize_close ::
  "(string \<Rightarrow> bool) \<Rightarrow> int \<Rightarrow> manifest_entry \<Rightarrow> identity \<Rightarrow> bool \<Rightarrow> cache_state \<Rightarrow> cache_state" where
  "materialize_close rm now e blobIdentity verified s =
     (case s of (c, p) \<Rightarrow>
        if \<not> verified then (fst (removeIfCurrent rm (SHA256 e) blobIdentity c), p)
        else
          let c1 = touch (SHA256 e) now c
          in case p of
               None \<Rightarrow> (c1, None)
             | Some q \<Rightarrow>
                 (case map_of (dir_blobs c1) (SHA256 e) of
                    Some b \<Rightarrow> if Ident b = blobIdentity then pinLocked p (SHA256 e) c1 else (c1, p)
                  | None \<Rightarrow> (c1, p)))"

definition Materialize ::
  "(bytes \<Rightarrow> string) \<Rightarrow> 32 word \<Rightarrow> (string \<Rightarrow> bool) \<Rightarrow> int \<Rightarrow> int \<Rightarrow> (string \<Rightarrow> cache_state \<Rightarrow> cache_state) \<Rightarrow>
     cache_state resolver" where
  "Materialize sha256hex umask rm now later meanwhile s dest e fs =
     (case materialize_open rm now e (fst s) of
        (c1, None) \<Rightarrow> ((c1, snd s), fs, Inr False)
      | (c1, Some b) \<Rightarrow>
          let s1 = meanwhile dest (c1, snd s)
          in (case materialize_copy sha256hex umask (Content b) dest e fs of
                (fs', Inl err) \<Rightarrow> (s1, fs', Inl err)
              | (fs', Inr verified) \<Rightarrow> (materialize_close rm later e (Ident b) verified s1, fs', Inr verified)))"

text \<open>\<open>Insert\<close>: \<open>src\<close> is what the source file holds when it is read, \<open>ident\<close> the identity of the
  temporary that is renamed to the blob's path.\<close>

definition Insert ::
  "(bytes \<Rightarrow> string) \<Rightarrow> (string \<Rightarrow> bool) \<Rightarrow> int \<Rightarrow> identity \<Rightarrow> bytes \<Rightarrow> string \<Rightarrow> int \<Rightarrow> cache_state \<Rightarrow>
     cache_state \<times> (cache_error + unit)" where
  "Insert sha256hex rm now ident src sha sz s =
     (case s of (c, p) \<Rightarrow>
        if \<not> validBlobHash sha \<or> sz < 0 \<or> sz > max_bytes c then (s, Inr ())
        else case copy_limited sz src False of
          (data, failed) \<Rightarrow>
            if int (length data) \<noteq> sz \<or> sha256hex data \<noteq> sha then (s, Inl ChangedWhileInserting)
            else
              let replaced = (case map_of (dir_blobs c) sha of None \<Rightarrow> 0 | Some b \<Rightarrow> blob_size b);
                  c1 = c\<lparr>dir_blobs := AList.update sha \<lparr>Content = data, ModTime = now, Ident = ident\<rparr> (dir_blobs c),
                         cache_bytes := cache_bytes c + (sz - replaced)\<rparr>
              in case pinLocked p sha c1 of (c2, p2) \<Rightarrow>
                 (case enforceSizeLocked rm c2 of
                    (c3, Inr _) \<Rightarrow> ((c3, p2), Inr ())
                  | (c3, Inl err) \<Rightarrow>
                      (case dropPinLocked p2 sha c3 of (c4, p4) \<Rightarrow>
                         if pinnedLocked c4 sha then ((c4, p4), Inl err)
                         else case map_of (dir_blobs c4) sha of
                                None \<Rightarrow> ((c4, p4), Inl err)
                              | Some b \<Rightarrow>
                                  if rm sha then ((remove_blob sha c4, p4), Inl err)
                                  else ((c4, p4), Inl RollbackFailed))))"

subsection \<open>The cache as the resolver of missing files\<close>

lemma materialize_copy_confined:
  assumes "manifest_ok os es" "e \<in> set es" "Type e = EntryFile" "within es fs"
  shows "confined es fs (materialize_copy sha256hex umask content (Path e) e fs)"
proof -
  let ?created = "syscallMode (Mode e) AND NOT umask"
  obtain fs1 r1 where mk: "MkdirAll umask (Dir (Path e)) 0x1ED fs = (fs1, r1)" by fastforce
  obtain fs2 r2 where cr: "create_node (Path e) (FFile [] ?created) fs1 = (fs2, r2)" by fastforce
  have c1: "confined es fs (fs1, r1)" using MkdirAll_parent_confined [OF assms(1,2,4)] mk by metis
  then have w1: "within es fs1" "grows fs fs1" by (simp_all add: confined_def)
  have al: "node_allowed es (Path e) (FFile b m)" for b m using assms(2,3) by (auto simp: node_allowed_def)
  have c2: "confined es fs1 (fs2, r2)" using create_node_confined [OF assms(1,2) w1(1) al] cr by metis
  have fin: "within es fs1 \<and> fs2 = fs1(Path e \<mapsto> FFile [] ?created) \<and> fs1 (Path e) = None" if "r2 = Inr u" for u
    using that cr w1(1) by (simp add: create_node_Inr)
  have undo: "confined es fs (fs2(Path e := None), Inr False)" if "r2 = Inr u" for u
    using fin [OF that] w1 by (auto simp: confined_def fun_upd_idem)
  have fill: "confined es fs (fs2(Path e \<mapsto> FFile d m), Inr True)" if "r2 = Inr u" for u d m
    using fin [OF that] w1 within_upd [OF w1(1) al] grows_trans [OF w1(2) grows_new]
    by (auto simp: confined_def)
  show ?thesis
    using c1 confined_step [OF c2 w1(2)] undo fill assms(4)
    by (auto simp: materialize_copy_def mk cr confined_def split: option.split sum.split prod.split)
qed

lemma Materialize_files:
  "snd (Materialize sha256hex umask rm now later meanwhile s dest e fs) = (fs, Inr False) \<or>
   (\<exists>content. snd (Materialize sha256hex umask rm now later meanwhile s dest e fs) = materialize_copy sha256hex umask content dest e fs)"
proof -
  obtain c1 h where o: "materialize_open rm now e (fst s) = (c1, h)" by fastforce
  show ?thesis
  proof (cases h)
    case None
    then show ?thesis using o by (simp add: Materialize_def)
  next
    case (Some b)
    obtain fs' r where "materialize_copy sha256hex umask (Content b) dest e fs = (fs', r)" by fastforce
    then have "snd (Materialize sha256hex umask rm now later meanwhile s dest e fs) =
        materialize_copy sha256hex umask (Content b) dest e fs"
      using o Some by (cases r) (simp_all add: Materialize_def Let_def)
    then show ?thesis by blast
  qed
qed

lemma Materialize_confined:
  assumes "manifest_ok os es" "e \<in> set es" "Type e = EntryFile" "within es fs"
  shows "confined es fs (snd (Materialize sha256hex umask rm now later meanwhile s (Path e) e fs))"
proof -
  have "confined es fs (fs, Inr False)" using assms(4) by (simp add: confined_def)
  then show ?thesis
    using Materialize_files [of sha256hex umask rm now later meanwhile s "Path e" e fs] materialize_copy_confined [OF assms] by metis
qed

lemma Materialize_placed:
  assumes "Materialize sha256hex umask rm now later meanwhile s (Path e) e fs = (s', fs', Inr True)" "Type e = EntryFile"
  shows "placed sha256hex e fs'"
proof -
  obtain content where "materialize_copy sha256hex umask content (Path e) e fs = (fs', Inr True)"
    using Materialize_files [of sha256hex umask rm now later meanwhile s "Path e" e fs] assms(1) by auto
  then show ?thesis
    using assms(2) by (auto simp: materialize_copy_def placed_def split: if_splits sum.splits prod.splits)
qed

interpretation snapshot_cache: blob_resolver "Materialize sha256hex umask rm now later meanwhile" sha256hex
  for sha256hex umask rm now later meanwhile
  by unfold_locales (rule Materialize_confined Materialize_placed; assumption)+

subsection \<open>The byte counter and the directory\<close>

definition blob_ok :: "string \<Rightarrow> blob \<Rightarrow> bool" where
  "blob_ok k b \<longleftrightarrow> validBlobHash k \<and> \<not> Identity_IsZero (Ident b) \<and> blob_size b \<noteq> MaxInt64"

definition cache_inv :: "blob_cache \<Rightarrow> bool" where
  "cache_inv c \<longleftrightarrow>
     distinct (map fst (dir_blobs c)) \<and> cache_bytes c = total_bytes (dir_blobs c) \<and>
     (\<forall>(k, b) \<in> set (dir_blobs c). blob_ok k b)"

text \<open>Only unpinned blobs went away; pins, configuration and the files of the others are as
  before. Times may have moved.\<close>

definition file_of :: "blob \<Rightarrow> bytes \<times> identity" where
  "file_of b = (Content b, Ident b)"

definition sheds :: "blob_cache \<Rightarrow> blob_cache \<Rightarrow> bool" where
  "sheds c c' \<longleftrightarrow>
     pins c' = pins c \<and> max_bytes c' = max_bytes c \<and> ttl c' = ttl c \<and>
     (\<forall>k. map_option file_of (map_of (dir_blobs c') k) = map_option file_of (map_of (dir_blobs c) k) \<or>
          (map_of (dir_blobs c') k = None \<and> \<not> pinnedLocked c k))"

lemma sheds_refl [simp]: "sheds c c"
  by (simp add: sheds_def)

lemma sheds_trans: "sheds a b \<Longrightarrow> sheds b c \<Longrightarrow> sheds a c"
  unfolding sheds_def pinnedLocked_def by (metis map_option_is_None)

lemma sheds_pinned:
  "sheds c c' \<Longrightarrow> pinnedLocked c k \<Longrightarrow>
     map_option file_of (map_of (dir_blobs c') k) = map_option file_of (map_of (dir_blobs c) k)"
  unfolding sheds_def by blast

lemma total_bytes_simps [simp]:
  "total_bytes [] = 0" "total_bytes ((k, b) # bs) = blob_size b + total_bytes bs"
  by (simp_all add: total_bytes_def)

lemma total_bytes_append [simp]: "total_bytes (xs @ ys) = total_bytes xs + total_bytes ys"
  by (simp add: total_bytes_def)

lemma total_bytes_delete:
  "distinct (map fst bs) \<Longrightarrow>
   total_bytes (AList.delete k bs) =
     total_bytes bs - (case map_of bs k of None \<Rightarrow> 0 | Some b \<Rightarrow> blob_size b)"
proof (induction bs)
  case (Cons x bs)
  obtain a b where x: "x = (a, b)" by fastforce
  have "map_of bs k = None" if "a = k" using that Cons.prems x by (auto simp: map_of_eq_None_iff)
  then show ?case using Cons x by (auto simp: AList.delete_eq split: option.splits)
qed simp

lemma total_bytes_update:
  "distinct (map fst bs) \<Longrightarrow>
   total_bytes (AList.update k v bs) =
     total_bytes bs + (blob_size v - (case map_of bs k of None \<Rightarrow> 0 | Some b \<Rightarrow> blob_size b))"
proof (induction bs)
  case (Cons x bs)
  obtain a b where x: "x = (a, b)" by fastforce
  have "map_of bs k = None" if "a = k" using that Cons.prems x by (auto simp: map_of_eq_None_iff)
  then show ?case using Cons x by (auto split: option.splits)
qed simp

lemma total_bytes_filter_split:
  "total_bytes (filter P bs) + total_bytes (filter (\<lambda>x. \<not> P x) bs) = total_bytes bs"
  by (induction bs) auto

lemma total_bytes_mset: "mset xs = mset ys \<Longrightarrow> total_bytes xs = total_bytes ys"
proof -
  assume "mset xs = mset ys"
  then have "mset (map (\<lambda>(k, b). blob_size b) xs) = mset (map (\<lambda>(k, b). blob_size b) ys)" by simp
  then have "sum_mset (mset (map (\<lambda>(k, b). blob_size b) xs)) = sum_mset (mset (map (\<lambda>(k, b). blob_size b) ys))"
    by (rule arg_cong)
  then show ?thesis by (simp only: total_bytes_def sum_mset_sum_list)
qed

lemma remove_blob_inv:
  assumes "cache_inv c"
  shows "cache_inv (remove_blob k c)"
proof -
  have "set (AList.delete k (dir_blobs c)) \<subseteq> set (dir_blobs c)" by (auto simp: AList.delete_eq)
  then show ?thesis
    using assms total_bytes_delete [of "dir_blobs c" k] AList.distinct_delete [of "dir_blobs c" k]
    by (auto simp: cache_inv_def remove_blob_def)
qed

lemma remove_blob_sheds: "\<not> pinnedLocked c k \<Longrightarrow> sheds c (remove_blob k c)"
  by (auto simp: sheds_def remove_blob_def AList.delete_conv')

lemma removal_step:
  assumes "cache_inv c" "map_of (dir_blobs c) k = Some b"
  shows "c\<lparr>dir_blobs := AList.delete k (dir_blobs c), cache_bytes := cache_bytes c - blob_size b\<rparr> = remove_blob k c"
  using assms by (simp add: remove_blob_def)

lemma map_of_touched:
  "map_of (map (\<lambda>(k, b). (k, if k = s then f b else b)) bs) k =
     map_option (\<lambda>b. if k = s then f b else b) (map_of bs k)"
  by (induction bs) auto

lemma touch_inv:
  assumes "cache_inv c"
  shows "cache_inv (touch k now c)"
proof -
  let ?f = "\<lambda>(x, b). (x, if x = k then b\<lparr>ModTime := now\<rparr> else b)"
  have "total_bytes (map ?f bs) = total_bytes bs" "map fst (map ?f bs) = map fst bs" for bs
    by (induction bs) auto
  moreover have "\<forall>(x, b) \<in> set (map ?f (dir_blobs c)).
      blob_ok x b"
    using assms by (auto simp: cache_inv_def blob_ok_def split: if_splits)
  ultimately show ?thesis
    using assms by (simp add: cache_inv_def touch_def del: map_map)
qed

lemma touch_sheds: "sheds c (touch k now c)"
  by (auto simp: sheds_def touch_def map_of_touched option.map_comp file_of_def intro!: disjI1 option.map_cong)

lemma inv_member:
  "cache_inv c \<Longrightarrow> map_of (dir_blobs c) k = Some b \<longleftrightarrow> (k, b) \<in> set (dir_blobs c)"
  by (simp add: cache_inv_def)

lemma walk_inv: "cache_inv c \<Longrightarrow> walkLocked c = Inr (length (dir_blobs c), cache_bytes c)"
  by (auto simp: walkLocked_def cache_inv_def blob_ok_def list_all_iff)

lemma fold_remove_inv: "cache_inv c \<Longrightarrow> cache_inv (fold remove_blob ks c)"
  by (induction ks arbitrary: c) (simp_all add: remove_blob_inv)

lemma remove_blob_pins [simp]:
  "pins (remove_blob k c) = pins c" "max_bytes (remove_blob k c) = max_bytes c" "ttl (remove_blob k c) = ttl c"
  "dir_temps (remove_blob k c) = dir_temps c"
  by (simp_all add: remove_blob_def)

lemma fold_remove_pins [simp]:
  "pins (fold remove_blob ks c) = pins c" "max_bytes (fold remove_blob ks c) = max_bytes c"
  "ttl (fold remove_blob ks c) = ttl c" "dir_temps (fold remove_blob ks c) = dir_temps c"
  by (induction ks arbitrary: c) simp_all

lemma fold_remove_blobs:
  "dir_blobs (fold remove_blob ks c) = filter (\<lambda>(k, b). k \<notin> set ks) (dir_blobs c)"
proof (induction ks arbitrary: c)
  case (Cons k ks)
  then show ?case by (simp add: remove_blob_def AList.delete_eq) (rule filter_cong, auto)
qed (simp add: case_prod_unfold)

lemma map_of_filter_keys:
  "map_of (filter (\<lambda>(k, b). P k) bs) k = (if P k then map_of bs k else None)"
  by (induction bs) auto

lemma fold_remove_sheds:
  "\<forall>k \<in> set ks. \<not> pinnedLocked c k \<Longrightarrow> sheds c (fold remove_blob ks c)"
  by (auto simp: sheds_def fold_remove_blobs map_of_filter_keys [of "\<lambda>k. k \<notin> set ks"])

lemma add_gc_step:
  "add_gc (r\<lparr>RemovedBlobs := Suc (RemovedBlobs r), FreedBytes := FreedBytes r + m\<rparr>) \<lparr>RemovedBlobs = n, FreedBytes = t\<rparr> =
   add_gc r \<lparr>RemovedBlobs = Suc n, FreedBytes = m + t\<rparr>"
  by (simp add: add_gc_def)

lemma add_gc_zero [simp]: "add_gc r \<lparr>RemovedBlobs = 0, FreedBytes = 0\<rparr> = r" "add_gc no_gc r = r"
  by (simp_all add: add_gc_def no_gc_def)

text \<open>The loop removes a prefix of the candidates, as long as the cache is over the target.\<close>

lemma evict_loop_prefix:
  assumes "cache_inv c" "distinct (map fst bs)" "\<forall>(k, b) \<in> set bs. map_of (dir_blobs c) k = Some b"
  shows "\<exists>n x. n \<le> length bs \<and>
    evict_loop rm target bs c r =
      (fold remove_blob (map fst (take n bs)) c,
       add_gc r \<lparr>RemovedBlobs = n, FreedBytes = total_bytes (take n bs)\<rparr>, x) \<and>
    cache_bytes (fold remove_blob (map fst (take n bs)) c) = cache_bytes c - total_bytes (take n bs) \<and>
    (is_ok x \<longrightarrow> n = length bs \<or> cache_bytes c - total_bytes (take n bs) \<le> target) \<and>
    (\<forall>i < n. cache_bytes c - total_bytes (take i bs) > target) \<and> ((\<forall>k. rm k) \<longrightarrow> is_ok x)"
  using assms
proof (induction bs arbitrary: c r)
  case (Cons y bs)
  obtain k b where y: "y = (k, b)" by fastforce
  have kb: "map_of (dir_blobs c) k = Some b" using Cons.prems(3) y by simp
  note step = removal_step [OF Cons.prems(1) kb]
  show ?case
  proof (cases "cache_bytes c \<le> target \<or> \<not> rm k")
    case True
    then show ?thesis by (intro exI [of _ 0]) (auto simp: y)
  next
    case False
    let ?r = "r\<lparr>RemovedBlobs := RemovedBlobs r + 1, FreedBytes := FreedBytes r + blob_size b\<rparr>"
    have "\<forall>(k', b') \<in> set bs. map_of (dir_blobs (remove_blob k c)) k' = Some b'"
      using Cons.prems(2,3) y by (force simp: remove_blob_def AList.delete_conv')
    from Cons.IH [OF remove_blob_inv [OF Cons.prems(1)] _ this, of ?r] Cons.prems(2) y
    obtain n x where n: "n \<le> length bs"
      "evict_loop rm target bs (remove_blob k c) ?r =
        (fold remove_blob (map fst (take n bs)) (remove_blob k c),
         add_gc ?r \<lparr>RemovedBlobs = n, FreedBytes = total_bytes (take n bs)\<rparr>, x)"
      "cache_bytes (fold remove_blob (map fst (take n bs)) (remove_blob k c)) =
        cache_bytes (remove_blob k c) - total_bytes (take n bs)"
      "is_ok x \<longrightarrow> n = length bs \<or> cache_bytes (remove_blob k c) - total_bytes (take n bs) \<le> target"
      "\<forall>i < n. cache_bytes (remove_blob k c) - total_bytes (take i bs) > target" "(\<forall>k. rm k) \<longrightarrow> is_ok x"
      by auto
    have size: "cache_bytes (remove_blob k c) = cache_bytes c - blob_size b" using kb by (simp add: remove_blob_def)
    have "cache_bytes c - total_bytes (take i (y # bs)) > target" if "i < Suc n" for i
      using that n(5) False size y by (cases i) auto
    then show ?thesis
      using n False size step y by (intro exI [of _ "Suc n"] exI [of _ x]) (auto simp: add_gc_step)
  qed
qed simp

lemma eviction_order_facts:
  assumes "cache_inv c"
  shows "distinct (map fst (eviction_order c (dir_blobs c)))"
    "(k, b) \<in> set (eviction_order c (dir_blobs c)) \<longleftrightarrow> map_of (dir_blobs c) k = Some b \<and> \<not> pinnedLocked c k"
    "sorted (map (\<lambda>(k, b). (ModTime b, k)) (eviction_order c (dir_blobs c)))"
proof -
  have d: "distinct (map fst (dir_blobs c))" using assms by (simp add: cache_inv_def)
  then show "distinct (map fst (eviction_order c (dir_blobs c)))"
    unfolding eviction_order_def by (rule distinct_by_key)
  show "(k, b) \<in> set (eviction_order c (dir_blobs c)) \<longleftrightarrow> map_of (dir_blobs c) k = Some b \<and> \<not> pinnedLocked c k"
    using inv_member [OF assms] by (auto simp: eviction_order_def)
  show "sorted (map (\<lambda>(k, b). (ModTime b, k)) (eviction_order c (dir_blobs c)))"
    by (simp add: eviction_order_def)
qed

text \<open>What one round of eviction leaves.\<close>

definition evicted :: "blob_cache \<Rightarrow> nat \<Rightarrow> blob_cache" where
  "evicted c n = fold remove_blob (map fst (take n (eviction_order c (dir_blobs c)))) c"

lemma evict_result:
  assumes "cache_inv c" "evictOverLocked rm c = (c', r, x)"
  shows "\<exists>n \<le> length (eviction_order c (dir_blobs c)). c' = evicted c n \<and>
    r = \<lparr>RemovedBlobs = n, FreedBytes = total_bytes (take n (eviction_order c (dir_blobs c)))\<rparr> \<and>
    (is_ok x \<longrightarrow> cache_bytes c' \<le> max_bytes c \<or> n = length (eviction_order c (dir_blobs c)))"
proof (cases "cache_bytes c \<le> max_bytes c")
  case True
  then show ?thesis using assms(2) by (intro exI [of _ 0]) (auto simp: evictOverLocked_def evicted_def no_gc_def)
next
  case False
  let ?bs = "eviction_order c (dir_blobs c)"
  have call: "evict_loop rm (evict_target (max_bytes c)) ?bs c no_gc = (c', r, x)"
    using assms(2) False walk_inv [OF assms(1)] by (simp add: evictOverLocked_def)
  have "\<forall>(k, b) \<in> set ?bs. map_of (dir_blobs c) k = Some b" using eviction_order_facts(2) [OF assms(1)] by auto
  from evict_loop_prefix [OF assms(1) eviction_order_facts(1) [OF assms(1)] this, of rm "evict_target (max_bytes c)" no_gc] call
  obtain n where n: "n \<le> length ?bs" "c' = fold remove_blob (map fst (take n ?bs)) c"
    "r = \<lparr>RemovedBlobs = n, FreedBytes = total_bytes (take n ?bs)\<rparr>"
    "cache_bytes c' = cache_bytes c - total_bytes (take n ?bs)"
    "is_ok x \<longrightarrow> n = length ?bs \<or> cache_bytes c - total_bytes (take n ?bs) \<le> evict_target (max_bytes c)"
    by auto
  have "evict_target (max_bytes c) \<le> max_bytes c" by (simp add: evict_target_def pos_imp_zdiv_nonneg_iff)
  then show ?thesis using n by (intro exI [of _ n]) (auto simp: evicted_def)
qed

lemma evicted_facts:
  assumes "cache_inv c"
  shows "cache_inv (evicted c n)" "sheds c (evicted c n)"
proof -
  show "cache_inv (evicted c n)" unfolding evicted_def by (rule fold_remove_inv [OF assms])
  have "\<forall>k \<in> set (map fst (take n (eviction_order c (dir_blobs c)))). \<not> pinnedLocked c k"
    by (auto simp: eviction_order_def dest!: in_set_takeD)
  then show "sheds c (evicted c n)" unfolding evicted_def by (rule fold_remove_sheds)
qed

lemma enforce_facts:
  assumes "cache_inv c" "enforceSizeLocked rm c = (c', x)"
  shows "cache_inv c' \<and> sheds c c'"
proof -
  obtain r where "evictOverLocked rm c = (c', r, x)" using assms(2) by (auto simp: enforceSizeLocked_def split: prod.splits)
  then show ?thesis using evict_result [OF assms(1)] evicted_facts [OF assms(1)] by blast
qed

subsection \<open>Collection and its dry run\<close>

definition stale :: "blob_cache \<Rightarrow> int \<Rightarrow> (string \<times> blob) \<Rightarrow> bool" where
  "stale c now = (\<lambda>(k, b). expired c b now \<and> \<not> pinnedLocked c k)"

lemma stale_same: "pins c' = pins c \<Longrightarrow> ttl c' = ttl c \<Longrightarrow> stale c' now = stale c now"
  by (auto simp: stale_def expired_def pinnedLocked_def)

lemma expire_walk_result:
  assumes "cache_inv c" "distinct (map fst bs)" "\<forall>(k, b) \<in> set bs. map_of (dir_blobs c) k = Some b"
  shows "\<exists>n x. expire_walk rm now bs c r bytes =
      (fold remove_blob (map fst (filter (stale c now) (take n bs))) c,
       add_gc r \<lparr>RemovedBlobs = length (filter (stale c now) (take n bs)),
                 FreedBytes = total_bytes (filter (stale c now) (take n bs))\<rparr>, x) \<and>
    (\<forall>m. x = Inr m \<longrightarrow> n = length bs \<and> m = bytes + total_bytes (filter (\<lambda>y. \<not> stale c now y) bs)) \<and>
    ((\<forall>k. rm k) \<longrightarrow> is_ok x)"
  using assms
proof (induction bs arbitrary: c r bytes)
  case (Cons y bs)
  obtain k b where y: "y = (k, b)" by fastforce
  have kb: "map_of (dir_blobs c) k = Some b" using Cons.prems(3) y by simp
  then have val: "validBlobHash k" using Cons.prems(1) by (auto simp: cache_inv_def blob_ok_def dest: map_of_SomeD)
  note step = removal_step [OF Cons.prems(1) kb]
  consider (keep) "\<not> stale c now y" | (fail) "stale c now y" "\<not> rm k" | (drop) "stale c now y" "rm k" by blast
  then show ?case
  proof cases
    case keep
    obtain n x where n: "expire_walk rm now bs c r (bytes + blob_size b) =
      (fold remove_blob (map fst (filter (stale c now) (take n bs))) c,
       add_gc r \<lparr>RemovedBlobs = length (filter (stale c now) (take n bs)),
                 FreedBytes = total_bytes (filter (stale c now) (take n bs))\<rparr>, x)"
      "\<forall>m. x = Inr m \<longrightarrow> n = length bs \<and> m = bytes + blob_size b + total_bytes (filter (\<lambda>y. \<not> stale c now y) bs)"
      "(\<forall>k. rm k) \<longrightarrow> is_ok x"
      using Cons.IH [OF Cons.prems(1), of r "bytes + blob_size b"] Cons.prems(2,3) by auto
    have eq: "expire_walk rm now (y # bs) c r bytes = expire_walk rm now bs c r (bytes + blob_size b)"
      using keep y val by (auto simp: stale_def)
    have "filter (stale c now) (take (Suc n) (y # bs)) = filter (stale c now) (take n bs)"
      "total_bytes (filter (\<lambda>y. \<not> stale c now y) (y # bs)) = blob_size b + total_bytes (filter (\<lambda>y. \<not> stale c now y) bs)"
      using keep y by simp_all
    then show ?thesis
      unfolding eq n(1) using n(2,3) by (intro exI [of _ "Suc n"] exI [of _ x]) (simp add: algebra_simps)
  next
    case fail
    then show ?thesis using y val by (intro exI [of _ 0] exI [of _ "Inl RemoveFailed"]) (auto simp: stale_def)
  next
    case drop
    let ?c = "remove_blob k c"
    let ?r = "r\<lparr>RemovedBlobs := Suc (RemovedBlobs r), FreedBytes := FreedBytes r + blob_size b\<rparr>"
    have st: "stale ?c now = stale c now" by (rule stale_same) simp_all
    have "\<forall>(k', b') \<in> set bs. map_of (dir_blobs ?c) k' = Some b'"
      using Cons.prems(2,3) y by (force simp: remove_blob_def AList.delete_conv')
    with Cons.IH [OF remove_blob_inv [OF Cons.prems(1)], of k ?r bytes] Cons.prems(2)
    obtain n x where n: "expire_walk rm now bs ?c ?r bytes =
      (fold remove_blob (map fst (filter (stale c now) (take n bs))) ?c,
       add_gc ?r \<lparr>RemovedBlobs = length (filter (stale c now) (take n bs)),
                 FreedBytes = total_bytes (filter (stale c now) (take n bs))\<rparr>, x)"
      "\<forall>m. x = Inr m \<longrightarrow> n = length bs \<and> m = bytes + total_bytes (filter (\<lambda>y. \<not> stale c now y) bs)"
      "(\<forall>k. rm k) \<longrightarrow> is_ok x"
      unfolding st by auto
    have eq: "expire_walk rm now (y # bs) c r bytes = expire_walk rm now bs ?c ?r bytes"
      using drop y val step by (simp add: stale_def)
    have "filter (stale c now) (take (Suc n) (y # bs)) = y # filter (stale c now) (take n bs)"
      "filter (\<lambda>y. \<not> stale c now y) (y # bs) = filter (\<lambda>y. \<not> stale c now y) bs"
      using drop by simp_all
    then show ?thesis
      unfolding eq n(1) using n(2,3) y by (intro exI [of _ "Suc n"] exI [of _ x]) (simp add: add_gc_step)
  qed
qed (intro exI [of _ 0], simp)

definition expired_out :: "blob_cache \<Rightarrow> int \<Rightarrow> nat \<Rightarrow> blob_cache" where
  "expired_out c now n = fold remove_blob (map fst (filter (stale c now) (take n (dir_blobs c)))) c"

lemma expired_out_facts:
  assumes "cache_inv c"
  shows "cache_inv (expired_out c now n)" "sheds c (expired_out c now n)"
proof -
  show "cache_inv (expired_out c now n)" unfolding expired_out_def by (rule fold_remove_inv [OF assms])
  have "\<forall>k \<in> set (map fst (filter (stale c now) (take n (dir_blobs c)))). \<not> pinnedLocked c k"
    by (auto simp: stale_def)
  then show "sheds c (expired_out c now n)" unfolding expired_out_def by (rule fold_remove_sheds)
qed

lemma expired_out_all:
  assumes "cache_inv c"
  shows "dir_blobs (expired_out c now (length (dir_blobs c))) = filter (\<lambda>y. \<not> stale c now y) (dir_blobs c)"
proof -
  have d: "distinct (map fst (dir_blobs c))" using assms by (simp add: cache_inv_def)
  have "k \<notin> fst ` set (filter (stale c now) (dir_blobs c)) \<longleftrightarrow> \<not> stale c now (k, b)"
    if kb: "(k, b) \<in> set (dir_blobs c)" for k b
  proof -
    have "stale c now (k, b)" if "(k, b') \<in> set (dir_blobs c)" "stale c now (k, b')" for b'
      using eq_key_imp_eq_value [OF d kb that(1)] that(2) by simp
    then show ?thesis using kb by (auto simp: image_iff)
  qed
  then show ?thesis
    unfolding expired_out_def fold_remove_blobs by (intro filter_cong) auto
qed

lemma inv_temps: "cache_inv (c\<lparr>dir_temps := ts\<rparr>) = cache_inv c" "sheds c (c\<lparr>dir_temps := ts\<rparr>)"
  by (simp_all add: cache_inv_def sheds_def)

lemma GC_result:
  assumes "cache_inv c" "GC rm now c = (c', r, x)"
  shows "cache_inv c' \<and> sheds c c'"
proof -
  obtain ts y where temps: "cleanup_temps rm (dir_temps c) 0 = (ts, y)" by fastforce
  let ?c = "c\<lparr>dir_temps := ts\<rparr>"
  have inv: "cache_inv ?c" using assms(1) by (simp add: inv_temps)
  show ?thesis
  proof (cases y)
    case (Inl e)
    then show ?thesis using assms temps inv by (auto simp: GC_def inv_temps)
  next
    case (Inr tempBytes)
    have members: "distinct (map fst (dir_blobs ?c))" "\<forall>(k, b) \<in> set (dir_blobs ?c). map_of (dir_blobs ?c) k = Some b"
      using inv by (auto simp: cache_inv_def)
    let ?r = "no_gc\<lparr>FreedBytes := tempBytes\<rparr>"
    obtain n r1 z where walk: "expire_walk rm now (dir_blobs ?c) ?c ?r 0 = (expired_out ?c now n, r1, z)"
      and full: "\<forall>m. z = Inr m \<longrightarrow> n = length (dir_blobs ?c) \<and> m = total_bytes (filter (\<lambda>y. \<not> stale ?c now y) (dir_blobs ?c))"
      using expire_walk_result [OF inv members, of rm now ?r 0] by (auto simp: expired_out_def)
    note out = expired_out_facts [OF inv, of now n]
    have first: "sheds c (expired_out ?c now n)" using sheds_trans [OF inv_temps(2) out(2)] .
    show ?thesis
    proof (cases z)
      case (Inl e)
      then show ?thesis using assms(2) temps Inr walk out first by (auto simp: GC_def)
    next
      case bytes: (Inr m)
      have "m = total_bytes (dir_blobs (expired_out ?c now n))"
        using full bytes expired_out_all [OF inv, of now] by simp
      also have "\<dots> = cache_bytes (expired_out ?c now n)" using out(1) by (simp add: cache_inv_def)
      finally have same: "(expired_out ?c now n)\<lparr>cache_bytes := m\<rparr> = expired_out ?c now n" by simp
      obtain r2 where "evictOverLocked rm (expired_out ?c now n) = (c', r2, x)"
        using assms(2) temps Inr walk bytes same by (auto simp: GC_def split: prod.splits)
      then obtain k where "c' = evicted (expired_out ?c now n) k" using evict_result [OF out(1)] by blast
      then show ?thesis using evicted_facts [OF out(1)] sheds_trans [OF first] by blast
    qed
  qed
qed

lemma cleanup_all: "(\<forall>k. rm k) \<Longrightarrow>
    cleanup_temps rm ts freed = ([], Inr (freed + (\<Sum>(name, data) \<leftarrow> ts. int (length data))))"
  by (induction ts arbitrary: freed) auto

lemma evict_loop_plan:
  "(\<forall>k. rm k) \<Longrightarrow> \<exists>c'. evict_loop rm target bs c r = (c', plan_evict target bs (cache_bytes c) r, Inr ())"
proof (induction bs arbitrary: c r)
  case (Cons y bs)
  obtain k b where y: "y = (k, b)" by fastforce
  show ?case
    using Cons.prems Cons.IH [of "c\<lparr>dir_blobs := AList.delete k (dir_blobs c), cache_bytes := cache_bytes c - blob_size b\<rparr>"
        "r\<lparr>RemovedBlobs := RemovedBlobs r + 1, FreedBytes := FreedBytes r + blob_size b\<rparr>"]
    by (simp add: y)
qed simp

lemma evict_plan:
  assumes "cache_inv c" "\<forall>k. rm k"
  shows "\<exists>c'. evictOverLocked rm c = (c', if cache_bytes c \<le> max_bytes c then no_gc
    else plan_evict (evict_target (max_bytes c)) (eviction_order c (dir_blobs c)) (cache_bytes c) no_gc, Inr ())"
  using evict_loop_plan [OF assms(2), of "evict_target (max_bytes c)" "eviction_order c (dir_blobs c)" c no_gc]
    walk_inv [OF assms(1)]
  by (auto simp: evictOverLocked_def)

lemma plan_evict_add:
  "plan_evict target bs remaining (add_gc r s) = add_gc r (plan_evict target bs remaining s)"
proof (induction bs arbitrary: remaining s)
  case (Cons y bs)
  have "(add_gc r s)\<lparr>RemovedBlobs := RemovedBlobs (add_gc r s) + 1, FreedBytes := FreedBytes (add_gc r s) + m\<rparr> =
      add_gc r (s\<lparr>RemovedBlobs := RemovedBlobs s + 1, FreedBytes := FreedBytes s + m\<rparr>)" for m
    by (simp add: add_gc_def)
  then show ?case using Cons by (cases y) simp
qed simp

lemma length_delete:
  "distinct (map fst bs) \<Longrightarrow> map_of bs k = Some b \<Longrightarrow> length (AList.delete k bs) + 1 = length bs"
proof (induction bs)
  case (Cons x bs)
  obtain a v where x: "x = (a, v)" by fastforce
  show ?case
  proof (cases "a = k")
    case True
    then have "k \<notin> fst ` set bs" using Cons.prems(1) x by auto
    then have "filter (\<lambda>(k', _). k \<noteq> k') bs = bs" by (intro filter_True) force
    then show ?thesis using True x by (simp add: AList.delete_eq)
  next
    case False
    then show ?thesis using Cons x by (auto simp: AList.delete_eq)
  qed
qed simp

text \<open>Removing listed blobs takes their number and their bytes off the directory.\<close>

lemma fold_remove_total:
  assumes "cache_inv c" "distinct (map fst bs)" "\<forall>(k, b) \<in> set bs. map_of (dir_blobs c) k = Some b"
  shows "length (dir_blobs (fold remove_blob (map fst bs) c)) + length bs = length (dir_blobs c) \<and>
    total_bytes (dir_blobs (fold remove_blob (map fst bs) c)) + total_bytes bs = total_bytes (dir_blobs c)"
  using assms
proof (induction bs arbitrary: c)
  case (Cons y bs)
  obtain k b where y: "y = (k, b)" by fastforce
  have kb: "map_of (dir_blobs c) k = Some b" and d: "distinct (map fst (dir_blobs c))"
    using Cons.prems(1,3) y by (auto simp: cache_inv_def)
  have "\<forall>(k', b') \<in> set bs. map_of (dir_blobs (remove_blob k c)) k' = Some b'"
    using Cons.prems(2,3) y by (force simp: remove_blob_def AList.delete_conv')
  from Cons.IH [OF remove_blob_inv [OF Cons.prems(1)] _ this] Cons.prems(2) y
  have "length (dir_blobs (fold remove_blob (map fst bs) (remove_blob k c))) + length bs = length (dir_blobs (remove_blob k c))"
    "total_bytes (dir_blobs (fold remove_blob (map fst bs) (remove_blob k c))) + total_bytes bs =
      total_bytes (dir_blobs (remove_blob k c))" by simp_all
  moreover have "length (dir_blobs (remove_blob k c)) + 1 = length (dir_blobs c)"
    using length_delete [OF d kb] by (simp add: remove_blob_def)
  moreover have "total_bytes (dir_blobs (remove_blob k c)) = total_bytes (dir_blobs c) - blob_size b"
    using total_bytes_delete [OF d, of k] kb by (simp add: remove_blob_def)
  ultimately show ?case by (simp add: y)
qed simp

text \<open>What a collection leaves behind, by its report.\<close>

definition collected :: "blob_cache \<Rightarrow> int \<Rightarrow> blob_cache \<Rightarrow> gc_result \<Rightarrow> bool" where
  "collected c now c' r \<longleftrightarrow>
     dir_temps c' = [] \<and> set (dir_blobs c') \<subseteq> set (dir_blobs c) \<and>
     length (dir_blobs c) = length (dir_blobs c') + RemovedBlobs r \<and>
     total_bytes (dir_blobs c) + (\<Sum>(name, data) \<leftarrow> dir_temps c. int (length data)) = total_bytes (dir_blobs c') + FreedBytes r \<and>
     cache_bytes c' = total_bytes (dir_blobs c') \<and>
     (\<forall>(k, b) \<in> set (dir_blobs c). pinnedLocked c k \<longrightarrow> (k, b) \<in> set (dir_blobs c')) \<and>
     (\<forall>(k, b) \<in> set (dir_blobs c'). expired c b now \<longrightarrow> pinnedLocked c k) \<and>
     (cache_bytes c' \<le> max_bytes c \<or> (\<forall>(k, b) \<in> set (dir_blobs c'). pinnedLocked c k))"

lemma collected_evicted:
  fixes c :: blob_cache
  assumes "cache_inv c" "dir_temps c = []" "\<forall>y \<in> set (dir_blobs c). \<not> stale c now y"
    and "n \<le> length (eviction_order c (dir_blobs c))"
    and "cache_bytes (evicted c n) \<le> max_bytes c \<or> n = length (eviction_order c (dir_blobs c))"
  shows "collected c now (evicted c n) \<lparr>RemovedBlobs = n, FreedBytes = total_bytes (take n (eviction_order c (dir_blobs c)))\<rparr>"
proof -
  let ?bs = "eviction_order c (dir_blobs c)"
  note order = eviction_order_facts [OF assms(1)]
  have mem: "\<forall>(k, b) \<in> set (take n ?bs). map_of (dir_blobs c) k = Some b" using order(2) by (auto dest!: in_set_takeD)
  have "distinct (map fst (take n ?bs))" using order(1) by (simp add: take_map [symmetric])
  note total = fold_remove_total [OF assms(1) this mem, folded evicted_def]
  have blobs: "dir_blobs (evicted c n) = filter (\<lambda>(k, b). k \<notin> fst ` set (take n ?bs)) (dir_blobs c)"
    by (simp add: evicted_def fold_remove_blobs)
  have pinned: "k \<notin> fst ` set (take n ?bs)" if "pinnedLocked c k" for k using that order(2) by (auto dest!: in_set_takeD)
  have "pinnedLocked c k" if "(k, b) \<in> set (dir_blobs (evicted c n))" "n = length ?bs" for k b
  proof (rule ccontr)
    assume "\<not> pinnedLocked c k"
    then have "(k, b) \<in> set ?bs" using that(1) order(2) inv_member [OF assms(1)] by (auto simp: blobs)
    then have "k \<in> fst ` set (take n ?bs)" using that(2) by (simp add: image_iff) force
    then show False using that(1) unfolding blobs by auto
  qed
  moreover have "cache_bytes (evicted c n) = total_bytes (dir_blobs (evicted c n))"
    using evicted_facts(1) [OF assms(1), of n] by (simp add: cache_inv_def)
  moreover have "dir_temps (evicted c n) = []" using assms(2) by (simp add: evicted_def)
  moreover have "expired c b now \<longrightarrow> pinnedLocked c k" if "(k, b) \<in> set (dir_blobs (evicted c n))" for k b
    using that assms(3) by (auto simp: blobs stale_def)
  moreover have "set (dir_blobs (evicted c n)) \<subseteq> set (dir_blobs c)" by (auto simp: blobs)
  moreover have "(k, b) \<in> set (dir_blobs (evicted c n))" if "(k, b) \<in> set (dir_blobs c)" "pinnedLocked c k" for k b
    using that pinned unfolding blobs by simp
  moreover have "length (take n ?bs) = n" using assms(4) by simp
  ultimately show ?thesis
    unfolding collected_def using total assms(2,5) by (intro conjI) auto
qed

lemma collected_expired:
  assumes "cache_inv c" "collected (expired_out (c\<lparr>dir_temps := []\<rparr>) now (length (dir_blobs c))) now c' r"
  shows "collected c now c' (add_gc \<lparr>RemovedBlobs = length (filter (stale c now) (dir_blobs c)),
    FreedBytes = (\<Sum>(name, data) \<leftarrow> dir_temps c. int (length data)) + total_bytes (filter (stale c now) (dir_blobs c))\<rparr> r)"
proof -
  let ?c = "c\<lparr>dir_temps := []\<rparr>"
  let ?out = "expired_out ?c now (length (dir_blobs c))"
  have inv: "cache_inv ?c" and st: "stale ?c now = stale c now"
    using assms(1) stale_same [of ?c c now] by (simp_all add: inv_temps)
  have blobs: "dir_blobs ?out = filter (\<lambda>y. \<not> stale c now y) (dir_blobs c)" using expired_out_all [OF inv, of now] st by simp
  have "length (dir_blobs ?out) + length (filter (stale c now) (dir_blobs c)) = length (dir_blobs c)"
    unfolding blobs using sum_length_filter_compl [of "stale c now" "dir_blobs c"] by simp
  moreover have "total_bytes (dir_blobs ?out) + total_bytes (filter (stale c now) (dir_blobs c)) = total_bytes (dir_blobs c)"
    unfolding blobs using total_bytes_filter_split [of "stale c now" "dir_blobs c"] by simp
  moreover have "(k, b) \<in> set (dir_blobs c')" if "(k, b) \<in> set (dir_blobs c)" "pinnedLocked c k" for k b
  proof -
    have "(k, b) \<in> set (dir_blobs ?out)" using that unfolding blobs by (simp add: stale_def)
    moreover have "pinnedLocked ?out k" using that(2) by (simp add: expired_out_def pinnedLocked_def)
    ultimately show ?thesis using assms(2) unfolding collected_def by blast
  qed
  moreover have "pinnedLocked ?out = pinnedLocked c" "max_bytes ?out = max_bytes c" "dir_temps ?out = []"
    "expired ?out = expired c"
    by (auto simp: expired_out_def pinnedLocked_def expired_def fun_eq_iff)
  moreover have "set (dir_blobs ?out) \<subseteq> set (dir_blobs c)" by (auto simp: blobs)
  ultimately show ?thesis using assms(2) by (auto simp: collected_def add_gc_def)
qed

lemma plan_GC:
  assumes "cache_inv c" "\<forall>k. rm k"
  shows "\<exists>c' r. GC rm now c = (c', r, Inr ()) \<and> planGCLocked now c = Inr r \<and> collected c now c' r"
proof -
  let ?c = "c\<lparr>dir_temps := []\<rparr>"
  let ?temp = "\<Sum>(name, data) \<leftarrow> dir_temps c. int (length data)"
  let ?r = "no_gc\<lparr>FreedBytes := ?temp\<rparr>"
  let ?old = "filter (stale c now) (dir_blobs c)"
  let ?kept = "filter (\<lambda>y. \<not> stale c now y) (dir_blobs c)"
  have inv: "cache_inv ?c" and st: "stale ?c now = stale c now"
    using assms(1) stale_same [of ?c c now] by (simp_all add: inv_temps)
  have members: "distinct (map fst (dir_blobs ?c))" "\<forall>(k, b) \<in> set (dir_blobs ?c). map_of (dir_blobs ?c) k = Some b"
    using inv by (auto simp: cache_inv_def)
  let ?out = "expired_out ?c now (length (dir_blobs ?c))"
  let ?r1 = "add_gc ?r \<lparr>RemovedBlobs = length ?old, FreedBytes = total_bytes ?old\<rparr>"
  have walk: "expire_walk rm now (dir_blobs ?c) ?c ?r 0 = (?out, ?r1, Inr (total_bytes ?kept))"
    using expire_walk_result [OF inv members, of rm now ?r 0] assms(2) unfolding st
    by (fastforce simp: expired_out_def st is_ok_iff)
  note out = expired_out_facts(1) [OF inv, of now "length (dir_blobs ?c)"]
  have blobs: "dir_blobs ?out = ?kept" using expired_out_all [OF inv, of now] st by simp
  then have bytes: "cache_bytes ?out = total_bytes ?kept" using out by (simp add: cache_inv_def)
  have remaining: "total_bytes (dir_blobs c) - total_bytes ?old = total_bytes ?kept"
    using total_bytes_filter_split [of "stale c now" "dir_blobs c"] by simp
  have pin: "pinnedLocked ?out = pinnedLocked c" "max_bytes ?out = max_bytes c"
    by (auto simp: expired_out_def pinnedLocked_def)
  have order: "eviction_order ?out (dir_blobs ?out) =
      sort_key (\<lambda>(k, b). (ModTime b, k)) (filter (\<lambda>(k, b). \<not> expired c b now) (filter (\<lambda>(k, b). \<not> pinnedLocked c k) (dir_blobs c)))"
    unfolding eviction_order_def blobs pin filter_filter
    by (rule arg_cong [where f = "sort_key _"], rule filter_cong) (auto simp: stale_def)
  have old: "filter (\<lambda>(k, b). expired c b now) (filter (\<lambda>(k, b). \<not> pinnedLocked c k) (dir_blobs c)) = ?old"
    unfolding filter_filter by (rule filter_cong) (auto simp: stale_def)
  have plan: "planGCLocked now c =
      Inr (if total_bytes ?kept \<le> max_bytes c then ?r1
           else plan_evict (evict_target (max_bytes c)) (eviction_order ?out (dir_blobs ?out)) (total_bytes ?kept) ?r1)"
    unfolding order using walk_inv [OF assms(1)] assms(1) remaining
    by (simp add: planGCLocked_def Let_def old cache_inv_def add_gc_def no_gc_def del: filter_filter)
  have same: "?out\<lparr>cache_bytes := total_bytes ?kept\<rparr> = ?out" using bytes by simp
  obtain c' where evict: "evictOverLocked rm ?out = (c', if total_bytes ?kept \<le> max_bytes c then no_gc
      else plan_evict (evict_target (max_bytes c)) (eviction_order ?out (dir_blobs ?out)) (total_bytes ?kept) no_gc, Inr ())"
    using evict_plan [OF out assms(2)] unfolding bytes pin by blast
  have "add_gc ?r1 no_gc = ?r1" by (simp add: add_gc_def no_gc_def)
  then have "GC rm now c = (c', if total_bytes ?kept \<le> max_bytes c then ?r1
      else plan_evict (evict_target (max_bytes c)) (eviction_order ?out (dir_blobs ?out)) (total_bytes ?kept) ?r1, Inr ())"
    using cleanup_all [OF assms(2), of "dir_temps c" 0] walk same evict plan_evict_add [of _ _ _ ?r1 no_gc]
    by (simp add: GC_def)
  moreover have "collected c now c' (if total_bytes ?kept \<le> max_bytes c then ?r1
      else plan_evict (evict_target (max_bytes c)) (eviction_order ?out (dir_blobs ?out)) (total_bytes ?kept) ?r1)" (is "collected c now c' ?r2")
  proof -
    obtain n where n: "n \<le> length (eviction_order ?out (dir_blobs ?out))" "c' = evicted ?out n"
      "(if total_bytes ?kept \<le> max_bytes c then no_gc
        else plan_evict (evict_target (max_bytes c)) (eviction_order ?out (dir_blobs ?out)) (total_bytes ?kept) no_gc) =
        \<lparr>RemovedBlobs = n, FreedBytes = total_bytes (take n (eviction_order ?out (dir_blobs ?out)))\<rparr>"
      "cache_bytes c' \<le> max_bytes ?out \<or> n = length (eviction_order ?out (dir_blobs ?out))"
      using evict_result [OF out evict] by auto
    have "stale ?out now = stale c now" using pin(1) by (auto simp: stale_def expired_def expired_out_def)
    then have "\<forall>y \<in> set (dir_blobs ?out). \<not> stale ?out now y" using blobs by simp
    moreover have "dir_temps ?out = []" by (simp add: expired_out_def)
    ultimately have "collected ?out now c' \<lparr>RemovedBlobs = n, FreedBytes = total_bytes (take n (eviction_order ?out (dir_blobs ?out)))\<rparr>"
      unfolding n(2) using collected_evicted [OF out _ _ n(1)] n(2,4) by simp
    then have "collected (expired_out ?c now (length (dir_blobs c))) now c'
        \<lparr>RemovedBlobs = n, FreedBytes = total_bytes (take n (eviction_order ?out (dir_blobs ?out)))\<rparr>" by simp
    from collected_expired [OF assms(1) this]
    have "collected c now c' (add_gc ?r1 (if total_bytes ?kept \<le> max_bytes c then no_gc
        else plan_evict (evict_target (max_bytes c)) (eviction_order ?out (dir_blobs ?out)) (total_bytes ?kept) no_gc))"
      unfolding n(3) by (simp add: add_gc_def no_gc_def)
    moreover have "add_gc ?r1 no_gc = ?r1" by (simp add: add_gc_def no_gc_def)
    ultimately show ?thesis using plan_evict_add [of _ _ _ ?r1 no_gc] by (auto split: if_splits)
  qed
  ultimately show ?thesis using plan by blast
qed

end
