(* ===== verification/Cache_Jobs.thy ===== *)
theory Cache_Jobs
  imports Blob_Cache
begin

text \<open>
  The snapshot cache among the jobs that use it. A state is the cache with the holds of
  all jobs, the blobs that are being copied without the mutex, and the names whose file was
  damaged from outside; a step is what one operation of \<open>cache.go\<close> or \<open>cache_pins.go\<close> does under
  the mutex, or such damage. The directory may hold corrupt blobs from the start. In every
  reachable state the byte counter is exact, the pin counts are the number of jobs holding the
  blob, and every pinned blob that was not damaged is there with the content its name promises.
  The theory also states what extraction guarantees with the cache behind it.
\<close>

subsection \<open>Start-up\<close>

text \<open>\<open>newBlobCache\<close> finds a directory and collects it; the counter starts at zero and is set
  by the collection.\<close>

definition newBlobCache ::
  "(string \<Rightarrow> bool) \<Rightarrow> int \<Rightarrow> (string \<times> blob) list \<Rightarrow> (string \<times> bytes) list \<Rightarrow> int \<Rightarrow> int \<Rightarrow> cache_error + blob_cache" where
  "newBlobCache rm now blobs temps maxBytes keep =
     (case GC rm now \<lparr>dir_blobs = blobs, dir_temps = temps, max_bytes = maxBytes, ttl = keep,
                      cache_bytes = 0, pins = (\<lambda>_. 0)\<rparr> of
        (c, r, Inl e) \<Rightarrow> Inl e
      | (c, r, Inr _) \<Rightarrow> Inr c)"

lemma expire_walk_counter:
  "\<exists>n'. expire_walk rm now bs (c\<lparr>cache_bytes := n\<rparr>) r bytes =
     (case expire_walk rm now bs c r bytes of (c', r', x) \<Rightarrow> (c'\<lparr>cache_bytes := n'\<rparr>, r', x))"
proof (induction bs arbitrary: c n r bytes)
  case Nil
  then show ?case by auto
next
  case (Cons y bs)
  obtain k b where y: "y = (k, b)" by fastforce
  let ?del = "\<lambda>c. c\<lparr>dir_blobs := AList.delete k (dir_blobs c), cache_bytes := cache_bytes c - blob_size b\<rparr>"
  have "?del (c\<lparr>cache_bytes := n\<rparr>) = (?del c)\<lparr>cache_bytes := n - blob_size b\<rparr>" by simp
  moreover have "expired (c\<lparr>cache_bytes := n\<rparr>) b now = expired c b now"
    "pinnedLocked (c\<lparr>cache_bytes := n\<rparr>) k = pinnedLocked c k"
    by (simp_all add: expired_def pinnedLocked_def)
  ultimately show ?case
    using Cons.IH [where c = "?del c" and n = "n - blob_size b"] Cons.IH [where c = c and n = n] by (auto simp: y)
qed

lemma GC_counter:
  assumes "GC rm now (c\<lparr>cache_bytes := n\<rparr>) = (c', r, Inr u)"
  shows "GC rm now c = (c', r, Inr u)"
proof -
  obtain ts t where temps: "cleanup_temps rm (dir_temps c) 0 = (ts, Inr t)"
    using assms by (auto simp: GC_def split: prod.splits sum.splits)
  obtain c1 r1 x where walk: "expire_walk rm now (dir_blobs c) (c\<lparr>dir_temps := ts\<rparr>) (no_gc\<lparr>FreedBytes := t\<rparr>) 0 = (c1, r1, x)"
    by (metis surj_pair)
  have swap: "c\<lparr>dir_temps := ts, cache_bytes := n\<rparr> = c\<lparr>cache_bytes := n, dir_temps := ts\<rparr>" by simp
  obtain n' where "expire_walk rm now (dir_blobs c) (c\<lparr>cache_bytes := n, dir_temps := ts\<rparr>) (no_gc\<lparr>FreedBytes := t\<rparr>) 0 =
      (c1\<lparr>cache_bytes := n'\<rparr>, r1, x)"
    using expire_walk_counter [where c = "c\<lparr>dir_temps := ts\<rparr>" and n = n and rm = rm and now = now and bs = "dir_blobs c"
      and r = "no_gc\<lparr>FreedBytes := t\<rparr>" and bytes = 0] walk
    unfolding swap by auto
  then show ?thesis using assms temps walk by (auto simp: GC_def split: sum.splits)
qed

text \<open>What the daemon finds at start-up: one regular file per name, with an identity. Contents are
  not trusted; names are checked by the collection.\<close>

definition blob_files :: "(string \<times> blob) list \<Rightarrow> bool" where
  "blob_files bs \<longleftrightarrow>
     distinct (map fst bs) \<and> (\<forall>(k, b) \<in> set bs. \<not> Identity_IsZero (Ident b) \<and> blob_size b \<noteq> MaxInt64)"

lemma expire_walk_names:
  "expire_walk rm now bs c r bytes = (c', r', Inr m) \<Longrightarrow> (k, b) \<in> set bs \<Longrightarrow> validBlobHash k"
proof (induction bs arbitrary: c r bytes)
  case (Cons y bs)
  then show ?case by (cases y) (auto split: if_splits)
qed simp

lemma newBlobCache_inv:
  assumes "newBlobCache rm now blobs temps maxBytes keep = Inr c" "blob_files blobs"
  shows "cache_inv c \<and> pins c = (\<lambda>_. 0)"
proof -
  define c0 where "c0 = \<lparr>dir_blobs = blobs, dir_temps = temps, max_bytes = maxBytes, ttl = keep,
    cache_bytes = total_bytes blobs, pins = (\<lambda>_. 0)\<rparr>"
  have "newBlobCache rm now blobs temps maxBytes keep =
      (case GC rm now (c0\<lparr>cache_bytes := 0\<rparr>) of (c, r, Inl e) \<Rightarrow> Inl e | (c, r, Inr _) \<Rightarrow> Inr c)"
    by (simp add: newBlobCache_def c0_def)
  then obtain r u where "GC rm now (c0\<lparr>cache_bytes := 0\<rparr>) = (c, r, Inr u)"
    using assms(1) by (auto split: prod.splits sum.splits)
  then have gc: "GC rm now c0 = (c, r, Inr u)" by (rule GC_counter)
  then obtain ts tempBytes c1 r1 m where
    "expire_walk rm now (dir_blobs c0) (c0\<lparr>dir_temps := ts\<rparr>) (no_gc\<lparr>FreedBytes := tempBytes\<rparr>) 0 = (c1, r1, Inr m)"
    by (auto simp: GC_def split: prod.splits sum.splits)
  from expire_walk_names [OF this] have "validBlobHash k" if "(k, b) \<in> set blobs" for k b
    using that by (simp add: c0_def)
  then have "cache_inv c0" using assms(2) by (auto simp: cache_inv_def blob_files_def blob_ok_def c0_def)
  with gc have "cache_inv c" "sheds c0 c" using GC_result by blast+
  then show ?thesis by (simp add: sheds_def c0_def)
qed

subsection \<open>Where files come from\<close>

text \<open>Every file in the new state was there before under the same name, or has one of the identities
  \<open>I\<close>.\<close>

definition traced :: "identity set \<Rightarrow> blob_cache \<Rightarrow> blob_cache \<Rightarrow> bool" where
  "traced I c c' \<longleftrightarrow> (\<forall>k b'. map_of (dir_blobs c') k = Some b' \<longrightarrow>
     Ident b' \<in> I \<or> (\<exists>b. map_of (dir_blobs c) k = Some b \<and> file_of b' = file_of b))"

lemma traced_dir: "dir_blobs c' = dir_blobs c \<Longrightarrow> traced I c c'"
  by (simp add: traced_def)

lemma traced_trans: "traced I c c1 \<Longrightarrow> traced I c1 c2 \<Longrightarrow> traced I c c2"
  unfolding traced_def file_of_def by (metis prod.inject)

lemma sheds_traced: "sheds c c' \<Longrightarrow> traced I c c'"
  unfolding sheds_def traced_def by (metis (no_types, lifting) map_option_eq_Some option.distinct(1))

lemma remove_traced: "traced I c (remove_blob k c)"
  by (auto simp: traced_def remove_blob_def AList.delete_conv' split: if_splits)

subsection \<open>One holder\<close>

definition held :: "cache_pins \<Rightarrow> string \<Rightarrow> nat" where
  "held q k = (if k \<in> set (shas q) then 1 else 0)"

text \<open>The blob is there with the content its name promises; nothing is said of names in \<open>D\<close>, whose
  files were damaged.\<close>

definition kept :: "(bytes \<Rightarrow> string) \<Rightarrow> string set \<Rightarrow> blob_cache \<Rightarrow> string \<Rightarrow> bool" where
  "kept sha D c k \<longleftrightarrow> k \<in> D \<or> (\<exists>b. map_of (dir_blobs c) k = Some b \<and> sha (Content b) = k)"

definition holder_ok :: "(bytes \<Rightarrow> string) \<Rightarrow> string set \<Rightarrow> blob_cache \<Rightarrow> cache_pins \<Rightarrow> bool" where
  "holder_ok sha D c q \<longleftrightarrow>
     cache_inv c \<and> distinct (shas q) \<and> (released q \<longrightarrow> shas q = []) \<and>
     (\<forall>k \<in> set (shas q). kept sha D c k) \<and> (\<forall>k. held q k \<le> pins c k)"

text \<open>An operation of one holder: the counts of everybody else are untouched, and so are the
  blobs they hold.\<close>

definition hold_step :: "(bytes \<Rightarrow> string) \<Rightarrow> string set \<Rightarrow> identity set \<Rightarrow> blob_cache \<Rightarrow> cache_pins \<Rightarrow> blob_cache \<Rightarrow> cache_pins \<Rightarrow> bool" where
  "hold_step sha D I c q c' q' \<longleftrightarrow>
     (\<forall>k. pins c' k + held q k = pins c k + held q' k) \<and>
     (\<forall>k. held q k < pins c k \<longrightarrow> kept sha D c k \<longrightarrow> kept sha D c' k) \<and> traced I c c'"

definition hold_good :: "(bytes \<Rightarrow> string) \<Rightarrow> string set \<Rightarrow> identity set \<Rightarrow> blob_cache \<Rightarrow> cache_pins \<Rightarrow> blob_cache \<Rightarrow> cache_pins \<Rightarrow> bool" where
  "hold_good sha D I c q c' q' \<longleftrightarrow> holder_ok sha D c' q' \<and> hold_step sha D I c q c' q'"

lemma hold_good_refl: "holder_ok sha D c q \<Longrightarrow> hold_good sha D I c q c q"
  by (simp add: hold_good_def hold_step_def traced_dir)

lemma hold_good_trans:
  assumes "hold_good sha D I c q c1 q1" "hold_good sha D I c1 q1 c2 q2"
  shows "hold_good sha D I c q c2 q2"
proof -
  have a: "pins c1 k + held q k = pins c k + held q1 k" "pins c2 k + held q1 k = pins c1 k + held q2 k" for k
    using assms by (simp_all add: hold_good_def hold_step_def)
  have "held q1 k < pins c1 k" if "held q k < pins c k" for k using a(1) [of k] that by linarith
  moreover have "pins c2 k + held q k = pins c k + held q2 k" for k using a [of k] by linarith
  ultimately show ?thesis using assms by (auto simp: hold_good_def hold_step_def intro: traced_trans)
qed

lemma hold_sheds:
  assumes "holder_ok sha D c q" "cache_inv c'" "sheds c c'"
  shows "hold_good sha D I c q c' q"
proof -
  have keep: "kept sha D c' k" if "0 < pins c k" "kept sha D c k" for k
    using sheds_pinned [OF assms(3), of k] that by (auto simp: pinnedLocked_def kept_def file_of_def)
  have "pins c' = pins c" using assms(3) by (simp add: sheds_def)
  moreover have "0 < pins c k" if "k \<in> set (shas q)" for k
    using assms(1) that by (auto simp: holder_ok_def held_def dest!: spec [of _ k] split: if_splits)
  ultimately show ?thesis
    using assms(1,2) keep sheds_traced [OF assms(3)] by (auto simp: hold_good_def hold_step_def holder_ok_def)
qed

lemma hold_pin:
  assumes "holder_ok sha D c q" "kept sha D c k" "pinLocked (Some q) k c = (c', Some q')"
  shows "hold_good sha D I c q c' q'"
proof (cases "released q \<or> k \<in> set (shas q)")
  case True
  then show ?thesis using assms hold_good_refl by (auto simp: pinLocked_def)
next
  case False
  then have c': "c' = c\<lparr>pins := (pins c)(k := pins c k + 1)\<rparr>" and q': "q' = q\<lparr>shas := k # shas q\<rparr>"
    using assms(3) by (auto simp: pinLocked_def)
  have "cache_inv c' = cache_inv c" "kept sha D c' = kept sha D c"
    by (simp_all add: c' cache_inv_def kept_def fun_eq_iff)
  then show ?thesis
    using assms(1,2) False by (auto simp: hold_good_def hold_step_def holder_ok_def held_def c' q' traced_dir)
qed

lemma hold_drop:
  assumes "holder_ok sha D c q" "dropPinLocked (Some q) k c = (c', Some q')"
  shows "hold_good sha D I c q c' q'"
proof (cases "k \<in> set (shas q)")
  case False
  then show ?thesis using assms hold_good_refl by (auto simp: dropPinLocked_def)
next
  case True
  then have c': "c' = c\<lparr>pins := (pins c)(k := pins c k - 1)\<rparr>" and q': "q' = q\<lparr>shas := filter (\<lambda>s. s \<noteq> k) (shas q)\<rparr>"
    using assms(2) by (auto simp: dropPinLocked_def unpinLocked_def)
  have same: "cache_inv c' = cache_inv c" "kept sha D c' = kept sha D c"
    by (simp_all add: c' cache_inv_def kept_def fun_eq_iff)
  have one: "1 \<le> pins c k" using assms(1) True by (auto simp: holder_ok_def held_def dest!: spec [of _ k])
  have "pins c' x + held q x = pins c x + held q' x \<and> held q' x \<le> pins c' x" for x
    using assms(1) True one by (auto simp: holder_ok_def held_def c' q' dest!: spec [of _ x] split: if_splits)
  then show ?thesis
    using assms(1) same by (auto simp: hold_good_def hold_step_def holder_ok_def q' c' traced_dir)
qed

subsection \<open>Operations of one holder\<close>

lemma missing_loop_sheds:
  "cache_inv c \<Longrightarrow> missing_loop rm now refs seen c = (c', ms) \<Longrightarrow> cache_inv c' \<and> sheds c c'"
proof (induction refs arbitrary: seen c c' ms)
  case (Cons y refs)
  obtain k sz where y: "y = (k, sz)" by fastforce
  have via: "cache_inv c' \<and> sheds c c'"
    if "cache_inv c1" "sheds c c1" "missing_loop rm now refs seen1 c1 = (c', ms1)" for c1 seen1 ms1
    using Cons.IH [OF that(1,3)] sheds_trans [OF that(2)] by blast
  have rem: "sheds c (if rm k then remove_blob k c else c)" "cache_inv (if rm k then remove_blob k c else c)"
    if "\<not> pinnedLocked c k"
    using that remove_blob_sheds remove_blob_inv Cons.prems(1) by auto
  show ?case
    using Cons.prems via [OF Cons.prems(1) sheds_refl] via [OF touch_inv [OF Cons.prems(1)] touch_sheds] via [OF rem(2,1)]
    by (auto simp: y split: if_splits option.splits prod.splits)
qed simp

lemma inserted_inv:
  assumes "cache_inv c" "validBlobHash k" "\<not> Identity_IsZero ident" "int (length data) \<noteq> MaxInt64"
  shows "cache_inv (c\<lparr>dir_blobs := AList.update k \<lparr>Content = data, ModTime = now, Ident = ident\<rparr> (dir_blobs c),
    cache_bytes := cache_bytes c + (int (length data) - (case map_of (dir_blobs c) k of None \<Rightarrow> 0 | Some b \<Rightarrow> blob_size b))\<rparr>)"
proof -
  have d: "distinct (map fst (dir_blobs c))" using assms(1) by (simp add: cache_inv_def)
  then have "distinct (map fst (AList.update k v (dir_blobs c)))" for v by (rule AList.distinct_update)
  moreover have "blob_ok x b"
    if "(x, b) \<in> set (AList.update k \<lparr>Content = data, ModTime = now, Ident = ident\<rparr> (dir_blobs c))" for x b
  proof -
    have "map_of (AList.update k \<lparr>Content = data, ModTime = now, Ident = ident\<rparr> (dir_blobs c)) x = Some b"
      using that AList.distinct_update [OF d] by simp
    then show ?thesis
      using assms by (auto simp: AList.update_conv' cache_inv_def blob_ok_def split: if_splits dest: map_of_SomeD)
  qed
  ultimately show ?thesis
    using assms(1) total_bytes_update [OF d, of k "\<lparr>Content = data, ModTime = now, Ident = ident\<rparr>"]
    by (auto simp: cache_inv_def)
qed

lemma hold_insert_blob:
  assumes "holder_ok sha D c q" "cache_inv c'" "pins c' = pins c" "\<And>x. kept sha D c x \<Longrightarrow> kept sha D c' x"
    and "traced {ident} c c'"
  shows "hold_good sha D {ident} c q c' q"
  using assms by (auto simp: hold_good_def hold_step_def holder_ok_def)

lemma pin_Some: "pinLocked (Some q) k c = (c', p') \<Longrightarrow> \<exists>q'. p' = Some q'"
  by (auto simp: pinLocked_def split: if_splits)

lemma drop_Some: "dropPinLocked (Some q) k c = (c', p') \<Longrightarrow> \<exists>q'. p' = Some q'"
  by (auto simp: dropPinLocked_def split: if_splits)

lemma Insert_hold:
  assumes ok: "holder_ok sha D c q" and call: "Insert sha rm now ident src k sz (c, Some q) = ((c', p'), x)"
    and ident: "\<not> Identity_IsZero ident"
  shows "\<exists>q'. p' = Some q' \<and> hold_good sha D {ident} c q c' q'"
proof -
  obtain data failed where copy: "copy_limited sz src False = (data, failed)" by fastforce
  show ?thesis
  proof (cases "\<not> validBlobHash k \<or> sz < 0 \<or> sz > max_bytes c \<or> int (length data) \<noteq> sz \<or> sha data \<noteq> k")
    case True
    then show ?thesis using call copy hold_good_refl [OF ok] by (auto simp: Insert_def split: if_splits)
  next
    case False
    then have new: "validBlobHash k" "int (length data) = sz" "sha data = k" by auto
    have limit: "int (length data) \<noteq> MaxInt64"
    proof
      assume "int (length data) = MaxInt64"
      then have "data = []" using copy new(2) by (simp add: copy_limited_def)
      then show False using \<open>int (length data) = MaxInt64\<close> by (simp add: MaxInt64_def)
    qed
    define c1 where "c1 = c\<lparr>dir_blobs := AList.update k \<lparr>Content = data, ModTime = now, Ident = ident\<rparr> (dir_blobs c),
      cache_bytes := cache_bytes c + (sz - (case map_of (dir_blobs c) k of None \<Rightarrow> 0 | Some b \<Rightarrow> blob_size b))\<rparr>"
    have "cache_inv c1"
      using inserted_inv [of c k ident data now] new(1) ident limit ok new(2) by (simp add: c1_def holder_ok_def)
    moreover have pr: "kept sha D c1 k" "\<And>x. kept sha D c x \<Longrightarrow> kept sha D c1 x" "pins c1 = pins c" "traced {ident} c c1"
      using new(3) by (auto simp: c1_def kept_def traced_def AList.update_conv' split: if_splits)
    ultimately have g1: "hold_good sha D {ident} c q c1 q" using hold_insert_blob [OF ok] by blast
    obtain c2 p2 where pin: "pinLocked (Some q) k c1 = (c2, p2)" by fastforce
    then obtain q2 where q2: "p2 = Some q2" using pin_Some by blast
    have g2: "hold_good sha D {ident} c q c2 q2"
      using hold_good_trans [OF g1 hold_pin [OF _ pr(1)]] g1 pin q2 by (simp add: hold_good_def)
    obtain c3 y where enf: "enforceSizeLocked rm c2 = (c3, y)" by fastforce
    have g3: "hold_good sha D {ident} c q c3 q2"
      using hold_good_trans [OF g2 hold_sheds] enforce_facts [OF _ enf] g2 by (meson hold_good_def holder_ok_def)
    obtain c4 p4 where drop: "dropPinLocked (Some q2) k c3 = (c4, p4)" by fastforce
    then obtain q4 where q4: "p4 = Some q4" using drop_Some by blast
    have g4: "hold_good sha D {ident} c q c4 q4"
      using hold_good_trans [OF g3 hold_drop] g3 drop q4 by (simp add: hold_good_def)
    have g5: "hold_good sha D {ident} c q (remove_blob k c4) q4" if "\<not> pinnedLocked c4 k"
      using hold_good_trans [OF g4 hold_sheds] remove_blob_sheds [OF that] remove_blob_inv g4
      by (meson hold_good_def holder_ok_def)
    show ?thesis
      using call copy False g3 g4 g5 q2 q4
      by (auto simp: Insert_def Let_def c1_def [symmetric] pin enf drop split: sum.splits if_splits option.splits)
  qed
qed

text \<open>A copy in progress: the entry, the blob as it was opened, and the job that will pin it.\<close>

record copying =
  cp_entry :: manifest_entry
  cp_blob :: blob
  cp_owner :: "nat option"

text \<open>While the path has the file that was opened, it has the content that was opened.\<close>

definition copy_ok :: "string set \<Rightarrow> blob_cache \<Rightarrow> copying \<Rightarrow> bool" where
  "copy_ok D c h \<longleftrightarrow>
     \<not> Identity_IsZero (Ident (cp_blob h)) \<and> blob_size (cp_blob h) = Size (cp_entry h) \<and> blob_size (cp_blob h) \<noteq> MaxInt64 \<and>
     (\<forall>b. map_of (dir_blobs c) (SHA256 (cp_entry h)) = Some b \<and> Ident b = Ident (cp_blob h) \<longrightarrow>
        SHA256 (cp_entry h) \<in> D \<or> Content b = Content (cp_blob h))"

lemma copy_ok_traced:
  "copy_ok D c h \<Longrightarrow> traced I c c' \<Longrightarrow> Ident (cp_blob h) \<notin> I \<Longrightarrow> copy_ok D c' h"
  unfolding copy_ok_def traced_def file_of_def by (metis prod.inject)

lemma open_facts:
  assumes "cache_inv c" "materialize_open rm now e c = (c', h)"
  shows "cache_inv c' \<and> sheds c c' \<and> (\<forall>b. h = Some b \<longrightarrow> copy_ok D c' \<lparr>cp_entry = e, cp_blob = b, cp_owner = i\<rparr>)"
proof (cases "if validBlobHash (SHA256 e) then map_of (dir_blobs c) (SHA256 e) else None")
  case None
  then show ?thesis using assms by (auto simp: materialize_open_def)
next
  case (Some b)
  then have "(SHA256 e, b) \<in> set (dir_blobs c)" "map_of (dir_blobs c) (SHA256 e) = Some b" by (auto simp: map_of_SomeD split: if_splits)
  moreover from this have "blob_ok (SHA256 e) b" using assms(1) by (auto simp: cache_inv_def)
  ultimately show ?thesis
    using assms Some remove_blob_inv [OF assms(1)] remove_blob_sheds [of c "SHA256 e"]
    by (auto simp: materialize_open_def copy_ok_def blob_ok_def split: if_splits)
qed

lemma copy_verdict:
  assumes "materialize_copy sha umask content dest e fs = (fs', Inr verified)"
    and "int (length content) = Size e" "int (length content) \<noteq> MaxInt64"
  shows "verified \<longleftrightarrow> sha content = SHA256 e"
proof -
  have "copy_limited (Size e) content False = (content, False)" using assms(2,3) by (auto simp: copy_limited_def)
  then show ?thesis using assms(1,2) by (auto simp: materialize_copy_def split: prod.splits sum.splits if_splits)
qed

lemma hold_remove_bad:
  assumes "holder_ok sha D c q" "k \<in> D \<or> \<not> kept sha D c k"
  shows "hold_good sha D I c q (remove_blob k c) q"
proof -
  have "kept sha D (remove_blob k c) x" if "kept sha D c x" for x
    using that assms(2) by (auto simp: kept_def remove_blob_def AList.delete_conv')
  then show ?thesis
    using assms(1) remove_blob_inv remove_traced by (auto simp: hold_good_def hold_step_def holder_ok_def)
qed

text \<open>What the reader of the open file gets: its content, unless the file was damaged.\<close>

definition reads :: "string set \<Rightarrow> copying \<Rightarrow> bytes \<Rightarrow> bool" where
  "reads D h content \<longleftrightarrow> SHA256 (cp_entry h) \<in> D \<or> content = Content (cp_blob h)"

lemma close_hold:
  assumes ok: "holder_ok sha D c q" and h: "copy_ok D c h" "reads D h content"
    and copy: "materialize_copy sha umask content dest (cp_entry h) fs = (fs', Inr verified)"
    and call: "materialize_close rm now (cp_entry h) (Ident (cp_blob h)) verified (c, Some q) = (c', p')"
  shows "\<exists>q'. p' = Some q' \<and> hold_good sha D {} c q c' q'"
proof -
  let ?k = "SHA256 (cp_entry h)"
  have inv: "cache_inv c" using ok by (simp add: holder_ok_def)
  note refl = hold_good_refl [OF ok, of "{}"]
  have verdict: "verified \<longleftrightarrow> sha (Content (cp_blob h)) = ?k" if "?k \<notin> D"
    using copy_verdict [OF copy] h that by (auto simp: copy_ok_def reads_def)
  have same: "?k \<in> D \<or> Content b = Content (cp_blob h)"
    if "map_of (dir_blobs c) ?k = Some b" "Ident b = Ident (cp_blob h)" for b
    using h(1) that unfolding copy_ok_def by blast
  show ?thesis
  proof (cases verified)
    case False
    have bad: "?k \<in> D \<or> \<not> kept sha D c ?k" if "map_of (dir_blobs c) ?k = Some b" "Ident b = Ident (cp_blob h)" for b
      using same [OF that] verdict False that(1) by (auto simp: kept_def)
    have "\<not> Identity_IsZero (Ident (cp_blob h))" using h(1) by (simp add: copy_ok_def)
    then show ?thesis
      using call False refl hold_remove_bad [OF ok bad]
      by (auto simp: materialize_close_def removeIfCurrent_def split: if_splits option.splits)
  next
    case True
    let ?c = "touch ?k now c"
    have g: "hold_good sha D {} c q ?c q" by (rule hold_sheds [OF ok touch_inv [OF inv] touch_sheds])
    show ?thesis
    proof (cases "map_of (dir_blobs c) ?k")
      case None
      then have "map_of (dir_blobs ?c) ?k = None" by (simp add: touch_def map_of_touched)
      then show ?thesis using call True g by (auto simp: materialize_close_def Let_def)
    next
      case (Some b)
      then have t: "map_of (dir_blobs ?c) ?k = Some (b\<lparr>ModTime := now\<rparr>)" by (simp add: touch_def map_of_touched)
      show ?thesis
      proof (cases "Ident b = Ident (cp_blob h)")
        case False
        then show ?thesis using call True g t by (auto simp: materialize_close_def Let_def)
      next
        case current: True
        have "kept sha D ?c ?k" using same [OF Some current] verdict True t by (cases "?k \<in> D") (auto simp: kept_def)
        moreover obtain c2 p2 where pin: "pinLocked (Some q) ?k ?c = (c2, p2)" by fastforce
        then obtain q2 where "p2 = Some q2" using pin_Some by blast
        ultimately have "hold_good sha D {} c q c2 q2"
          using hold_good_trans [OF g hold_pin] g pin by (simp add: hold_good_def)
        then show ?thesis using call True t current pin \<open>p2 = Some q2\<close> by (auto simp: materialize_close_def Let_def)
      qed
    qed
  qed
qed

lemma fold_unpin:
  "distinct ks \<Longrightarrow> fold unpinLocked ks c = c\<lparr>pins := (\<lambda>k. pins c k - (if k \<in> set ks then 1 else 0))\<rparr>"
proof (induction ks arbitrary: c)
  case (Cons k ks)
  then show ?case by (auto simp: unpinLocked_def fun_eq_iff)
qed simp

lemma release_hold:
  assumes ok: "holder_ok sha D c q" and call: "release rm (Some q) c = (c', p')"
  shows "\<exists>q'. p' = Some q' \<and> hold_good sha D I c q c' q'"
proof -
  define q1 where "q1 = q\<lparr>shas := [], released := True\<rparr>"
  define c1 where "c1 = fold unpinLocked (shas q) c"
  have c1: "c1 = c\<lparr>pins := (\<lambda>k. pins c k - held q k)\<rparr>"
    using fold_unpin ok by (auto simp: c1_def held_def holder_ok_def)
  have "cache_inv c1 = cache_inv c" "kept sha D c1 = kept sha D c"
    by (simp_all add: c1 cache_inv_def kept_def fun_eq_iff)
  then have g1: "hold_good sha D I c q c1 q1"
    using ok by (auto simp: hold_good_def hold_step_def holder_ok_def c1 q1_def held_def traced_dir)
  obtain c2 x where enf: "enforceSizeLocked rm c1 = (c2, x)" by fastforce
  have "hold_good sha D I c q c2 q1"
    using hold_good_trans [OF g1 hold_sheds] enforce_facts [OF _ enf] g1 by (meson hold_good_def holder_ok_def)
  then show ?thesis
    using call g1 enf by (auto simp: release_def Let_def c1_def [symmetric] q1_def [symmetric] split: if_splits)
qed

subsection \<open>The cache among its jobs\<close>

type_synonym cache_world = "blob_cache \<times> cache_pins list \<times> copying list \<times> string set"

definition unheld :: cache_pins where
  "unheld = \<lparr>shas = [], released = False\<rparr>"

text \<open>The identity of a new file: not the zero one, and not that of a file somebody has open.\<close>

definition fresh_ident :: "copying list \<Rightarrow> identity \<Rightarrow> bool" where
  "fresh_ident hs ident \<longleftrightarrow> \<not> Identity_IsZero ident \<and> ident \<notin> (\<lambda>h. Ident (cp_blob h)) ` set hs"

text \<open>One step. A caller without pins (a workspace push) passes nil. A copy ends with its verdict,
  or with an error of the destination or a cancelled context, which leave the cache alone. Damage
  overwrites a blob's file in place.\<close>

inductive cache_step :: "(bytes \<Rightarrow> string) \<Rightarrow> cache_world \<Rightarrow> cache_world \<Rightarrow> bool" for sha where
  New_pins: "cache_step sha (c, ps, hs, D) (c, ps @ [unheld], hs, D)"
| Insert_pinned:
    "i < length ps \<Longrightarrow> fresh_ident hs ident \<Longrightarrow>
     Insert sha rm now ident src k sz (c, Some (ps ! i)) = ((c', Some q), x) \<Longrightarrow>
     cache_step sha (c, ps, hs, D) (c', ps[i := q], hs, D)"
| Insert_unpinned:
    "fresh_ident hs ident \<Longrightarrow> Insert sha rm now ident src k sz (c, None) = ((c', p), x) \<Longrightarrow>
     cache_step sha (c, ps, hs, D) (c', ps, hs, D)"
| Open_hit:
    "materialize_open rm now e c = (c', Some b) \<Longrightarrow>
     cache_step sha (c, ps, hs, D) (c', ps, \<lparr>cp_entry = e, cp_blob = b, cp_owner = owner\<rparr> # hs, D)"
| Open_miss: "materialize_open rm now e c = (c', None) \<Longrightarrow> cache_step sha (c, ps, hs, D) (c', ps, hs, D)"
| Close_pinned:
    "h \<in> set hs \<Longrightarrow> cp_owner h = Some i \<Longrightarrow> i < length ps \<Longrightarrow> reads D h content \<Longrightarrow>
     materialize_copy sha umask content dest (cp_entry h) fs = (fs', Inr verified) \<Longrightarrow>
     materialize_close rm now (cp_entry h) (Ident (cp_blob h)) verified (c, Some (ps ! i)) = (c', Some q) \<Longrightarrow>
     cache_step sha (c, ps, hs, D) (c', ps[i := q], remove1 h hs, D)"
| Close_unpinned:
    "h \<in> set hs \<Longrightarrow> cp_owner h = None \<Longrightarrow> reads D h content \<Longrightarrow>
     materialize_copy sha umask content dest (cp_entry h) fs = (fs', Inr verified) \<Longrightarrow>
     materialize_close rm now (cp_entry h) (Ident (cp_blob h)) verified (c, None) = (c', p) \<Longrightarrow>
     cache_step sha (c, ps, hs, D) (c', ps, remove1 h hs, D)"
| Copy_failed: "h \<in> set hs \<Longrightarrow> cache_step sha (c, ps, hs, D) (c, ps, remove1 h hs, D)"
| Missing: "MissingContext rm now refs c = (c', ms) \<Longrightarrow> cache_step sha (c, ps, hs, D) (c', ps, hs, D)"
| Collect: "GC rm now c = (c', g, x) \<Longrightarrow> cache_step sha (c, ps, hs, D) (c', ps, hs, D)"
| Stats: "StatsContext c = (c', x) \<Longrightarrow> cache_step sha (c, ps, hs, D) (c', ps, hs, D)"
| Release:
    "i < length ps \<Longrightarrow> release rm (Some (ps ! i)) c = (c', Some q) \<Longrightarrow>
     cache_step sha (c, ps, hs, D) (c', ps[i := q], hs, D)"
| Damage:
    "map_of (dir_blobs c) k = Some b \<Longrightarrow> length data = length (Content b) \<Longrightarrow>
     cache_step sha (c, ps, hs, D)
       (c\<lparr>dir_blobs := AList.update k (b\<lparr>Content := data\<rparr>) (dir_blobs c)\<rparr>, ps, hs, insert k D)"

inductive cache_reachable :: "(bytes \<Rightarrow> string) \<Rightarrow> cache_world \<Rightarrow> bool" for sha where
  Start: "newBlobCache rm now blobs temps maxBytes keep = Inr c \<Longrightarrow> blob_files blobs \<Longrightarrow>
          cache_reachable sha (c, [], [], {})"
| Step: "cache_reachable sha w \<Longrightarrow> cache_step sha w w' \<Longrightarrow> cache_reachable sha w'"

definition holders :: "cache_pins list \<Rightarrow> string \<Rightarrow> nat" where
  "holders ps k = (\<Sum>q \<leftarrow> ps. held q k)"

definition holds_inv :: "(bytes \<Rightarrow> string) \<Rightarrow> string set \<Rightarrow> blob_cache \<Rightarrow> cache_pins list \<Rightarrow> bool" where
  "holds_inv sha D c ps \<longleftrightarrow>
     cache_inv c \<and> (\<forall>k. pins c k = holders ps k) \<and>
     (\<forall>q \<in> set ps. distinct (shas q) \<and> (released q \<longrightarrow> shas q = []) \<and> (\<forall>k \<in> set (shas q). kept sha D c k))"

definition world_inv :: "(bytes \<Rightarrow> string) \<Rightarrow> cache_world \<Rightarrow> bool" where
  "world_inv sha w = (case w of (c, ps, hs, D) \<Rightarrow> holds_inv sha D c ps \<and> (\<forall>h \<in> set hs. copy_ok D c h))"

lemma held_le_holders: "q \<in> set ps \<Longrightarrow> held q k \<le> holders ps k"
  by (simp add: holders_def member_le_sum_list)

lemma holders_pair: "i < length ps \<Longrightarrow> j < length ps \<Longrightarrow> i \<noteq> j \<Longrightarrow> held (ps ! i) k + held (ps ! j) k \<le> holders ps k"
proof -
  assume ij: "i < length ps" "j < length ps" "i \<noteq> j"
  have "holders ps k = (\<Sum>n \<in> {0..<length ps}. held (ps ! n) k)"
    by (simp add: holders_def sum_list_sum_nth)
  also have "\<dots> \<ge> (\<Sum>n \<in> {i, j}. held (ps ! n) k)"
    using ij by (intro sum_mono2) auto
  finally show ?thesis using ij by simp
qed

lemma holders_update:
  "i < length ps \<Longrightarrow> holders (ps[i := q]) k + held (ps ! i) k = holders ps k + held q k"
proof -
  assume i: "i < length ps"
  have "held (ps ! i) k \<le> (\<Sum>q \<leftarrow> ps. held q k)" using held_le_holders [of "ps ! i" ps k] i by (simp add: holders_def)
  then show ?thesis using i by (simp add: holders_def map_update sum_list_update)
qed

lemma holds_holder:
  "holds_inv sha D c ps \<Longrightarrow> i < length ps \<Longrightarrow> holder_ok sha D c (ps ! i)"
  by (auto simp: holds_inv_def holder_ok_def intro: held_le_holders)

lemma holds_inv_hold:
  assumes w: "holds_inv sha D c ps" and i: "i < length ps" and good: "hold_good sha D I c (ps ! i) c' q'"
  shows "holds_inv sha D c' (ps[i := q'])"
proof -
  have step: "pins c' k + held (ps ! i) k = pins c k + held q' k"
    "held (ps ! i) k < pins c k \<Longrightarrow> kept sha D c k \<Longrightarrow> kept sha D c' k" for k
    using good by (auto simp: hold_good_def hold_step_def)
  have "pins c' k = holders (ps[i := q']) k" for k
    using step(1) [of k] holders_update [OF i, of q' k] w by (simp add: holds_inv_def)
  moreover have "distinct (shas q) \<and> (released q \<longrightarrow> shas q = []) \<and> (\<forall>k \<in> set (shas q). kept sha D c' k)"
    if mem: "q \<in> set (ps[i := q'])" for q
  proof (cases "q = q'")
    case True
    then show ?thesis using good by (simp add: hold_good_def holder_ok_def)
  next
    case False
    obtain j where at: "j < length ps" "ps[i := q'] ! j = q" using mem by (auto simp: in_set_conv_nth)
    with False i have j: "j < length ps" "j \<noteq> i" "q = ps ! j" by (auto simp: nth_list_update)
    have "kept sha D c' k" if "k \<in> set (shas q)" for k
    proof (rule step(2))
      have "held (ps ! j) k = 1" using that j by (simp add: held_def)
      then have "held (ps ! i) k < holders ps k" using holders_pair [OF i j(1), of k] j(2) by simp
      then show "held (ps ! i) k < pins c k" using w by (simp add: holds_inv_def)
      show "kept sha D c k" using w j that by (auto simp: holds_inv_def)
    qed
    then show ?thesis using w j by (auto simp: holds_inv_def)
  qed
  ultimately show ?thesis using good by (simp add: holds_inv_def hold_good_def holder_ok_def)
qed

lemma holds_inv_sheds:
  assumes "holds_inv sha D c ps" "cache_inv c'" "sheds c c'"
  shows "holds_inv sha D c' ps"
proof -
  have "kept sha D c' k" if "q \<in> set ps" "k \<in> set (shas q)" for q k
  proof -
    have "pins c k > 0"
      using held_le_holders [OF that(1), of k] that(2) assms(1) by (simp add: holds_inv_def held_def)
    moreover have "kept sha D c k" using assms(1) that by (auto simp: holds_inv_def)
    ultimately show ?thesis
      using sheds_pinned [OF assms(3), of k] by (auto simp: pinnedLocked_def kept_def file_of_def)
  qed
  then show ?thesis using assms by (auto simp: holds_inv_def sheds_def)
qed

text \<open>A nil holder acts on the cache as one that has already released.\<close>

definition nobody :: cache_pins where
  "nobody = \<lparr>shas = [], released = True\<rparr>"

lemma nil_pins:
  "pinLocked None k c = (c, None)" "pinLocked (Some nobody) k c = (c, Some nobody)"
  "dropPinLocked None k c = (c, None)" "dropPinLocked (Some nobody) k c = (c, Some nobody)"
  by (simp_all add: pinLocked_def dropPinLocked_def nobody_def)

lemma Insert_nil:
  assumes "Insert sha rm now ident src k sz (c, None) = ((c', p), x)"
  shows "Insert sha rm now ident src k sz (c, Some nobody) = ((c', Some nobody), x)"
proof -
  obtain data failed where copy: "copy_limited sz src False = (data, failed)" by fastforce
  define c1 where "c1 = c\<lparr>dir_blobs := AList.update k \<lparr>Content = data, ModTime = now, Ident = ident\<rparr> (dir_blobs c),
      cache_bytes := cache_bytes c + (sz - (case map_of (dir_blobs c) k of None \<Rightarrow> 0 | Some b \<Rightarrow> blob_size b))\<rparr>"
  obtain c3 y where enf: "enforceSizeLocked rm c1 = (c3, y)" by fastforce
  show ?thesis
  proof (cases "map_of (dir_blobs c3) k")
    case None
    then show ?thesis
      using assms by (cases y) (auto simp: Insert_def Let_def copy c1_def [symmetric] nil_pins enf split: if_splits)
  next
    case (Some b)
    then show ?thesis
      using assms by (cases y) (auto simp: Insert_def Let_def copy c1_def [symmetric] nil_pins enf split: if_splits)
  qed
qed

lemma close_nil:
  assumes "materialize_close rm now e i verified (c, None) = (c', p)"
  shows "materialize_close rm now e i verified (c, Some nobody) = (c', Some nobody)"
  using assms by (auto simp: materialize_close_def nil_pins Let_def split: option.splits if_splits)

lemma holds_inv_nobody:
  assumes "holds_inv sha D c ps" "hold_good sha D I c nobody c' nobody"
  shows "holds_inv sha D c' ps"
proof -
  have "held nobody k = 0" for k by (simp add: held_def nobody_def)
  then have "pins c' k = pins c k" "pins c k > 0 \<Longrightarrow> kept sha D c k \<Longrightarrow> kept sha D c' k" for k
    using assms(2) by (auto simp: hold_good_def hold_step_def)
  moreover have "pins c k > 0" if "q \<in> set ps" "k \<in> set (shas q)" for q k
    using held_le_holders [OF that(1), of k] that(2) assms(1) by (simp add: holds_inv_def held_def)
  ultimately show ?thesis
    using assms by (auto simp: holds_inv_def hold_good_def holder_ok_def)
qed

lemma nobody_ok: "holds_inv sha D c ps \<Longrightarrow> holder_ok sha D c nobody"
  by (simp add: holds_inv_def holder_ok_def nobody_def held_def)

lemma Stats_inv: "cache_inv c \<Longrightarrow> StatsContext c = (c', x) \<Longrightarrow> c' = c"
  using walk_inv [of c] by (auto simp: StatsContext_def)

lemma world_invI:
  assumes "holds_inv sha D c' ps'" "\<forall>h \<in> set hs. copy_ok D c h" "set hs' \<subseteq> set hs" "traced I c c'"
    and "\<And>h. h \<in> set hs \<Longrightarrow> Ident (cp_blob h) \<notin> I"
  shows "world_inv sha (c', ps', hs', D)"
  using assms copy_ok_traced by (fastforce simp: world_inv_def)

lemma hold_traced: "hold_good sha D I c q c' q' \<Longrightarrow> traced I c c'"
  by (simp add: hold_good_def hold_step_def)

lemma Insert_step:
  assumes w: "world_inv sha (c, ps, hs, D)" and fresh: "fresh_ident hs ident"
  shows "i < length ps \<Longrightarrow> Insert sha rm now ident src k sz (c, Some (ps ! i)) = ((c', Some q), x) \<Longrightarrow>
      world_inv sha (c', ps[i := q], hs, D)"
    "Insert sha rm now ident src k sz (c, None) = ((c', p), x) \<Longrightarrow> world_inv sha (c', ps, hs, D)"
proof -
  have h: "holds_inv sha D c ps" "\<forall>h \<in> set hs. copy_ok D c h" using w by (simp_all add: world_inv_def)
  have id: "\<not> Identity_IsZero ident" "\<And>h. h \<in> set hs \<Longrightarrow> Ident (cp_blob h) \<notin> {ident}" using fresh by (auto simp: fresh_ident_def)
  show "world_inv sha (c', ps[i := q], hs, D)"
    if i: "i < length ps" and call: "Insert sha rm now ident src k sz (c, Some (ps ! i)) = ((c', Some q), x)"
  proof -
    have "hold_good sha D {ident} c (ps ! i) c' q" using Insert_hold [OF holds_holder [OF h(1) i] call id(1)] by simp
    then show ?thesis using world_invI [OF holds_inv_hold [OF h(1) i] h(2) subset_refl hold_traced] id(2) by blast
  qed
  show "world_inv sha (c', ps, hs, D)" if call: "Insert sha rm now ident src k sz (c, None) = ((c', p), x)"
  proof -
    have "hold_good sha D {ident} c nobody c' nobody"
      using Insert_hold [OF nobody_ok [OF h(1)] Insert_nil [OF call] id(1)] by simp
    then show ?thesis using world_invI [OF holds_inv_nobody [OF h(1)] h(2) subset_refl hold_traced] id(2) by blast
  qed
qed

lemma Close_step:
  assumes w: "world_inv sha (c, ps, hs, D)" and h: "h \<in> set hs" "reads D h content"
    and copy: "materialize_copy sha umask content dest (cp_entry h) fs = (fs', Inr verified)"
  shows "i < length ps \<Longrightarrow> materialize_close rm now (cp_entry h) (Ident (cp_blob h)) verified (c, Some (ps ! i)) = (c', Some q) \<Longrightarrow>
      world_inv sha (c', ps[i := q], remove1 h hs, D)"
    "materialize_close rm now (cp_entry h) (Ident (cp_blob h)) verified (c, None) = (c', p) \<Longrightarrow>
      world_inv sha (c', ps, remove1 h hs, D)"
proof -
  have inv: "holds_inv sha D c ps" "\<forall>h \<in> set hs. copy_ok D c h" using w by (simp_all add: world_inv_def)
  then have ok: "copy_ok D c h" using h(1) by blast
  have sub: "set (remove1 h hs) \<subseteq> set hs" by (rule set_remove1_subset)
  show "world_inv sha (c', ps[i := q], remove1 h hs, D)"
    if i: "i < length ps" and call: "materialize_close rm now (cp_entry h) (Ident (cp_blob h)) verified (c, Some (ps ! i)) = (c', Some q)"
  proof -
    have "hold_good sha D {} c (ps ! i) c' q"
      using close_hold [OF holds_holder [OF inv(1) i] ok h(2) copy call] by simp
    then show ?thesis using world_invI [OF holds_inv_hold [OF inv(1) i] inv(2) sub hold_traced] by blast
  qed
  show "world_inv sha (c', ps, remove1 h hs, D)"
    if call: "materialize_close rm now (cp_entry h) (Ident (cp_blob h)) verified (c, None) = (c', p)"
  proof -
    have "hold_good sha D {} c nobody c' nobody"
      using close_hold [OF nobody_ok [OF inv(1)] ok h(2) copy close_nil [OF call]] by simp
    then show ?thesis using world_invI [OF holds_inv_nobody [OF inv(1)] inv(2) sub hold_traced] by blast
  qed
qed

lemma shed_step:
  assumes "world_inv sha (c, ps, hs, D)" "cache_inv c'" "sheds c c'"
  shows "world_inv sha (c', ps, hs, D)"
  using assms holds_inv_sheds [OF _ assms(2,3)] sheds_traced [OF assms(3), of "{}"]
  by (intro world_invI [where c = c and I = "{}" and hs = hs]) (simp_all add: world_inv_def)

lemma Damage_step:
  assumes w: "world_inv sha (c, ps, hs, D)" and b: "map_of (dir_blobs c) k = Some b" "length data = length (Content b)"
  shows "world_inv sha (c\<lparr>dir_blobs := AList.update k (b\<lparr>Content := data\<rparr>) (dir_blobs c)\<rparr>, ps, hs, insert k D)"
proof -
  let ?c = "c\<lparr>dir_blobs := AList.update k (b\<lparr>Content := data\<rparr>) (dir_blobs c)\<rparr>"
  have inv: "cache_inv c" and d: "distinct (map fst (dir_blobs c))" and h: "holds_inv sha D c ps" "\<forall>h \<in> set hs. copy_ok D c h"
    using w by (simp_all add: world_inv_def holds_inv_def cache_inv_def)
  have "(k, b) \<in> set (dir_blobs c)" using b(1) by (rule map_of_SomeD)
  then have bok: "blob_ok k (b\<lparr>Content := data\<rparr>)" using inv b(2) by (auto simp: cache_inv_def blob_ok_def)
  have "blob_ok x y" if "(x, y) \<in> set (dir_blobs ?c)" for x y
  proof -
    have "map_of (dir_blobs ?c) x = Some y" using that AList.distinct_update [OF d] by simp
    then show ?thesis using inv bok by (auto simp: AList.update_conv' cache_inv_def split: if_splits dest: map_of_SomeD)
  qed
  then have "cache_inv ?c"
    using inv total_bytes_update [OF d, of k "b\<lparr>Content := data\<rparr>"] AList.distinct_update [OF d, of k] b
    by (auto simp: cache_inv_def)
  moreover have "kept sha (insert k D) ?c x" if "kept sha D c x" for x
    using that by (auto simp: kept_def AList.update_conv')
  moreover have "copy_ok (insert k D) ?c h" if "copy_ok D c h" for h
    using that by (auto simp: copy_ok_def AList.update_conv' split: if_splits)
  ultimately show ?thesis using h by (simp add: world_inv_def holds_inv_def)
qed

lemma cache_step_inv:
  assumes "cache_step sha w w'" "world_inv sha w"
  shows "world_inv sha w'"
  using assms
proof cases
  case (New_pins c ps hs D)
  then show ?thesis using assms(2) by (auto simp: world_inv_def holds_inv_def holders_def unheld_def held_def)
next
  case (Insert_pinned i ps hs ident rm now src k sz c c' q x D)
  then show ?thesis using Insert_step(1) assms(2) by blast
next
  case (Insert_unpinned hs ident rm now src k sz c c' p x ps D)
  then show ?thesis using Insert_step(2) assms(2) by blast
next
  case (Open_hit rm now e c c' b ps hs D owner)
  have "cache_inv c" using assms(2) Open_hit by (simp add: world_inv_def holds_inv_def)
  note o = open_facts [OF this Open_hit(3)]
  have "world_inv sha (c', ps, hs, D)" using shed_step assms(2) Open_hit o by blast
  then show ?thesis using o Open_hit(2) by (simp add: world_inv_def)
next
  case (Open_miss rm now e c c' ps hs D)
  have "cache_inv c" using assms(2) Open_miss by (simp add: world_inv_def holds_inv_def)
  then show ?thesis using shed_step assms(2) Open_miss open_facts by blast
next
  case (Close_pinned h hs i ps D content umask dest fs fs' verified rm now c c' q)
  then show ?thesis using Close_step(1) assms(2) by blast
next
  case (Close_unpinned h hs D content umask dest fs fs' verified rm now c c' p ps)
  then show ?thesis using Close_step(2) assms(2) by blast
next
  case (Copy_failed h hs c ps D)
  then show ?thesis using assms(2) set_remove1_subset [of h hs] by (auto simp: world_inv_def)
next
  case (Missing rm now refs c c' ms ps hs D)
  have inv: "cache_inv c" using assms(2) Missing by (simp add: world_inv_def holds_inv_def)
  have "cache_inv c' \<and> sheds c c'" using missing_loop_sheds [OF inv] Missing by (simp add: MissingContext_def)
  then show ?thesis using shed_step assms(2) Missing by blast
next
  case (Collect rm now c c' g x ps hs D)
  have inv: "cache_inv c" using assms(2) Collect by (simp add: world_inv_def holds_inv_def)
  then show ?thesis using GC_result [OF inv] shed_step assms(2) Collect by blast
next
  case (Stats c c' x ps hs D)
  then show ?thesis using Stats_inv [of c c' x] assms(2) by (simp add: world_inv_def holds_inv_def)
next
  case (Release i ps rm c c' q hs D)
  have h: "holds_inv sha D c ps" "\<forall>h \<in> set hs. copy_ok D c h" using assms(2) Release by (simp_all add: world_inv_def)
  have "hold_good sha D {} c (ps ! i) c' q" using release_hold [OF holds_holder [OF h(1) Release(3)] Release(4)] by simp
  then show ?thesis
    using world_invI [OF holds_inv_hold [OF h(1) Release(3)] h(2) subset_refl hold_traced] Release(2) by blast
next
  case (Damage c k b data ps hs D)
  then show ?thesis using Damage_step assms(2) by blast
qed

lemma cache_reachable_inv: "cache_reachable sha w \<Longrightarrow> world_inv sha w"
proof (induction rule: cache_reachable.induct)
  case (Start rm now blobs temps maxBytes keep c)
  then show ?case using newBlobCache_inv [OF Start] by (simp add: world_inv_def holds_inv_def holders_def)
next
  case (Step w w')
  then show ?case using cache_step_inv by blast
qed

lemma reachable_cache_inv: "cache_reachable sha (c, ps, hs, D) \<Longrightarrow> cache_inv c"
  using cache_reachable_inv by (fastforce simp: world_inv_def holds_inv_def)

subsection \<open>Properties\<close>

lemma evicted_lru:
  assumes inv: "cache_inv c" and gone: "map_of (dir_blobs c) k = Some b" "map_of (dir_blobs (evicted c n)) k = None"
    and kept: "map_of (dir_blobs (evicted c n)) k' = Some b'" "\<not> pinnedLocked c k'"
  shows "(ModTime b, k) < (ModTime b', k')"
proof -
  let ?bs = "eviction_order c (dir_blobs c)"
  let ?key = "\<lambda>(k, b). (ModTime b, k)"
  have look: "map_of (dir_blobs (evicted c n)) x =
      (if x \<notin> set (map fst (take n ?bs)) then map_of (dir_blobs c) x else None)" for x
    unfolding evicted_def fold_remove_blobs
    using map_of_filter_keys [of "\<lambda>k. k \<notin> set (map fst (take n ?bs))" "dir_blobs c" x] by simp
  have "k \<in> fst ` set (take n ?bs)" using gone look [of k] by (auto split: if_splits)
  then obtain b1 where b1: "(k, b1) \<in> set (take n ?bs)" by force
  then have "map_of (dir_blobs c) k = Some b1" using eviction_order_facts(2) [OF inv] by (meson in_set_takeD)
  then have kb: "(k, b) \<in> set (take n ?bs)" using b1 gone(1) by simp
  have k': "k' \<notin> fst ` set (take n ?bs)" "map_of (dir_blobs c) k' = Some b'"
    using kept(1) look [of k'] by (auto split: if_splits)
  then have "(k', b') \<in> set ?bs" using eviction_order_facts(2) [OF inv] kept(2) by blast
  moreover have "(k', b') \<notin> set (take n ?bs)" using k'(1) by force
  ultimately have "(k', b') \<in> set (drop n ?bs)" by (metis Un_iff append_take_drop_id set_append)
  then have "?key (k, b) \<le> ?key (k', b')"
    using kb eviction_order_facts(3) [OF inv]
    by (metis (no_types, lifting) append_take_drop_id map_append sorted_append image_eqI image_set)
  moreover have "k \<noteq> k'" using kb k'(1) by force
  ultimately show ?thesis by auto
qed


definition zero_sha :: "bytes \<Rightarrow> string" where
  "zero_sha _ = replicate 64 (CHR ''0'')"

definition sample_cache :: blob_cache where
  "sample_cache = \<lparr>dir_blobs = [], dir_temps = [], max_bytes = 100, ttl = 1000, cache_bytes = 0, pins = (\<lambda>_. 0)\<rparr>"

abbreviation sample_ident :: identity where
  "sample_ident \<equiv> \<lparr>Device = 1, Inode = 2\<rparr>"

definition full_cache :: blob_cache where
  "full_cache = sample_cache\<lparr>dir_blobs := [(zero_sha [], \<lparr>Content = ''ab'', ModTime = 5, Ident = sample_ident\<rparr>)], cache_bytes := 2,
     pins := (\<lambda>_. 0)(zero_sha [] := 1)\<rparr>"

lemma sample_reachable: "cache_reachable zero_sha (full_cache, [\<lparr>shas = [zero_sha []], released = False\<rparr>], [], {})"
proof -
  have "newBlobCache (\<lambda>_. True) 0 [] [] 100 1000 = Inr sample_cache"
    by (simp add: newBlobCache_def GC_def no_gc_def evictOverLocked_def sample_cache_def)
  then have "cache_reachable zero_sha (sample_cache, [], [], {})"
    by (rule cache_reachable.Start) (simp add: blob_files_def)
  then have one: "cache_reachable zero_sha (sample_cache, [unheld], [], {})"
    by (rule cache_reachable.Step) (use cache_step.New_pins [of zero_sha sample_cache "[]" "[]" "{}"] in simp)
  have hash: "validBlobHash (zero_sha [])" by code_simp
  have "Insert zero_sha (\<lambda>_. True) 5 sample_ident ''ab'' (zero_sha []) 2 (sample_cache, Some ([unheld] ! 0)) =
    ((full_cache, Some \<lparr>shas = [zero_sha []], released = False\<rparr>), Inr ())"
    using hash
    by (simp add: Insert_def copy_limited_def MaxInt64_def full_cache_def sample_cache_def zero_sha_def pinLocked_def unheld_def
        enforceSizeLocked_def evictOverLocked_def)
  moreover have "fresh_ident [] sample_ident" by (simp add: fresh_ident_def Identity_IsZero_def)
  ultimately have "cache_step zero_sha (sample_cache, [unheld], [], {})
     (full_cache, [unheld][0 := \<lparr>shas = [zero_sha []], released = False\<rparr>], [], {})"
    by (intro cache_step.Insert_pinned) simp_all
  with one show ?thesis by (simp add: cache_reachable.Step)
qed


text \<open>C11. The cache's bookkeeping is exact: in every reachable state, with corrupt blobs found and
  removed on the way, the byte counter is the sum of the sizes of the blobs in the directory, and
  a blob's pin count is the number of jobs holding it.\<close>

theorem cache_counters_exact:
  assumes "cache_reachable sha (c, ps, hs, D)"
  shows "cache_bytes c = (\<Sum>(k, b) \<leftarrow> dir_blobs c. int (length (Content b))) \<and>
    pins c k = length (filter (\<lambda>q. k \<in> set (shas q)) ps)"
proof -
  have w: "holds_inv sha D c ps" using cache_reachable_inv [OF assms] by (simp add: world_inv_def)
  have "holders ps k = length (filter (\<lambda>q. k \<in> set (shas q)) ps)"
    by (induction ps) (simp_all add: holders_def held_def)
  then show ?thesis using w by (simp add: holds_inv_def cache_inv_def total_bytes_def)
qed

text \<open>A cache whose only blob at start-up is corrupt: opened, found out and removed.\<close>

definition corrupt_start :: blob_cache where
  "corrupt_start = sample_cache\<lparr>dir_blobs := [(replicate 64 CHR ''1'', \<lparr>Content = ''xy'', ModTime = 5, Ident = sample_ident\<rparr>)],
     cache_bytes := 2\<rparr>"

definition corrupt_entry :: manifest_entry where
  "corrupt_entry = \<lparr>Path = ''f'', Type = EntryFile, Mode = 0x1A4, Size = 2, SHA256 = replicate 64 CHR ''1'', Target = ''''\<rparr>"

lemma corrupt_blob_removed: "cache_reachable zero_sha (sample_cache, [], [], {})" "cache_reachable zero_sha (corrupt_start, [], [], {})"
proof -
  let ?blobs = "[(replicate 64 CHR ''1'', \<lparr>Content = ''xy'', ModTime = 5, Ident = sample_ident\<rparr>)]"
  let ?h = "\<lparr>cp_entry = corrupt_entry, cp_blob = snd (hd ?blobs), cp_owner = None\<rparr>"
  have hash: "validBlobHash (replicate 64 CHR ''1'')" by code_simp
  have "newBlobCache (\<lambda>_. True) 10 ?blobs [] 100 1000 = Inr corrupt_start"
    using hash by (simp add: newBlobCache_def GC_def no_gc_def evictOverLocked_def corrupt_start_def sample_cache_def expired_def)
  then show start: "cache_reachable zero_sha (corrupt_start, [], [], {})"
    by (rule cache_reachable.Start) (simp add: blob_files_def Identity_IsZero_def MaxInt64_def)
  have "materialize_open (\<lambda>_. True) 10 corrupt_entry corrupt_start = (corrupt_start, Some (snd (hd ?blobs)))"
    using hash by (simp add: materialize_open_def corrupt_entry_def corrupt_start_def sample_cache_def expired_def)
  then have opened: "cache_reachable zero_sha (corrupt_start, [], [?h], {})"
    by (intro cache_reachable.Step [OF start] cache_step.Open_hit)
  have copy: "materialize_copy zero_sha 0 ''xy'' ''f'' corrupt_entry fresh_dir = (fst (materialize_copy zero_sha 0 ''xy'' ''f'' corrupt_entry fresh_dir), Inr False)"
  proof -
    have "snd (materialize_copy zero_sha 0 ''xy'' ''f'' corrupt_entry fresh_dir) = Inr False" by code_simp
    then show ?thesis by (metis prod.collapse)
  qed
  have "materialize_close (\<lambda>_. True) 10 corrupt_entry sample_ident False (corrupt_start, None) = (sample_cache, None)"
    using hash
    by (simp add: materialize_close_def removeIfCurrent_def remove_blob_def corrupt_entry_def corrupt_start_def sample_cache_def)
  then have "cache_step zero_sha (corrupt_start, [], [?h], {}) (sample_cache, [], remove1 ?h [?h], {})"
    using copy by (intro cache_step.Close_unpinned [where content = "''xy''"]) (simp_all add: reads_def corrupt_entry_def)
  with opened show "cache_reachable zero_sha (sample_cache, [], [], {})" by (simp add: cache_reachable.Step)
qed

theorem cache_counters_exact_witness:
  "cache_bytes corrupt_start = (\<Sum>(k, b) \<leftarrow> dir_blobs corrupt_start. int (length (Content b))) \<and>
   cache_bytes sample_cache = (\<Sum>(k, b) \<leftarrow> dir_blobs sample_cache. int (length (Content b))) \<and> pins full_cache (zero_sha []) = 1"
  using cache_counters_exact [OF corrupt_blob_removed(2)] cache_counters_exact [OF corrupt_blob_removed(1)]
    cache_counters_exact [OF sample_reachable, of "zero_sha []"] by simp

text \<open>C12. A successful eviction frees enough, takes the least recently used first, and takes
  nothing that is pinned: afterwards the cache is within its budget or only pinned blobs
  are left, every evicted blob is older (by time, then name) than every unpinned one that
  stayed, and pinned blobs are untouched.\<close>

theorem eviction_lru_bounded:
  assumes "cache_reachable sha (c, ps, hs, D)" "evictOverLocked rm c = (c', r, Inr ())"
  shows "(cache_bytes c' \<le> max_bytes c \<or> (\<forall>k b. map_of (dir_blobs c') k = Some b \<longrightarrow> pinnedLocked c k)) \<and>
    (\<forall>k b k' b'. map_of (dir_blobs c) k = Some b \<and> map_of (dir_blobs c') k = None \<and>
       map_of (dir_blobs c') k' = Some b' \<and> \<not> pinnedLocked c k' \<longrightarrow> (ModTime b, k) < (ModTime b', k')) \<and>
    (\<forall>k. pinnedLocked c k \<longrightarrow> map_option Content (map_of (dir_blobs c') k) = map_option Content (map_of (dir_blobs c) k))"
proof -
  have inv: "cache_inv c" using reachable_cache_inv [OF assms(1)] .
  obtain n where n: "n \<le> length (eviction_order c (dir_blobs c))" "c' = evicted c n"
    "cache_bytes c' \<le> max_bytes c \<or> n = length (eviction_order c (dir_blobs c))"
    using evict_result [OF inv assms(2)] by auto
  have "pinnedLocked c k" if k: "map_of (dir_blobs c') k = Some b" "n = length (eviction_order c (dir_blobs c))" for k b
  proof (rule ccontr)
    assume "\<not> pinnedLocked c k"
    moreover have "k \<notin> fst ` set (eviction_order c (dir_blobs c)) \<and> map_of (dir_blobs c) k = Some b"
      using k map_of_filter_keys [of "\<lambda>x. x \<notin> fst ` set (eviction_order c (dir_blobs c))" "dir_blobs c" k]
      by (simp add: n(2) evicted_def fold_remove_blobs split: if_splits)
    ultimately show False using eviction_order_facts(2) [OF inv] by force
  qed
  moreover have "map_option Content (map_of (dir_blobs c') k) = map_option Content (map_of (dir_blobs c) k)" if "pinnedLocked c k" for k
    using arg_cong [OF sheds_pinned [OF evicted_facts(2) [OF inv] that, of n], of "map_option fst"]
    by (simp add: n(2) option.map_comp comp_def file_of_def)
  ultimately show ?thesis using n(3) evicted_lru [OF inv] unfolding n(2) by blast
qed

text \<open>A cache over its budget: an insertion whose eviction and rollback both failed.\<close>

definition small_cache :: blob_cache where
  "small_cache = \<lparr>dir_blobs = [(replicate 64 CHR ''1'', \<lparr>Content = ''xy'', ModTime = 5, Ident = \<lparr>Device = 1, Inode = 1\<rparr>\<rparr>)], dir_temps = [],
     max_bytes = 3, ttl = 1000, cache_bytes = 2, pins = (\<lambda>_. 0)\<rparr>"

definition over_budget :: blob_cache where
  "over_budget = small_cache\<lparr>dir_blobs := [(replicate 64 CHR ''1'', \<lparr>Content = ''xy'', ModTime = 5, Ident = \<lparr>Device = 1, Inode = 1\<rparr>\<rparr>),
     (zero_sha [], \<lparr>Content = ''ab'', ModTime = 7, Ident = sample_ident\<rparr>)], cache_bytes := 4\<rparr>"

lemma over_budget_reachable: "cache_reachable zero_sha (over_budget, [], [], {})"
proof -
  have hash: "validBlobHash (replicate 64 CHR ''1'')" "validBlobHash (zero_sha [])" by code_simp+
  have "newBlobCache (\<lambda>_. True) 10 (dir_blobs small_cache) [] 3 1000 = Inr small_cache"
    using hash by (simp add: newBlobCache_def GC_def no_gc_def evictOverLocked_def small_cache_def expired_def)
  then have start: "cache_reachable zero_sha (small_cache, [], [], {})"
    by (rule cache_reachable.Start) (simp add: blob_files_def small_cache_def Identity_IsZero_def MaxInt64_def)
  have "Insert zero_sha (\<lambda>_. False) 7 sample_ident ''ab'' (zero_sha []) 2 (small_cache, None) = ((over_budget, None), Inl RollbackFailed)"
  proof -
    let ?one = "replicate 64 CHR ''1''" and ?zero = "zero_sha []"
    have ne: "?one \<noteq> ?zero" "?zero \<noteq> ?one" and same: "zero_sha ''ab'' = ?zero" by code_simp+
    show ?thesis
      using hash ne same
      by (simp add: Insert_def copy_limited_def MaxInt64_def over_budget_def small_cache_def pinLocked_def dropPinLocked_def
          pinnedLocked_def enforceSizeLocked_def evictOverLocked_def walkLocked_def evict_target_def eviction_order_def)
  qed
  moreover have "fresh_ident [] sample_ident" by (simp add: fresh_ident_def Identity_IsZero_def)
  ultimately have "cache_step zero_sha (small_cache, [], [], {}) (over_budget, [], [], {})"
    by (intro cache_step.Insert_unpinned)
  with start show ?thesis by (rule cache_reachable.Step)
qed

theorem eviction_lru_bounded_witness:
  "\<exists>c' r. evictOverLocked (\<lambda>_. True) over_budget = (c', r, Inr ()) \<and> RemovedBlobs r = 1 \<and>
     (cache_bytes c' \<le> 3 \<or> (\<forall>k b. map_of (dir_blobs c') k = Some b \<longrightarrow> pinnedLocked over_budget k))"
proof -
  have "snd (snd (evictOverLocked (\<lambda>_. True) over_budget)) = Inr ()" "RemovedBlobs (fst (snd (evictOverLocked (\<lambda>_. True) over_budget))) = 1"
    by code_simp+
  then obtain c' r where ev: "evictOverLocked (\<lambda>_. True) over_budget = (c', r, Inr ())" "RemovedBlobs r = 1"
    by (metis prod.collapse fst_conv snd_conv)
  have "max_bytes over_budget = 3" by (simp add: over_budget_def small_cache_def)
  with eviction_lru_bounded [OF over_budget_reachable ev(1)] ev show ?thesis by auto
qed

text \<open>C13. The dry run tells the truth: when removals succeed, \<open>planGCLocked\<close> announces exactly what a
  collection at the same moment reports, and the report is what happens. The directory loses that
  many blobs, and with the left-over temporaries that many bytes, and nothing else changes in it;
  no pinned blob goes; no unpinned blob that has expired stays; and the cache is within its budget
  or holds pinned blobs only.\<close>

theorem dry_run_matches_GC:
  assumes "cache_reachable sha (c, ps, hs, D)" "\<forall>k. rm k"
  shows "\<exists>c' r. GC rm now c = (c', r, Inr ()) \<and> planGCLocked now c = Inr r \<and>
    dir_temps c' = [] \<and> set (dir_blobs c') \<subseteq> set (dir_blobs c) \<and>
    length (dir_blobs c) = length (dir_blobs c') + RemovedBlobs r \<and>
    total_bytes (dir_blobs c) + (\<Sum>(name, data) \<leftarrow> dir_temps c. int (length data)) = total_bytes (dir_blobs c') + FreedBytes r \<and>
    (\<forall>(k, b) \<in> set (dir_blobs c). pinnedLocked c k \<longrightarrow> (k, b) \<in> set (dir_blobs c')) \<and>
    (\<forall>(k, b) \<in> set (dir_blobs c'). expired c b now \<longrightarrow> pinnedLocked c k) \<and>
    (cache_bytes c' \<le> max_bytes c \<or> (\<forall>(k, b) \<in> set (dir_blobs c'). pinnedLocked c k))"
  using plan_GC [OF reachable_cache_inv [OF assms(1)] assms(2), of now] unfolding collected_def by blast

theorem dry_run_matches_GC_witness:
  "\<exists>c' r. GC (\<lambda>_. True) 10 over_budget = (c', r, Inr ()) \<and> planGCLocked 10 over_budget = Inr r \<and>
     2 = length (dir_blobs c') + RemovedBlobs r"
proof -
  have "length (dir_blobs over_budget) = 2" by (simp add: over_budget_def)
  then show ?thesis using dry_run_matches_GC [OF over_budget_reachable, of "\<lambda>_. True" 10] by force
qed

subsection \<open>Extraction with the cache behind it\<close>

lemma cache_resolver_ok: "resolver_ok sha (Some (Materialize sha umask rm now later meanwhile))"
  using snapshot_cache.blob_resolver_axioms by (simp add: resolver_ok_def)

lemma allowed_inside:
  assumes "manifest_ok os es" "node_allowed es q node"
  shows "q = ''.'' \<or> rel_path q"
proof -
  have par: "rel_path d" if "e \<in> set es" "d \<in> set (parent_dirs (Path e))" for e d
    using that entry_path [OF assms(1) that(1)] parent_dirs_rel by auto
  show ?thesis
    using assms(2) entry_path [OF assms(1)] par
    by (auto simp: node_allowed_def split: fs_node.splits)
qed

text \<open>C1. A strange archive cannot write outside the workspace: for every stream, manifest,
  size limit, cache content and activity of others on the cache, whether extraction succeeds or fails part-way, everything
  it leaves in the fresh directory lies inside it and is an entry of the manifest with that
  entry's type, or a directory above one; and when the manifest was accepted, no path was
  ever resolved through a symbolic link.\<close>

theorem extraction_stays_inside:
  assumes "ExtractWith os sha umask stream m maxBytes (Some (Materialize sha umask rm now later meanwhile)) s fresh_dir = (s', fs, r)"
  shows "(\<forall>q node. fs q = Some node \<longrightarrow>
            (q = ''.'' \<or> rel_path q) \<and> node_allowed (slice (Entries m)) q node) \<and>
         (is_ok (Validate os m) \<longrightarrow> (\<forall>q. r \<noteq> Inl (LinkTraversed q)))"
proof (cases "is_ok (Validate os m)")
  case True
  have "confined (slice (Entries m)) fresh_dir (fs, r)"
    using ExtractWith_confined [OF cache_resolver_ok True fresh_within] assms by (metis snd_conv)
  moreover have "manifest_ok os (slice (Entries m))" using True by (simp add: Validate_manifest_ok)
  ultimately show ?thesis
    unfolding confined_def within_def fst_conv snd_conv using allowed_inside by blast
next
  case False
  then have "fs = fresh_dir"
    using assms by (auto simp: ExtractWith_def Let_def is_ok_iff bind_res_def split: sum.splits)
  then show ?thesis using False fresh_within [of "slice (Entries m)"]
    by (auto simp: within_def) (auto simp: fresh_dir_def split: if_splits)
qed

text \<open>C2. A successful extraction is exact: the manifest was valid and within the size limit,
  and every entry is in place, a file with content of the declared size and hash and the
  declared mode (from the stream or from the cache), a directory with its declared mode, a
  symlink with its target.\<close>

theorem extraction_exact:
  assumes "ExtractWith os sha umask stream m maxBytes (Some (Materialize sha umask rm now later meanwhile)) s fresh_dir = (s', fs, Inr ())"
  shows "is_ok (Validate os m) \<and>
    sum_list (map Size (filter (\<lambda>e. Type e = EntryFile) (slice (Entries m)))) \<le> max 0 maxBytes \<and>
    (\<forall>e \<in> set (slice (Entries m)).
       (Type e = EntryFile \<longrightarrow> (\<exists>b. fs (Path e) = Some (FFile b (syscallMode (Mode e))) \<and>
          int (length b) = Size e \<and> sha b = SHA256 e)) \<and>
       (Type e = EntryDir \<longrightarrow> fs (Path e) = Some (FDir (syscallMode (Mode e)))) \<and>
       (Type e = EntrySymlink \<longrightarrow> fs (Path e) = Some (FLink (Target e))))"
proof -
  have root: "fresh_dir ''.'' = Some (FDir 0x1C0)" by (simp add: fresh_dir_def)
  note placed = ExtractWith_placed [OF cache_resolver_ok fresh_within root assms]
  show ?thesis using placed by (auto simp: placed_def)
qed

definition sample_upload :: manifest where
  "sample_upload = \<lparr>Entries = Some
     [\<lparr>Path = ''d'', Type = EntryDir, Mode = 0x140, Size = 0, SHA256 = '''', Target = ''''\<rparr>,
      \<lparr>Path = ''d/f'', Type = EntryFile, Mode = 0x1A4, Size = 2, SHA256 = zero_sha [], Target = ''''\<rparr>,
      \<lparr>Path = ''l'', Type = EntrySymlink, Mode = 0x1FF, Size = 0, SHA256 = '''', Target = ''d/f''\<rparr>]\<rparr>"

definition sample_stream :: "tar_event list" where
  "sample_stream =
     [TarEntry \<lparr>hdr_name = ''d/'', Typeflag = TypeDir, Linkname = ''''\<rparr> [] False,
      TarEntry \<lparr>hdr_name = ''l'', Typeflag = TypeSymlink, Linkname = ''d/f''\<rparr> [] False,
      TarEntry \<lparr>hdr_name = ''d/f'', Typeflag = TypeReg, Linkname = ''''\<rparr> ''ab'' False]"

definition sample_extraction :: "cache_state \<times> unit fs_res" where
  "sample_extraction =
     ExtractWith unix zero_sha 0x12 sample_stream sample_upload 10
       (Some (Materialize zero_sha 0x12 (\<lambda>_. True) 0 0 (\<lambda>_ s. s))) (sample_cache, None) fresh_dir"

lemma sample_extraction_ok: "snd (snd sample_extraction) = Inr ()"
  by code_simp

lemma sample_extraction_eq:
  "ExtractWith unix zero_sha 0x12 sample_stream sample_upload 10
     (Some (Materialize zero_sha 0x12 (\<lambda>_. True) 0 0 (\<lambda>_ s. s))) (sample_cache, None) fresh_dir =
   (fst sample_extraction, fst (snd sample_extraction), Inr ())"
  using sample_extraction_ok by (metis prod.collapse sample_extraction_def)

lemma sample_link: "fst (snd sample_extraction) ''l'' = Some (FLink ''d/f'')"
  by code_simp

theorem extraction_stays_inside_witness:
  "is_ok (snd (snd sample_extraction)) \<and> fst (snd sample_extraction) ''l'' = Some (FLink ''d/f'') \<and>
   node_allowed (slice (Entries sample_upload)) ''l'' (FLink ''d/f'')"
  using extraction_stays_inside [OF sample_extraction_eq] sample_extraction_ok sample_link by auto

theorem extraction_exact_witness:
  "fst (snd sample_extraction) ''d'' = Some (FDir (syscallMode 0x140)) \<and>
   fst (snd sample_extraction) ''l'' = Some (FLink ''d/f'')"
  using extraction_exact [OF sample_extraction_eq] by (simp add: sample_upload_def)

end
