(* ===== verification/Manifest_Tree.thy ===== *)
theory Manifest_Tree
  imports Proto "HOL-Library.Product_Lexorder"
begin

text \<open>
  Package \<open>internal/manifest\<close>, files \<open>tree.go\<close> and \<open>hash.go\<close>: the retained index of a snapshot, a
  treap over paths whose priorities are the hashes of the paths and whose nodes carry a
  Merkle digest. SHA-256 is the parameter \<open>sha\<close>. A nil pointer is \<open>Leaf\<close>. Nodes are
  immutable once published, so a pointer comparison that guards a shortcut
  (\<open>result.left == n.left\<close>) is modelled by equality of the nodes: where the pointers differ
  and the nodes are equal, the branch not taken rebuilds the same node. The operations run
  with a context that is not cancelled. \<open>count\<close> and \<open>height\<close> are natural numbers.
\<close>

subsection \<open>Entry digests\<close>

definition le_bytes :: "nat \<Rightarrow> 'a :: len word \<Rightarrow> bytes" where
  "le_bytes n w = map (\<lambda>i. char_of (unat (drop_bit (8 * i) w) mod 256)) [0..<n]"

definition length_prefixed :: "string \<Rightarrow> bytes" where
  "length_prefixed v = le_bytes 8 (of_nat (length v) :: 64 word) @ v"

definition entry_encoding :: "manifest_entry \<Rightarrow> bytes" where
  "entry_encoding e =
     CHR 0x01 # concat (map length_prefixed [Path e, Type e, SHA256 e, Target e]) @
     le_bytes 4 (Mode e) @ le_bytes 8 (of_int (Size e) :: 64 word)"

definition entryDigest :: "(bytes \<Rightarrow> bytes) \<Rightarrow> manifest_entry \<Rightarrow> bytes" where
  "entryDigest sha e = sha (entry_encoding e)"

subsection \<open>Nodes\<close>

definition maxHeight :: nat where "maxHeight = 128"

datatype node =
    Leaf
  | Node (nentry: manifest_entry) (npriority: bytes) (ncontent: bytes) (ndigest: bytes)
      (nleft: node) (nright: node) (ncount: nat) (nheight: nat)

definition zero_digest :: bytes where
  "zero_digest = replicate 32 nul"

definition nodeDigest :: "node \<Rightarrow> bytes" where
  "nodeDigest n = (case n of Leaf \<Rightarrow> zero_digest | Node e p c d l r k h \<Rightarrow> d)"

definition count_of :: "node \<Rightarrow> nat" where
  "count_of n = (case n of Leaf \<Rightarrow> 0 | Node e p c d l r k h \<Rightarrow> k)"

definition height_of :: "node \<Rightarrow> nat" where
  "height_of n = (case n of Leaf \<Rightarrow> 0 | Node e p c d l r k h \<Rightarrow> h)"

text \<open>Priority first, then path; smaller is higher.\<close>

definition higher :: "node \<Rightarrow> node \<Rightarrow> bool" where
  "higher a b \<longleftrightarrow> npriority a < npriority b \<or> (npriority a = npriority b \<and> Path (nentry a) < Path (nentry b))"

fun recount :: "node \<Rightarrow> node" where
  "recount Leaf = Leaf"
| "recount (Node e p c d l r k h) =
     Node e p c d l r (1 + count_of l + count_of r)
       (max (max 1 (if l = Leaf then 1 else height_of l + 1)) (if r = Leaf then 1 else height_of r + 1))"

fun rehash :: "(bytes \<Rightarrow> bytes) \<Rightarrow> node \<Rightarrow> node" where
  "rehash sha Leaf = Leaf"
| "rehash sha (Node e p c d l r k h) =
     (case recount (Node e p c d l r k h) of
        Leaf \<Rightarrow> Leaf
      | Node e' p' c' d' l' r' k' h' \<Rightarrow>
          Node e' p' c' (sha (nodeDigest l' @ c' @ nodeDigest r')) l' r' k' h')"

subsection \<open>Building\<close>

definition new_node :: "(bytes \<Rightarrow> bytes) \<Rightarrow> manifest_entry \<Rightarrow> node" where
  "new_node sha e = Node e (sha (Path e)) zero_digest zero_digest Leaf Leaf 0 0"

definition set_left :: "node \<Rightarrow> node \<Rightarrow> node" where
  "set_left n l = (case n of Leaf \<Rightarrow> Leaf | Node e p c d _ r k h \<Rightarrow> Node e p c d l r k h)"

definition set_right :: "node \<Rightarrow> node \<Rightarrow> node" where
  "set_right n r = (case n of Leaf \<Rightarrow> Leaf | Node e p c d l _ k h \<Rightarrow> Node e p c d l r k h)"

text \<open>The stack is the right spine of the tree so far, its top first. A node on it points to
  the one above as its right child; in the model that child is attached when the node is
  popped, \<open>acc\<close> being the last popped. \<open>None\<close> is \<open>errTreeHeight\<close>.\<close>

fun build_pop :: "node \<Rightarrow> node list \<Rightarrow> node \<Rightarrow> (node list \<times> node) option" where
  "build_pop n [] acc = Some ([], acc)"
| "build_pop n (peak # stack) acc =
     (if higher n peak then
        let popped = recount (set_right peak acc)
        in if nheight popped > maxHeight then None else build_pop n stack popped
      else Some (peak # stack, acc))"

fun build_spine :: "(bytes \<Rightarrow> bytes) \<Rightarrow> node list \<Rightarrow> manifest_entry list \<Rightarrow> node list option" where
  "build_spine sha stack [] = Some stack"
| "build_spine sha stack (e # es) =
     (case build_pop (new_node sha e) stack Leaf of
        None \<Rightarrow> None
      | Some (rest, acc) \<Rightarrow> build_spine sha (set_left (new_node sha e) acc # rest) es)"

fun build_close :: "node list \<Rightarrow> node \<Rightarrow> node option" where
  "build_close [] acc = Some acc"
| "build_close (peak # stack) acc =
     (let n = recount (set_right peak acc)
      in if nheight n > maxHeight then None else build_close stack n)"

fun finishSubtree :: "(bytes \<Rightarrow> bytes) \<Rightarrow> node \<Rightarrow> node" where
  "finishSubtree sha Leaf = Leaf"
| "finishSubtree sha (Node e p c d l r k h) =
     rehash sha (Node e p (entryDigest sha e) d (finishSubtree sha l) (finishSubtree sha r) k h)"

text \<open>\<open>finishTree\<close> hands subtrees of at most \<open>threshold\<close> entries to a pool of workers and
  finishes their common ancestors, children first, when all workers are done.\<close>

fun finish_parents :: "(bytes \<Rightarrow> bytes) \<Rightarrow> nat \<Rightarrow> node \<Rightarrow> node" where
  "finish_parents sha threshold Leaf = Leaf"
| "finish_parents sha threshold (Node e p c d l r k h) =
     (if k \<le> threshold then finishSubtree sha (Node e p c d l r k h)
      else rehash sha (Node e p (entryDigest sha e) d
             (finish_parents sha threshold l) (finish_parents sha threshold r) k h))"

definition finishTree :: "(bytes \<Rightarrow> bytes) \<Rightarrow> nat \<Rightarrow> node \<Rightarrow> node" where
  "finishTree sha gomaxprocs root =
     (let workers = min (min 4 gomaxprocs) (count_of root div 256)
      in if workers < 2 then finishSubtree sha root
         else finish_parents sha (max 128 (count_of root div (workers * 4))) root)"

definition buildTree :: "(bytes \<Rightarrow> bytes) \<Rightarrow> nat \<Rightarrow> manifest_entry list \<Rightarrow> node option" where
  "buildTree sha gomaxprocs es =
     (case build_spine sha [] es of
        None \<Rightarrow> None
      | Some [] \<Rightarrow> Some Leaf
      | Some stack \<Rightarrow> map_option (finishTree sha gomaxprocs) (build_close stack Leaf))"

subsection \<open>Updates\<close>

record edit =
  Entry :: manifest_entry
  Delete :: bool

function joinNodes :: "(bytes \<Rightarrow> bytes) \<Rightarrow> node \<Rightarrow> node \<Rightarrow> node" where
  "joinNodes sha a b =
     (if a = Leaf then b else if b = Leaf then a
      else if higher a b then rehash sha (set_right a (joinNodes sha (nright a) b))
      else rehash sha (set_left b (joinNodes sha a (nleft b))))"
  by pat_completeness auto
termination
proof (relation "measure (\<lambda>(sha, a, b). size a + size b)")
  fix sha :: "bytes \<Rightarrow> bytes" and a b :: node
  assume "a \<noteq> Leaf" "b \<noteq> Leaf"
  then show "((sha, nright a, b), sha, a, b) \<in> measure (\<lambda>(sha, a, b). size a + size b)"
    "((sha, a, nleft b), sha, a, b) \<in> measure (\<lambda>(sha, a, b). size a + size b)"
    by (cases a; cases b; simp)+
qed simp

declare joinNodes.simps [simp del]

fun updateNode :: "(bytes \<Rightarrow> bytes) \<Rightarrow> node \<Rightarrow> edit \<Rightarrow> node" where
  "updateNode sha Leaf ed =
     (if Delete ed then Leaf
      else rehash sha (Node (Entry ed) (sha (Path (Entry ed))) (entryDigest sha (Entry ed)) zero_digest Leaf Leaf 0 0))"
| "updateNode sha (Node e p c d l r k h) ed =
     (if Path (Entry ed) = Path e then
        if Delete ed then joinNodes sha l r
        else if Entry ed = e then Node e p c d l r k h
        else rehash sha (Node (Entry ed) p (entryDigest sha (Entry ed)) d l r k h)
      else if Path (Entry ed) < Path e then
        let l' = updateNode sha l ed;
            result = Node e p c d l' r k h
        in if l' = l then Node e p c d l r k h
           else if l' \<noteq> Leaf \<and> higher l' result
             then rehash sha (set_right l' (rehash sha (set_left result (nright l'))))
           else rehash sha result
      else
        let r' = updateNode sha r ed;
            result = Node e p c d l r' k h
        in if r' = r then Node e p c d l r k h
           else if r' \<noteq> Leaf \<and> higher r' result
             then rehash sha (set_left r' (rehash sha (set_right result (nleft r'))))
           else rehash sha result)"

fun splitAbsent :: "(bytes \<Rightarrow> bytes) \<Rightarrow> node \<Rightarrow> string \<Rightarrow> node \<times> node" where
  "splitAbsent sha Leaf q = (Leaf, Leaf)"
| "splitAbsent sha (Node e p c d l r k h) q =
     (if q < Path e then
        case splitAbsent sha l q of (left, right) \<Rightarrow>
          if right = l then (left, Node e p c d l r k h)
          else (left, rehash sha (Node e p c d right r k h))
      else
        case splitAbsent sha r q of (left, right) \<Rightarrow>
          if left = r then (Node e p c d l r k h, right)
          else (rehash sha (Node e p c d l left k h), right))"

fun appendNodeEdits :: "node \<Rightarrow> bool \<Rightarrow> edit list" where
  "appendNodeEdits Leaf remove = []"
| "appendNodeEdits (Node e p c d l r k h) remove =
     appendNodeEdits l remove @ [\<lparr>Entry = e, Delete = remove\<rparr>] @ appendNodeEdits r remove"

fun tree_size :: "node \<Rightarrow> nat" where
  "tree_size Leaf = 0"
| "tree_size (Node e p c d l r k h) = 1 + tree_size l + tree_size r"

lemma tree_size_child: "n \<noteq> Leaf \<Longrightarrow> tree_size (nleft n) < tree_size n \<and> tree_size (nright n) < tree_size n"
  by (cases n) simp_all

lemma tree_size_rehash [simp]: "tree_size (rehash sha n) = tree_size n"
  by (cases n) simp_all

lemma splitAbsent_size:
  "splitAbsent sha n q = (a, b) \<Longrightarrow> tree_size a + tree_size b = tree_size n"
proof (induction n arbitrary: a b)
  case (Node e p c d l r k h)
  obtain la lb ra rb where "splitAbsent sha l q = (la, lb)" "splitAbsent sha r q = (ra, rb)" by fastforce
  with Node.IH Node.prems show ?case
    by (auto simp del: rehash.simps split: if_splits)
qed simp

text \<open>\<open>diffNodes\<close>; the result slice is the value.\<close>

function diffNodes :: "(bytes \<Rightarrow> bytes) \<Rightarrow> node \<Rightarrow> node \<Rightarrow> edit list" where
  "diffNodes sha a b =
     (if a = b \<or> nodeDigest a = nodeDigest b then []
      else if a = Leaf then appendNodeEdits b False
      else if b = Leaf then appendNodeEdits a True
      else if Path (nentry a) = Path (nentry b) then
        diffNodes sha (nleft a) (nleft b) @
        (if nentry a \<noteq> nentry b then [\<lparr>Entry = nentry b, Delete = False\<rparr>] else []) @
        diffNodes sha (nright a) (nright b)
      else if higher a b then
        (case splitAbsent sha b (Path (nentry a)) of (left, right) \<Rightarrow>
           diffNodes sha (nleft a) left @ [\<lparr>Entry = nentry a, Delete = True\<rparr>] @ diffNodes sha (nright a) right)
      else
        (case splitAbsent sha a (Path (nentry b)) of (left, right) \<Rightarrow>
           diffNodes sha left (nleft b) @ [\<lparr>Entry = nentry b, Delete = False\<rparr>] @ diffNodes sha right (nright b)))"
  by pat_completeness auto
termination
proof (relation "measure (\<lambda>(sha, a, b). tree_size a + tree_size b)", goal_cases)
  case (2 sha a b)
  show ?case using tree_size_child [OF 2(2)] tree_size_child [OF 2(3)] by simp
next
  case (3 sha a b)
  show ?case using tree_size_child [OF 3(2)] tree_size_child [OF 3(3)] by simp
next
  case (4 sha a b left right)
  show ?case using splitAbsent_size [OF 4(6) [symmetric]] tree_size_child [OF 4(2)] by simp
next
  case (5 sha a b left right)
  show ?case using splitAbsent_size [OF 5(6) [symmetric]] tree_size_child [OF 5(2)] by simp
next
  case (6 sha a b left right)
  show ?case using splitAbsent_size [OF 6(6) [symmetric]] tree_size_child [OF 6(3)] by simp
next
  case (7 sha a b left right)
  show ?case using splitAbsent_size [OF 7(6) [symmetric]] tree_size_child [OF 7(3)] by simp
qed simp

declare diffNodes.simps [simp del]

fun replaceNodes :: "(bytes \<Rightarrow> bytes) \<Rightarrow> node \<Rightarrow> edit list \<Rightarrow> node" where
  "replaceNodes sha Leaf edits = Leaf"
| "replaceNodes sha (Node e p c d l r k h) edits =
     (if edits = [] then Node e p c d l r k h
      else case binary_search (\<lambda>ed. Path (Entry ed)) edits (Path e) of
        (i, found) \<Rightarrow>
          let left = replaceNodes sha l (take i edits);
              right = replaceNodes sha r (drop (if found then i + 1 else i) edits);
              entry = (if found then Entry (edits ! i) else e)
          in if left = l \<and> right = r \<and> entry = e then Node e p c d l r k h
             else rehash sha (Node entry p (if entry \<noteq> e then entryDigest sha entry else c) d left right k h))"

end
