(* ===== verification/Manifest_Treap.thy ===== *)
theory Manifest_Treap
  imports Manifest_Tree
begin

text \<open>
  The index is a treap: functional correctness of the node operations. The abstraction of a
  tree is the list of its entries in path order; \<open>tree_ok\<close> is the invariant (search order,
  heap order of the path hashes, and every cached field of every node as \<open>rehash\<close> computes
  it). Because priorities are a function of the path, a set of entries has exactly one
  tree, so updates, batch replacement and a fresh build all end in the same nodes with the
  same digests.
\<close>

subsection \<open>The abstraction and the invariant\<close>

fun inorder :: "node \<Rightarrow> manifest_entry list" where
  "inorder Leaf = []"
| "inorder (Node e p c d l r k h) = inorder l @ e # inorder r"

definition mk :: "(bytes \<Rightarrow> bytes) \<Rightarrow> node \<Rightarrow> manifest_entry \<Rightarrow> node \<Rightarrow> node" where
  "mk sha l e r =
     Node e (sha (Path e)) (entryDigest sha e) (sha (nodeDigest l @ entryDigest sha e @ nodeDigest r)) l r
       (1 + count_of l + count_of r) (1 + max (height_of l) (height_of r))"

fun wf_node :: "(bytes \<Rightarrow> bytes) \<Rightarrow> node \<Rightarrow> bool" where
  "wf_node sha Leaf = True"
| "wf_node sha (Node e p c d l r k h) \<longleftrightarrow> Node e p c d l r k h = mk sha l e r \<and> wf_node sha l \<and> wf_node sha r"

definition prio :: "(bytes \<Rightarrow> bytes) \<Rightarrow> manifest_entry \<Rightarrow> bytes \<times> string" where
  "prio sha e = (sha (Path e), Path e)"

fun treap :: "(bytes \<Rightarrow> bytes) \<Rightarrow> node \<Rightarrow> bool" where
  "treap sha Leaf = True"
| "treap sha (Node e p c d l r k h) \<longleftrightarrow>
     treap sha l \<and> treap sha r \<and>
     (\<forall>x \<in> set (inorder l). Path x < Path e \<and> prio sha e < prio sha x) \<and>
     (\<forall>x \<in> set (inorder r). Path e < Path x \<and> prio sha e < prio sha x)"

definition tree_ok :: "(bytes \<Rightarrow> bytes) \<Rightarrow> node \<Rightarrow> bool" where
  "tree_ok sha t \<longleftrightarrow> wf_node sha t \<and> treap sha t"

abbreviation path_sorted :: "manifest_entry list \<Rightarrow> bool" where
  "path_sorted es \<equiv> sorted_wrt (<) (map Path es)"

lemma rehash_mk [simp]:
  "rehash sha (Node e (sha (Path e)) (entryDigest sha e) d l r k h) = mk sha l e r"
  by (auto simp: mk_def height_of_def split: node.splits)

lemma leaf_sel [simp]: "count_of Leaf = 0" "height_of Leaf = 0" "nodeDigest Leaf = zero_digest"
  by (simp_all add: count_of_def height_of_def nodeDigest_def)

lemma mk_sel [simp]:
  "nentry (mk sha l e r) = e" "nleft (mk sha l e r) = l" "nright (mk sha l e r) = r"
  "npriority (mk sha l e r) = sha (Path e)" "mk sha l e r \<noteq> Leaf" "Leaf \<noteq> mk sha l e r"
  "inorder (mk sha l e r) = inorder l @ e # inorder r"
  "count_of (mk sha l e r) = 1 + count_of l + count_of r"
  "height_of (mk sha l e r) = 1 + max (height_of l) (height_of r)"
  "nodeDigest (mk sha l e r) = sha (nodeDigest l @ entryDigest sha e @ nodeDigest r)"
  by (simp_all add: mk_def count_of_def height_of_def nodeDigest_def)

lemma mk_set [simp]:
  "rehash sha (set_left (mk sha l e r) l') = mk sha l' e r"
  "rehash sha (set_right (mk sha l e r) r') = mk sha l e r'"
  by (simp_all add: mk_def set_left_def set_right_def rehash_mk del: rehash.simps)

lemma mk_inject [simp]: "mk sha l e r = mk sha l' e' r' \<longleftrightarrow> l = l' \<and> e = e' \<and> r = r'"
  by (auto simp: mk_def)

lemma wf_mk [simp]: "wf_node sha (mk sha l e r) \<longleftrightarrow> wf_node sha l \<and> wf_node sha r"
  by (simp add: mk_def)

lemma treap_mk [simp]:
  "treap sha (mk sha l e r) \<longleftrightarrow> treap sha l \<and> treap sha r \<and>
     (\<forall>x \<in> set (inorder l). Path x < Path e \<and> prio sha e < prio sha x) \<and>
     (\<forall>x \<in> set (inorder r). Path e < Path x \<and> prio sha e < prio sha x)"
  by (simp add: mk_def)

text \<open>The case distinction every proof below uses.\<close>

lemma wf_cases:
  assumes "wf_node sha t"
  obtains (leaf) "t = Leaf" | (node) l e r where "t = mk sha l e r" "wf_node sha l" "wf_node sha r"
  using assms by (cases t) auto

lemma wf_induct [consumes 1, case_names leaf node]:
  assumes "wf_node sha t" "P Leaf"
    and "\<And>l e r. wf_node sha l \<Longrightarrow> wf_node sha r \<Longrightarrow> P l \<Longrightarrow> P r \<Longrightarrow> P (mk sha l e r)"
  shows "P t"
  using assms(1)
proof (induction t)
  case (Node e p c d l r k h)
  then show ?case using assms(3) [of l r e] by auto
qed (rule assms(2))

lemma higher_prio [simp]:
  "higher (mk sha l e r) (mk sha l' e' r') \<longleftrightarrow> prio sha e < prio sha e'"
  by (auto simp: higher_def prio_def)

lemma tree_ok_Leaf [simp]: "tree_ok sha Leaf"
  by (simp add: tree_ok_def)

lemma tree_ok_mk:
  "tree_ok sha (mk sha l e r) \<longleftrightarrow> tree_ok sha l \<and> tree_ok sha r \<and>
     (\<forall>x \<in> set (inorder l). Path x < Path e \<and> prio sha e < prio sha x) \<and>
     (\<forall>x \<in> set (inorder r). Path e < Path x \<and> prio sha e < prio sha x)"
  by (auto simp: tree_ok_def)

lemma tree_ok_sorted: "tree_ok sha t \<Longrightarrow> path_sorted (inorder t)"
proof -
  assume t: "tree_ok sha t"
  then have "wf_node sha t" by (simp add: tree_ok_def)
  then show ?thesis using t
  proof (induction rule: wf_induct)
    case (node l e r)
    then show ?case by (fastforce simp: tree_ok_mk sorted_wrt_append)
  qed simp
qed

lemma count_inorder: "wf_node sha t \<Longrightarrow> count_of t = length (inorder t)"
  by (induction rule: wf_induct) simp_all

subsection \<open>One tree per set of entries\<close>

lemma prio_min_unique:
  assumes "xs @ e # ys = xs' @ e' # ys'"
    and "\<forall>x \<in> set xs \<union> set ys. prio sha e < prio sha x" "\<forall>x \<in> set xs' \<union> set ys'. prio sha e' < prio sha x"
    and "path_sorted (xs @ e # ys)"
  shows "xs = xs' \<and> e = e' \<and> ys = ys'"
proof -
  have "e = e'"
  proof (rule ccontr)
    assume ne: "e \<noteq> e'"
    have "set (xs @ e # ys) = set (xs' @ e' # ys')" using assms(1) by simp
    with ne have "e \<in> set xs' \<union> set ys'" "e' \<in> set xs \<union> set ys" by auto
    with assms(2,3) show False by (meson order.asym)
  qed
  moreover have "e \<notin> set xs" "e \<notin> set xs'"
    using assms(2,3) \<open>e = e'\<close> by (metis UnI1 order.irrefl)+
  moreover have "takeWhile (\<lambda>y. y \<noteq> e) (us @ e # vs) = us" if "e \<notin> set us" for us vs
    using that by (induction us) auto
  ultimately show ?thesis using assms(1) by (metis append_same_eq list.inject same_append_eq)
qed

lemma treap_unique:
  assumes "tree_ok sha t" "tree_ok sha t'" "inorder t = inorder t'"
  shows "t = t'"
proof -
  have "wf_node sha t" using assms(1) by (simp add: tree_ok_def)
  then show ?thesis using assms
  proof (induction arbitrary: t' rule: wf_induct)
    case leaf
    then show ?case by (cases t') auto
  next
    case (node l e r)
    have "wf_node sha t'" using node.prems(2) by (simp add: tree_ok_def)
    then obtain l' e' r' where t': "t' = mk sha l' e' r'"
      using node.prems(3) by (cases rule: wf_cases) auto
    have split: "inorder l @ e # inorder r = inorder l' @ e' # inorder r'" using node.prems(3) t' by simp
    have "inorder l = inorder l' \<and> e = e' \<and> inorder r = inorder r'"
      by (rule prio_min_unique [OF split, of sha])
        (use node.prems(1,2) tree_ok_sorted [OF node.prems(1)] t' in \<open>auto simp: tree_ok_mk\<close>)
    with node t' show ?case by (auto simp: tree_ok_mk)
  qed
qed

subsection \<open>Edits of sorted lists\<close>

fun put :: "manifest_entry \<Rightarrow> manifest_entry list \<Rightarrow> manifest_entry list" where
  "put e [] = [e]"
| "put e (x # xs) =
     (if Path e < Path x then e # x # xs else if Path e = Path x then e # xs else x # put e xs)"

fun del :: "string \<Rightarrow> manifest_entry list \<Rightarrow> manifest_entry list" where
  "del p [] = []"
| "del p (x # xs) = (if p = Path x then xs else x # del p xs)"

definition apply_edit :: "edit \<Rightarrow> manifest_entry list \<Rightarrow> manifest_entry list" where
  "apply_edit ed xs = (if Delete ed then del (Path (Entry ed)) xs else put (Entry ed) xs)"

lemma put_append:
  "\<forall>x \<in> set xs. Path x < Path e \<Longrightarrow> put e (xs @ ys) = xs @ put e ys"
  by (induction xs) (auto dest: order.asym)

lemma put_front: "\<forall>y \<in> set ys. Path e < Path y \<Longrightarrow> put e (xs @ ys) = put e xs @ ys"
proof (induction xs)
  case Nil
  then show ?case by (cases ys) auto
qed auto

lemma del_append: "\<forall>x \<in> set xs. Path x \<noteq> p \<Longrightarrow> del p (xs @ ys) = xs @ del p ys"
  by (induction xs) auto

lemma del_absent: "\<forall>x \<in> set xs. Path x \<noteq> p \<Longrightarrow> del p xs = xs"
  by (induction xs) auto

lemma del_front: "\<forall>y \<in> set ys. Path y \<noteq> p \<Longrightarrow> del p (xs @ ys) = del p xs @ ys"
  by (induction xs) (auto simp: del_absent)

lemma edit_middle:
  assumes "\<forall>x \<in> set xs. Path x < Path e" "\<forall>y \<in> set ys. Path e < Path y"
  shows "Path (Entry ed) < Path e \<Longrightarrow> apply_edit ed (xs @ e # ys) = apply_edit ed xs @ e # ys"
    "Path e < Path (Entry ed) \<Longrightarrow> apply_edit ed (xs @ e # ys) = xs @ e # apply_edit ed ys"
    "Path (Entry ed) = Path e \<Longrightarrow>
       apply_edit ed (xs @ e # ys) = xs @ (if Delete ed then [] else [Entry ed]) @ ys"
proof -
  let ?p = "Path (Entry ed)"
  show "apply_edit ed (xs @ e # ys) = apply_edit ed xs @ e # ys" if "?p < Path e"
  proof -
    have "\<forall>y \<in> set (e # ys). ?p < Path y" using that assms(2) by auto
    moreover from this have "\<forall>y \<in> set (e # ys). Path y \<noteq> ?p" by (metis order.irrefl)
    ultimately show ?thesis
      using put_front [of "e # ys" "Entry ed" xs] del_front [of "e # ys" ?p xs] by (auto simp: apply_edit_def)
  qed
  show "apply_edit ed (xs @ e # ys) = xs @ e # apply_edit ed ys" if "Path e < ?p"
  proof -
    have "\<forall>x \<in> set (xs @ [e]). Path x < ?p" using that assms(1) by auto
    moreover from this have "\<forall>x \<in> set (xs @ [e]). Path x \<noteq> ?p" by (metis order.irrefl)
    ultimately show ?thesis
      using put_append [of "xs @ [e]" "Entry ed" ys] del_append [of "xs @ [e]" ?p ys]
      by (auto simp: apply_edit_def)
  qed
  show "apply_edit ed (xs @ e # ys) = xs @ (if Delete ed then [] else [Entry ed]) @ ys" if "?p = Path e"
  proof -
    have "\<forall>x \<in> set xs. Path x \<noteq> Path e" using assms(1) by (metis order.irrefl)
    then show ?thesis
      using that assms put_append [of xs "Entry ed" "e # ys"] del_append [of xs ?p "e # ys"]
      by (auto simp: apply_edit_def)
  qed
qed

lemma apply_edit_members:
  "x \<in> set (apply_edit ed xs) \<Longrightarrow> x \<in> set xs \<or> (x = Entry ed \<and> \<not> Delete ed)"
proof -
  have "x \<in> set (put e xs) \<Longrightarrow> x = e \<or> x \<in> set xs" for e
    by (induction xs) (auto split: if_splits)
  moreover have "x \<in> set (del p xs) \<Longrightarrow> x \<in> set xs" for p
    by (induction xs) (auto split: if_splits)
  ultimately show "x \<in> set (apply_edit ed xs) \<Longrightarrow> ?thesis" by (auto simp: apply_edit_def split: if_splits)
qed

subsection \<open>Joining and updating\<close>

lemma joinNodes_unfold [simp]:
  "joinNodes sha Leaf b = b" "joinNodes sha a Leaf = a"
  "joinNodes sha (mk sha l e r) (mk sha l' e' r') =
     (if prio sha e < prio sha e' then mk sha l e (joinNodes sha r (mk sha l' e' r'))
      else mk sha (joinNodes sha (mk sha l e r) l') e' r')"
  by (simp_all add: joinNodes.simps [of sha])

lemma joinNodes_ok:
  assumes "tree_ok sha a" "tree_ok sha b" "\<forall>x \<in> set (inorder a). \<forall>y \<in> set (inorder b). Path x < Path y"
  shows "tree_ok sha (joinNodes sha a b) \<and> inorder (joinNodes sha a b) = inorder a @ inorder b"
proof -
  have "wf_node sha a" "wf_node sha b" using assms by (simp_all add: tree_ok_def)
  then show ?thesis using assms
  proof (induction arbitrary: b rule: wf_induct)
    case (node l e r)
    note IHr = node.IH(2)
    have wfl: "tree_ok sha (mk sha l e r)" by fact
    from node.prems(1) show ?case using node.prems(3,4)
    proof (induction rule: wf_induct)
      case inner: (node l' e' r')
      have cross: "Path x < Path y" if "x \<in> set (inorder l) \<union> {e} \<union> set (inorder r)"
        "y \<in> set (inorder l') \<union> {e'} \<union> set (inorder r')" for x y
        using inner.prems(2) that by auto
      show ?case
      proof (cases "prio sha e < prio sha e'")
        case True
        let ?j = "joinNodes sha r (mk sha l' e' r')"
        have j: "tree_ok sha ?j" "inorder ?j = inorder r @ inorder l' @ e' # inorder r'"
          using IHr [of "mk sha l' e' r'"] inner.hyps inner.prems(1) wfl cross by (auto simp: tree_ok_mk)
        have "prio sha e < prio sha y" if "y \<in> set (inorder l') \<union> {e'} \<union> set (inorder r')" for y
          using that True inner.prems(1) by (auto simp: tree_ok_mk intro: less_trans)
        then show ?thesis
          using True j wfl cross by (auto simp: tree_ok_mk)
      next
        case False
        let ?j = "joinNodes sha (mk sha l e r) l'"
        have j: "tree_ok sha ?j" "inorder ?j = inorder l @ e # inorder r @ inorder l'"
          using inner.IH(1) inner.prems(1) cross by (auto simp: tree_ok_mk)
        have "e \<noteq> e'" using cross [of e e'] by auto
        moreover have "Path e \<noteq> Path e'" using cross [of e e'] by auto
        ultimately have "prio sha e' < prio sha e" using False by (auto simp: prio_def)
        then have "prio sha e' < prio sha x" if "x \<in> set (inorder l) \<union> {e} \<union> set (inorder r)" for x
          using that wfl by (auto simp: tree_ok_mk intro: less_trans)
        then show ?thesis using False j inner.prems(1) cross by (auto simp: tree_ok_mk)
      qed
    qed (use wfl in simp)
  qed simp
qed

lemma updateNode_mk:
  "updateNode sha Leaf ed = (if Delete ed then Leaf else mk sha Leaf (Entry ed) Leaf)"
  "updateNode sha (mk sha l e r) ed =
     (if Path (Entry ed) = Path e then
        if Delete ed then joinNodes sha l r else mk sha l (Entry ed) r
      else if Path (Entry ed) < Path e then
        let l' = updateNode sha l ed
        in if l' \<noteq> l \<and> l' \<noteq> Leaf \<and> higher l' (mk sha l' e r)
           then rehash sha (set_right l' (mk sha (nright l') e r))
           else mk sha l' e r
      else
        let r' = updateNode sha r ed
        in if r' \<noteq> r \<and> r' \<noteq> Leaf \<and> higher r' (mk sha l e r')
           then rehash sha (set_left r' (mk sha l e (nleft r')))
           else mk sha l e r')"
proof -
  show "updateNode sha Leaf ed = (if Delete ed then Leaf else mk sha Leaf (Entry ed) Leaf)"
    by (simp del: rehash.simps)
  let ?d = "sha (nodeDigest l @ entryDigest sha e @ nodeDigest r)"
  let ?k = "1 + count_of l + count_of r" and ?h = "1 + max (height_of l) (height_of r)"
  let ?N = "\<lambda>l r. Node e (sha (Path e)) (entryDigest sha e) ?d l r ?k ?h"
  have m: "mk sha l e r = ?N l r" by (simp add: mk_def)
  have hi: "higher x (?N a b) = higher x (mk sha a e b)" for x a b by (simp add: higher_def)
  have sl: "rehash sha (set_left (?N a b) x) = mk sha x e b" "rehash sha (set_right (?N a b) x) = mk sha a e x" for a b x
    by (simp_all add: set_left_def set_right_def del: rehash.simps)
  have re: "rehash sha (?N a b) = mk sha a e b" for a b by (rule rehash_mk)
  have entry: "rehash sha (Node (Entry ed) (sha (Path e)) (entryDigest sha (Entry ed)) ?d l r ?k ?h) = mk sha l (Entry ed) r"
    if "Path (Entry ed) = Path e"
    unfolding that [symmetric] by (rule rehash_mk)
  define l' where "l' = updateNode sha l ed"
  define r' where "r' = updateNode sha r ed"
  have eq: "updateNode sha (?N l r) ed =
     (if Path (Entry ed) = Path e then
        if Delete ed then joinNodes sha l r
        else if Entry ed = e then mk sha l e r else mk sha l (Entry ed) r
      else if Path (Entry ed) < Path e then
        if l' = l then mk sha l e r
        else if l' \<noteq> Leaf \<and> higher l' (mk sha l' e r)
          then rehash sha (set_right l' (mk sha (nright l') e r)) else mk sha l' e r
      else
        if r' = r then mk sha l e r
        else if r' \<noteq> Leaf \<and> higher r' (mk sha l e r')
          then rehash sha (set_left r' (mk sha l e (nleft r'))) else mk sha l e r')"
    unfolding updateNode.simps Let_def l'_def [symmetric] r'_def [symmetric] hi sl re
    unfolding m [symmetric]
    by (rule if_cong [OF refl], rule if_cong [OF refl refl], rule if_cong [OF refl refl entry]) (assumption | rule refl)+
  show "updateNode sha (mk sha l e r) ed =
     (if Path (Entry ed) = Path e then
        if Delete ed then joinNodes sha l r else mk sha l (Entry ed) r
      else if Path (Entry ed) < Path e then
        let l' = updateNode sha l ed
        in if l' \<noteq> l \<and> l' \<noteq> Leaf \<and> higher l' (mk sha l' e r)
           then rehash sha (set_right l' (mk sha (nright l') e r))
           else mk sha l' e r
      else
        let r' = updateNode sha r ed
        in if r' \<noteq> r \<and> r' \<noteq> Leaf \<and> higher r' (mk sha l e r')
           then rehash sha (set_left r' (mk sha l e (nleft r')))
           else mk sha l e r')"
    unfolding Let_def l'_def [symmetric] r'_def [symmetric] eq [unfolded m [symmetric]]
    by presburger
qed

declare updateNode.simps [simp del]

text \<open>Re-attaching a changed child: at most one entry of it may be above the parent.\<close>

lemma attach_left_ok:
  assumes "tree_ok sha l" "tree_ok sha r" "\<forall>x \<in> set (inorder l). Path x < Path e"
    and "\<forall>x \<in> set (inorder r). Path e < Path x \<and> prio sha e < prio sha x"
    and "\<forall>x \<in> set (inorder l). x = n \<or> prio sha e < prio sha x"
    and "changed \<or> (\<forall>x \<in> set (inorder l). prio sha e < prio sha x)"
  defines "t \<equiv> if changed \<and> l \<noteq> Leaf \<and> higher l (mk sha l e r)
    then rehash sha (set_right l (mk sha (nright l) e r)) else mk sha l e r"
  shows "tree_ok sha t \<and> inorder t = inorder l @ e # inorder r"
proof -
  have "wf_node sha l" using assms(1) by (simp add: tree_ok_def)
  then show ?thesis
  proof (cases rule: wf_cases)
    case leaf
    then show ?thesis using assms(2,4) by (simp add: t_def tree_ok_mk)
  next
    case (node l1 e1 r1)
    have ok1: "tree_ok sha l1" "tree_ok sha r1" "\<forall>x \<in> set (inorder l1). Path x < Path e1 \<and> prio sha e1 < prio sha x"
      "\<forall>x \<in> set (inorder r1). Path e1 < Path x \<and> prio sha e1 < prio sha x"
      using assms(1) node by (auto simp: tree_ok_mk)
    show ?thesis
    proof (cases "changed \<and> prio sha e1 < prio sha e")
      case True
      then have t: "t = mk sha l1 e1 (mk sha r1 e r)" using node by (simp add: t_def)
      have "e1 = n" using True assms(5) node by (auto dest: order.asym)
      then have "prio sha e < prio sha x" if "x \<in> set (inorder r1)" for x
        using that assms(5) ok1(4) node by fastforce
      then show ?thesis
        using t True ok1 assms(2-4) node by (auto simp: tree_ok_mk intro: less_trans)
    next
      case False
      then have t: "t = mk sha l e r" using node by (auto simp: t_def)
      have "prio sha e < prio sha x" if "x \<in> set (inorder l)" for x
      proof (cases changed)
        case True
        have "Path e1 < Path e" using assms(3) node by simp
        then have "prio sha e < prio sha e1" using False True by (auto simp: prio_def)
        then show ?thesis using that node ok1(3,4) by (auto intro: less_trans)
      qed (use that assms(6) in blast)
      then show ?thesis using t assms(1-4) by (auto simp: tree_ok_mk)
    qed
  qed
qed

lemma attach_right_ok:
  assumes "tree_ok sha l" "tree_ok sha r" "\<forall>x \<in> set (inorder r). Path e < Path x"
    and "\<forall>x \<in> set (inorder l). Path x < Path e \<and> prio sha e < prio sha x"
    and "\<forall>x \<in> set (inorder r). x = n \<or> prio sha e < prio sha x"
    and "changed \<or> (\<forall>x \<in> set (inorder r). prio sha e < prio sha x)"
  defines "t \<equiv> if changed \<and> r \<noteq> Leaf \<and> higher r (mk sha l e r)
    then rehash sha (set_left r (mk sha l e (nleft r))) else mk sha l e r"
  shows "tree_ok sha t \<and> inorder t = inorder l @ e # inorder r"
proof -
  have "wf_node sha r" using assms(2) by (simp add: tree_ok_def)
  then show ?thesis
  proof (cases rule: wf_cases)
    case leaf
    then show ?thesis using assms(1,4) by (simp add: t_def tree_ok_mk)
  next
    case (node l1 e1 r1)
    have ok1: "tree_ok sha l1" "tree_ok sha r1" "\<forall>x \<in> set (inorder l1). Path x < Path e1 \<and> prio sha e1 < prio sha x"
      "\<forall>x \<in> set (inorder r1). Path e1 < Path x \<and> prio sha e1 < prio sha x"
      using assms(2) node by (auto simp: tree_ok_mk)
    show ?thesis
    proof (cases "changed \<and> prio sha e1 < prio sha e")
      case True
      then have t: "t = mk sha (mk sha l e l1) e1 r1" using node by (simp add: t_def)
      have "e1 = n" using True assms(5) node by (auto dest: order.asym)
      then have "prio sha e < prio sha x" if "x \<in> set (inorder l1)" for x
        using that assms(5) ok1(3) node by fastforce
      then show ?thesis
        using t True ok1 assms(1,3,4) node by (auto simp: tree_ok_mk intro: less_trans)
    next
      case False
      then have t: "t = mk sha l e r" using node by (auto simp: t_def)
      have "prio sha e < prio sha x" if "x \<in> set (inorder r)" for x
      proof (cases changed)
        case True
        have "Path e < Path e1" using assms(3) node by simp
        then have "prio sha e < prio sha e1" using False True by (auto simp: prio_def)
        then show ?thesis using that node ok1(3,4) by (auto intro: less_trans)
      qed (use that assms(6) in blast)
      then show ?thesis using t assms(1-4) by (auto simp: tree_ok_mk)
    qed
  qed
qed

lemma updateNode_ok:
  assumes "tree_ok sha t"
  shows "tree_ok sha (updateNode sha t ed) \<and> inorder (updateNode sha t ed) = apply_edit ed (inorder t)"
proof -
  have "wf_node sha t" using assms by (simp add: tree_ok_def)
  then show ?thesis using assms
  proof (induction rule: wf_induct)
    case leaf
    then show ?case by (auto simp: updateNode_mk(1) apply_edit_def tree_ok_mk)
  next
    case (node l e r)
    let ?p = "Path (Entry ed)"
    have ok: "tree_ok sha l" "tree_ok sha r"
      "\<forall>x \<in> set (inorder l). Path x < Path e" "\<forall>x \<in> set (inorder r). Path e < Path x"
      "\<forall>x \<in> set (inorder l). prio sha e < prio sha x" "\<forall>x \<in> set (inorder r). prio sha e < prio sha x"
      using node.prems by (auto simp: tree_ok_mk)
    note middle = edit_middle [OF ok(3,4), of ed]
    have mem: "x = Entry ed \<or> x \<in> set xs" if "x \<in> set (apply_edit ed xs)" for x xs
      using apply_edit_members that by blast
    consider (eq) "?p = Path e" | (less) "?p < Path e" | (more) "Path e < ?p" by (metis linorder_cases)
    then show ?case
    proof cases
      case eq
      have prio: "prio sha (Entry ed) = prio sha e" using eq by (simp add: prio_def)
      have "\<forall>x \<in> set (inorder l). \<forall>y \<in> set (inorder r). Path x < Path y" using ok(3,4) by (meson less_trans)
      from joinNodes_ok [OF ok(1,2) this] show ?thesis
        using eq middle(3) ok prio by (auto simp: updateNode_mk tree_ok_mk)
    next
      case less
      let ?l = "updateNode sha l ed"
      have l: "tree_ok sha ?l" "inorder ?l = apply_edit ed (inorder l)" using node.IH(1) ok(1) by blast+
      have "tree_ok sha (updateNode sha (mk sha l e r) ed) \<and>
          inorder (updateNode sha (mk sha l e r) ed) = inorder ?l @ e # inorder r"
      proof -
        have "updateNode sha (mk sha l e r) ed =
            (if ?l \<noteq> l \<and> ?l \<noteq> Leaf \<and> higher ?l (mk sha ?l e r)
             then rehash sha (set_right ?l (mk sha (nright ?l) e r)) else mk sha ?l e r)"
          using less_imp_neq [OF less] by (simp only: updateNode_mk(2) Let_def less if_True if_False simp_thms)
        moreover have "\<forall>x \<in> set (inorder ?l). Path x < Path e" "\<forall>x \<in> set (inorder ?l). x = Entry ed \<or> prio sha e < prio sha x"
          using mem [of _ "inorder l"] l(2) less ok(3,5) by auto
        moreover have "\<forall>x \<in> set (inorder r). Path e < Path x \<and> prio sha e < prio sha x" using ok(4,6) by blast
        moreover have "?l \<noteq> l \<or> (\<forall>x \<in> set (inorder ?l). prio sha e < prio sha x)" using ok(5) by auto
        ultimately show ?thesis using attach_left_ok [OF l(1) ok(2), of e "Entry ed" "?l \<noteq> l"] by presburger
      qed
      then show ?thesis using middle(1) [OF less] l(2) by simp
    next
      case more
      let ?r = "updateNode sha r ed"
      have r: "tree_ok sha ?r" "inorder ?r = apply_edit ed (inorder r)" using node.IH(2) ok(2) by blast+
      have "tree_ok sha (updateNode sha (mk sha l e r) ed) \<and>
          inorder (updateNode sha (mk sha l e r) ed) = inorder l @ e # inorder ?r"
      proof -
        have "updateNode sha (mk sha l e r) ed =
            (if ?r \<noteq> r \<and> ?r \<noteq> Leaf \<and> higher ?r (mk sha l e ?r)
             then rehash sha (set_left ?r (mk sha l e (nleft ?r))) else mk sha l e ?r)"
          unfolding updateNode_mk(2) Let_def
            if_not_P [OF less_imp_neq [OF more, THEN not_sym]] if_not_P [OF less_not_sym [OF more]] ..
        moreover have "\<forall>x \<in> set (inorder ?r). Path e < Path x" "\<forall>x \<in> set (inorder ?r). x = Entry ed \<or> prio sha e < prio sha x"
          using mem [of _ "inorder r"] r(2) more ok(4,6) by auto
        moreover have "\<forall>x \<in> set (inorder l). Path x < Path e \<and> prio sha e < prio sha x" using ok(3,5) by blast
        moreover have "?r \<noteq> r \<or> (\<forall>x \<in> set (inorder ?r). prio sha e < prio sha x)" using ok(6) by auto
        ultimately show ?thesis using attach_right_ok [OF ok(1) r(1), of e "Entry ed" "?r \<noteq> r"] by presburger
      qed
      then show ?thesis using middle(2) [OF more] r(2) by simp
    qed
  qed
qed

end
