(* ===== verification/Manifest_Build.thy ===== *)
theory Manifest_Build
  imports Manifest_Treap
begin

text \<open>
  \<open>buildTree\<close> of \<open>internal/manifest/tree.go\<close> builds the index of a sorted inventory from its
  right spine and hashes it in one pass, in parallel for large trees. It gives the same nodes
  as inserting the entries one by one, and fails exactly when that tree is too high.
\<close>

subsection \<open>Unfinished nodes\<close>

text \<open>Before the hash pass a node has its priority, count and height, and no digests.\<close>

definition raw_mk :: "(bytes \<Rightarrow> bytes) \<Rightarrow> node \<Rightarrow> manifest_entry \<Rightarrow> node \<Rightarrow> node" where
  "raw_mk sha l e r =
     Node e (sha (Path e)) zero_digest zero_digest l r (1 + count_of l + count_of r) (1 + max (height_of l) (height_of r))"

fun raw :: "(bytes \<Rightarrow> bytes) \<Rightarrow> node \<Rightarrow> bool" where
  "raw sha Leaf = True"
| "raw sha (Node e p c d l r k h) \<longleftrightarrow> Node e p c d l r k h = raw_mk sha l e r \<and> raw sha l \<and> raw sha r"

definition spine_node :: "(bytes \<Rightarrow> bytes) \<Rightarrow> node \<Rightarrow> manifest_entry \<Rightarrow> node" where
  "spine_node sha l e = Node e (sha (Path e)) zero_digest zero_digest l Leaf 0 0"

definition spine :: "(bytes \<Rightarrow> bytes) \<Rightarrow> node list \<Rightarrow> bool" where
  "spine sha stack \<longleftrightarrow> (\<forall>n \<in> set stack. \<exists>l e. n = spine_node sha l e)"

definition good :: "(bytes \<Rightarrow> bytes) \<Rightarrow> node \<Rightarrow> bool" where
  "good sha t \<longleftrightarrow> raw sha t \<and> treap sha t"

lemma raw_mk_sel [simp]:
  "count_of (raw_mk sha l e r) = 1 + count_of l + count_of r"
  "height_of (raw_mk sha l e r) = 1 + max (height_of l) (height_of r)"
  "nheight (raw_mk sha l e r) = 1 + max (height_of l) (height_of r)"
  "inorder (raw_mk sha l e r) = inorder l @ e # inorder r"
  "raw sha (raw_mk sha l e r) \<longleftrightarrow> raw sha l \<and> raw sha r"
  "finishSubtree sha (raw_mk sha l e r) = mk sha (finishSubtree sha l) e (finishSubtree sha r)"
  by (simp_all add: raw_mk_def count_of_def height_of_def rehash_mk del: rehash.simps)

lemma good_raw_mk:
  "good sha (raw_mk sha l e r) \<longleftrightarrow> good sha l \<and> good sha r \<and>
     (\<forall>x \<in> set (inorder l). Path x < Path e \<and> prio sha e < prio sha x) \<and>
     (\<forall>x \<in> set (inorder r). Path e < Path x \<and> prio sha e < prio sha x)"
  by (auto simp: good_def raw_mk_def)

lemma good_Leaf [simp]: "good sha Leaf"
  by (simp add: good_def)

lemma recount_spine [simp]: "recount (set_right (spine_node sha l e) r) = raw_mk sha l e r"
  by (auto simp: spine_node_def set_right_def raw_mk_def height_of_def split: node.splits)

lemma new_node_spine: "new_node sha e = spine_node sha Leaf e" "set_left (new_node sha e) l = spine_node sha l e"
  "set_left (spine_node sha Leaf e) l = spine_node sha l e"
  by (simp_all add: new_node_def spine_node_def set_left_def)

lemma higher_spine [simp]:
  "higher (spine_node sha l e) (spine_node sha l' e') \<longleftrightarrow> prio sha e < prio sha e'"
  by (auto simp: higher_def prio_def spine_node_def)

lemma spine_node_inject [simp]: "spine_node sha l e = spine_node sha l' e' \<longleftrightarrow> l = l' \<and> e = e'"
  by (auto simp: spine_node_def)

lemma spine_node_entry [simp]: "nentry (spine_node sha l e) = e"
  by (simp add: spine_node_def)

lemma spine_Nil [simp]: "spine sha []"
  by (simp add: spine_def)

lemma spine_Cons: "spine sha (n # ns) \<longleftrightarrow> (\<exists>l e. n = spine_node sha l e) \<and> spine sha ns"
  by (simp add: spine_def)

subsection \<open>The hash pass\<close>

lemma inorder_finish [simp]: "raw sha t \<Longrightarrow> inorder (finishSubtree sha t) = inorder t"
proof (induction t)
  case (Node e p c d l r k h)
  have "Node e p c d l r k h = raw_mk sha l e r" using Node.prems by simp
  then show ?case using Node by simp
qed simp

lemma finish_raw:
  "raw sha t \<Longrightarrow>
     wf_node sha (finishSubtree sha t) \<and> count_of (finishSubtree sha t) = count_of t \<and>
     height_of (finishSubtree sha t) = height_of t"
proof (induction t)
  case (Node e p c d l r k h)
  have eq: "Node e p c d l r k h = raw_mk sha l e r" using Node.prems by simp
  have "raw sha l" "raw sha r" using Node.prems by simp_all
  with Node.IH show ?case unfolding eq by simp
qed simp

lemma finish_ok: "good sha t \<Longrightarrow> tree_ok sha (finishSubtree sha t)"
proof (induction t)
  case (Node e p c d l r k h)
  have eq: "Node e p c d l r k h = raw_mk sha l e r" using Node.prems by (simp add: good_def)
  have "good sha l" "good sha r" using Node.prems by (simp_all add: eq good_raw_mk)
  moreover from this have "raw sha l" "raw sha r" by (simp_all add: good_def)
  ultimately show ?case
    using Node unfolding eq by (simp add: good_raw_mk tree_ok_mk)
qed simp

lemma finish_parents_eq: "finish_parents sha threshold t = finishSubtree sha t"
  by (induction t) simp_all

lemma finishTree_eq: "finishTree sha gomaxprocs t = finishSubtree sha t"
  by (simp add: finishTree_def finish_parents_eq Let_def)

subsection \<open>The spine without the height limit\<close>

fun close_all :: "node list \<Rightarrow> node \<Rightarrow> node" where
  "close_all [] acc = acc"
| "close_all (peak # stack) acc = close_all stack (recount (set_right peak acc))"

fun pop_all :: "node \<Rightarrow> node list \<Rightarrow> node \<Rightarrow> node list \<times> node" where
  "pop_all n [] acc = ([], acc)"
| "pop_all n (peak # stack) acc =
     (if higher n peak then pop_all n stack (recount (set_right peak acc)) else (peak # stack, acc))"

fun spine_all :: "(bytes \<Rightarrow> bytes) \<Rightarrow> node list \<Rightarrow> manifest_entry list \<Rightarrow> node list" where
  "spine_all sha stack [] = stack"
| "spine_all sha stack (e # es) =
     (case pop_all (new_node sha e) stack Leaf of
        (rest, acc) \<Rightarrow> spine_all sha (set_left (new_node sha e) acc # rest) es)"

lemma close_all_grows:
  "spine sha stack \<Longrightarrow> height_of acc \<le> height_of (close_all stack acc)"
proof (induction stack arbitrary: acc)
  case (Cons n ns)
  then obtain l e where n: "n = spine_node sha l e" by (auto simp: spine_Cons)
  have "height_of acc \<le> height_of (raw_mk sha l e acc)" by simp
  also have "\<dots> \<le> height_of (close_all ns (raw_mk sha l e acc))"
    by (rule Cons.IH) (use Cons.prems in \<open>simp add: spine_Cons\<close>)
  finally show ?case by (simp add: n)
qed simp

lemma close_all_mono:
  "spine sha stack \<Longrightarrow> height_of a \<le> height_of b \<Longrightarrow> height_of (close_all stack a) \<le> height_of (close_all stack b)"
proof (induction stack arbitrary: a b)
  case (Cons n ns)
  then obtain l e where n: "n = spine_node sha l e" by (auto simp: spine_Cons)
  have "height_of (raw_mk sha l e a) \<le> height_of (raw_mk sha l e b)" using Cons.prems by simp
  then show ?case using Cons.IH [of "raw_mk sha l e a" "raw_mk sha l e b"] Cons.prems by (simp add: n spine_Cons)
qed simp

lemma pop_all_close: "pop_all n stack acc = (rest, acc') \<Longrightarrow> close_all rest acc' = close_all stack acc"
  by (induction n stack acc rule: pop_all.induct) (auto split: if_splits)

lemma pop_all_spine: "pop_all n stack acc = (rest, acc') \<Longrightarrow> spine sha stack \<Longrightarrow> spine sha rest"
  by (induction n stack acc rule: pop_all.induct) (auto split: if_splits simp: spine_Cons)

lemma build_pop_limit:
  assumes "spine sha stack"
  shows "build_pop n stack acc = Some (pop_all n stack acc) \<or>
     (build_pop n stack acc = None \<and> maxHeight < height_of (close_all stack acc))"
  using assms
proof (induction n stack acc rule: build_pop.induct)
  case (2 n peak stack acc)
  then obtain l e where peak: "peak = spine_node sha l e" by (auto simp: spine_Cons)
  have "height_of (raw_mk sha l e acc) \<le> height_of (close_all stack (raw_mk sha l e acc))"
    by (rule close_all_grows [of sha]) (use 2 in \<open>simp add: spine_Cons\<close>)
  then show ?case using 2 by (auto simp: peak spine_Cons Let_def)
qed simp

lemma spine_all_grows:
  "spine sha stack \<Longrightarrow>
     spine sha (spine_all sha stack es) \<and>
     height_of (close_all stack Leaf) \<le> height_of (close_all (spine_all sha stack es) Leaf)"
proof (induction sha stack es rule: spine_all.induct)
  case (2 sha stack e es)
  obtain rest acc where pop: "pop_all (new_node sha e) stack Leaf = (rest, acc)" by fastforce
  let ?s = "set_left (new_node sha e) acc # rest"
  have rest: "spine sha rest" by (rule pop_all_spine [OF pop 2(2)])
  then have s: "spine sha ?s" by (simp add: spine_Cons new_node_spine)
  have "height_of (close_all stack Leaf) = height_of (close_all rest acc)" using pop_all_close [OF pop] by simp
  also have "\<dots> \<le> height_of (close_all ?s Leaf)"
    using close_all_mono [OF rest, of acc "raw_mk sha acc e Leaf"] by (simp add: new_node_spine)
  finally show ?case using 2(1) [OF pop [symmetric] s] by (simp add: pop)
qed simp

lemma build_spine_limit:
  assumes "spine sha stack"
  shows "build_spine sha stack es = Some (spine_all sha stack es) \<or>
     (build_spine sha stack es = None \<and> maxHeight < height_of (close_all (spine_all sha stack es) Leaf))"
  using assms
proof (induction sha stack es rule: build_spine.induct)
  case (2 sha stack e es)
  obtain rest acc where pop: "pop_all (new_node sha e) stack Leaf = (rest, acc)" by fastforce
  from build_pop_limit [OF 2(2), of "new_node sha e" Leaf] show ?case
  proof
    assume p: "build_pop (new_node sha e) stack Leaf = Some (pop_all (new_node sha e) stack Leaf)"
    have "spine sha (set_left (new_node sha e) acc # rest)"
      using pop_all_spine [OF pop 2(2)] by (auto simp: spine_Cons new_node_spine)
    then show ?case using 2(1) [OF p [unfolded pop] refl] p by (auto simp: pop)
  next
    assume "build_pop (new_node sha e) stack Leaf = None \<and> maxHeight < height_of (close_all stack Leaf)"
    then show ?case using spine_all_grows [OF 2(2), of "e # es"] by (auto simp: pop)
  qed
qed simp

lemma build_close_limit:
  assumes "spine sha stack" "stack \<noteq> [] \<or> height_of acc \<le> maxHeight"
  shows "build_close stack acc =
     (if maxHeight < height_of (close_all stack acc) then None else Some (close_all stack acc))"
  using assms
proof (induction stack acc rule: build_close.induct)
  case (2 peak stack acc)
  then obtain l e where peak: "peak = spine_node sha l e" by (auto simp: spine_Cons)
  have "height_of (raw_mk sha l e acc) \<le> height_of (close_all stack (raw_mk sha l e acc))"
    by (rule close_all_grows [of sha]) (use 2 in \<open>simp add: spine_Cons\<close>)
  then show ?case using 2 by (auto simp: peak spine_Cons Let_def)
qed simp


subsection \<open>The spine is the treap\<close>

lemma good_close_acc: "spine sha stack \<Longrightarrow> good sha (close_all stack acc) \<Longrightarrow> good sha acc"
proof (induction stack arbitrary: acc)
  case (Cons n ns)
  then show ?case by (fastforce simp: spine_Cons good_raw_mk)
qed simp

lemma inorder_close_acc:
  "spine sha stack \<Longrightarrow> \<exists>xs. inorder (close_all stack acc) = xs @ inorder acc"
proof (induction stack arbitrary: acc)
  case (Cons n ns)
  then obtain l e where n: "n = spine_node sha l e" by (auto simp: spine_Cons)
  have "spine sha ns" using Cons.prems by (simp add: spine_Cons)
  from Cons.IH [OF this, of "raw_mk sha l e acc"]
  obtain xs where "inorder (close_all ns (raw_mk sha l e acc)) = xs @ inorder (raw_mk sha l e acc)" ..
  then show ?case by (simp add: n)
qed simp

definition above :: "(bytes \<Rightarrow> bytes) \<Rightarrow> node list \<Rightarrow> manifest_entry \<Rightarrow> bool" where
  "above sha stack e \<longleftrightarrow> stack = [] \<or> prio sha (nentry (hd stack)) < prio sha e"

lemma close_all_snoc:
  assumes "spine sha stack" "good sha (close_all stack a)" "good sha b" "inorder b = inorder a @ [e]"
    and "above sha stack e" "\<forall>x \<in> set (inorder (close_all stack a)). Path x < Path e"
  shows "good sha (close_all stack b) \<and> inorder (close_all stack b) = inorder (close_all stack a) @ [e]"
  using assms
proof (induction stack arbitrary: a b)
  case (Cons n ns)
  obtain l e' where n: "n = spine_node sha l e'" and ns: "spine sha ns"
    using \<open>spine sha (n # ns)\<close> by (auto simp: spine_Cons)
  have a: "good sha (raw_mk sha l e' a)" using good_close_acc [OF ns] Cons.prems(2) by (simp add: n)
  obtain xs where xs: "inorder (close_all ns (raw_mk sha l e' a)) = xs @ inorder (raw_mk sha l e' a)"
    using inorder_close_acc [OF ns] by blast
  then have "Path e' < Path e" using Cons.prems(6) by (simp add: n)
  moreover have lt: "prio sha e' < prio sha e" using Cons.prems(5) by (simp add: above_def n)
  ultimately have b: "good sha (raw_mk sha l e' b)"
    using a Cons.prems(3,4) by (auto simp: good_raw_mk)
  have "above sha ns e"
  proof (cases ns)
    case (Cons m ms)
    then obtain l2 e2 where m: "m = spine_node sha l2 e2" and ms: "spine sha ms" using ns by (auto simp: spine_Cons)
    have "good sha (raw_mk sha l2 e2 (raw_mk sha l e' a))"
      using good_close_acc [OF ms] Cons.prems(2) by (simp add: n Cons m)
    then have "prio sha e2 < prio sha e'" by (auto simp: good_raw_mk)
    then show ?thesis using lt by (simp add: above_def Cons m)
  qed (simp add: above_def)
  then show ?case
    using Cons.IH [OF ns, of "raw_mk sha l e' a" "raw_mk sha l e' b"] Cons.prems b by (simp add: n)
qed simp

lemma pop_all_above:
  assumes "pop_all (spine_node sha Leaf e) stack acc = (rest, acc')" "spine sha stack"
    and "good sha (close_all stack acc)" "\<forall>x \<in> set (inorder acc). prio sha e < prio sha x"
    and "\<forall>x \<in> set (inorder (close_all stack acc)). Path x < Path e"
  shows "above sha rest e \<and> (\<forall>x \<in> set (inorder acc'). prio sha e < prio sha x)"
  using assms
proof (induction stack arbitrary: acc)
  case (Cons n ns)
  obtain l e' where n: "n = spine_node sha l e'" and ns: "spine sha ns"
    using \<open>spine sha (n # ns)\<close> by (auto simp: spine_Cons)
  have a: "good sha (raw_mk sha l e' acc)" using good_close_acc [OF ns] Cons.prems(3) by (simp add: n)
  show ?case
  proof (cases "prio sha e < prio sha e'")
    case True
    have "\<forall>x \<in> set (inorder (raw_mk sha l e' acc)). prio sha e < prio sha x"
      using a True Cons.prems(4) by (auto simp: good_raw_mk intro: less_trans)
    then show ?thesis using Cons.IH [of "raw_mk sha l e' acc"] ns Cons.prems True by (simp add: n)
  next
    case False
    obtain xs where xs: "inorder (close_all ns (raw_mk sha l e' acc)) = xs @ inorder (raw_mk sha l e' acc)"
      using inorder_close_acc [OF ns] by blast
    then have "Path e' < Path e" using Cons.prems(5) by (simp add: n)
    then have "prio sha e' < prio sha e" using False by (auto simp: prio_def)
    then show ?thesis using False Cons.prems by (auto simp: n above_def)
  qed
qed (auto simp: above_def)

lemma spine_all_ok:
  assumes "spine sha stack" "good sha (close_all stack Leaf)" "path_sorted (inorder (close_all stack Leaf) @ es)"
  shows "good sha (close_all (spine_all sha stack es) Leaf) \<and>
     inorder (close_all (spine_all sha stack es) Leaf) = inorder (close_all stack Leaf) @ es"
  using assms
proof (induction sha stack es rule: spine_all.induct)
  case (2 sha stack e es)
  obtain rest acc where pop: "pop_all (new_node sha e) stack Leaf = (rest, acc)" by fastforce
  let ?s = "set_left (new_node sha e) acc # rest"
  have rest: "spine sha rest" by (rule pop_all_spine [OF pop 2(2)])
  then have s: "spine sha ?s" by (simp add: spine_Cons new_node_spine)
  have close: "close_all rest acc = close_all stack Leaf" by (rule pop_all_close [OF pop])
  have less: "\<forall>x \<in> set (inorder (close_all rest acc)). Path x < Path e"
    using 2(4) by (auto simp: close sorted_wrt_append)
  have ab: "above sha rest e \<and> (\<forall>x \<in> set (inorder acc). prio sha e < prio sha x)"
    using pop_all_above [of sha e stack Leaf rest acc] pop 2 less by (simp add: new_node_spine close)
  have acc: "good sha acc" using good_close_acc [OF rest] 2(3) by (simp add: close)
  obtain xs where "inorder (close_all rest acc) = xs @ inorder acc" using inorder_close_acc [OF rest] by blast
  then have "good sha (raw_mk sha acc e Leaf)" using acc ab less by (auto simp: good_raw_mk)
  then have "good sha (close_all ?s Leaf) \<and> inorder (close_all ?s Leaf) = inorder (close_all stack Leaf) @ [e]"
    using close_all_snoc [OF rest, of acc "raw_mk sha acc e Leaf" e] 2(3) ab less by (simp add: new_node_spine close)
  then show ?case using 2(1) [OF pop [symmetric] s] 2(4) by (simp add: pop)
qed simp

text \<open>The index of an inventory, entry by entry.\<close>

definition canonical :: "(bytes \<Rightarrow> bytes) \<Rightarrow> manifest_entry list \<Rightarrow> node" where
  "canonical sha es = fold (\<lambda>e t. updateNode sha t \<lparr>Entry = e, Delete = False\<rparr>) es Leaf"

lemma put_snoc: "path_sorted (xs @ [e]) \<Longrightarrow> put e xs = xs @ [e]"
  using put_append [of xs e "[]"] by (auto simp: sorted_wrt_append)

lemma canonical_ok:
  assumes "path_sorted es"
  shows "tree_ok sha (canonical sha es) \<and> inorder (canonical sha es) = es"
  using assms
proof (induction es rule: rev_induct)
  case (snoc e es)
  then have IH: "tree_ok sha (canonical sha es)" "inorder (canonical sha es) = es"
    by (auto simp: sorted_wrt_append)
  have "canonical sha (es @ [e]) = updateNode sha (canonical sha es) \<lparr>Entry = e, Delete = False\<rparr>"
    by (simp add: canonical_def)
  then show ?case
    using updateNode_ok [OF IH(1), of "\<lparr>Entry = e, Delete = False\<rparr>"] IH(2) put_snoc [OF snoc.prems]
    by (simp add: apply_edit_def)
qed (simp add: canonical_def)

lemma canonical_unique: "tree_ok sha t \<Longrightarrow> t = canonical sha (inorder t)"
  using treap_unique canonical_ok tree_ok_sorted by metis

lemma buildTree_canonical:
  assumes "path_sorted es"
  shows "buildTree sha gomaxprocs es =
     (if maxHeight < height_of (canonical sha es) then None else Some (canonical sha es))"
proof -
  let ?t = "close_all (spine_all sha [] es) Leaf"
  have t: "good sha ?t" "inorder ?t = es" using spine_all_ok [of sha "[]" es] assms by simp_all
  then have raw: "raw sha ?t" by (simp add: good_def)
  have fin: "finishSubtree sha ?t = canonical sha es"
    using canonical_unique [OF finish_ok [OF t(1)]] t(2) raw by simp
  have h: "height_of (canonical sha es) = height_of ?t" using finish_raw [OF raw] fin by simp
  have sp: "spine sha (spine_all sha [] es)" using spine_all_grows [of sha "[]" es] by simp
  show ?thesis
  proof (cases "spine_all sha [] es = []")
    case True
    then have "canonical sha es = Leaf" using fin by simp
    then show ?thesis
      using build_spine_limit [of sha "[]" es] True by (auto simp: buildTree_def maxHeight_def)
  next
    case False
    have "build_close (spine_all sha [] es) Leaf = (if maxHeight < height_of ?t then None else Some ?t)"
      by (rule build_close_limit [OF sp]) (use False in simp)
    then show ?thesis
      using build_spine_limit [of sha "[]" es] False h fin
      by (auto simp: buildTree_def finishTree_eq split: list.splits)
  qed
qed


text \<open>Building the index of a sorted inventory in one pass, with the hashing spread over
  any number of workers, gives the same nodes, counts, heights and digests as inserting the
  entries one by one, and is refused exactly when that tree is higher than 128.\<close>

theorem buildTree_incremental:
  assumes "path_sorted es"
  shows "buildTree sha gomaxprocs es =
     (let t = fold (\<lambda>e t. updateNode sha t \<lparr>Entry = e, Delete = False\<rparr>) es Leaf
      in if 128 < height_of t then None else Some t)"
  using buildTree_canonical [OF assms] by (simp add: canonical_def maxHeight_def)

theorem buildTree_incremental_witness:
  "buildTree id 4 [\<lparr>Path = ''a'', Type = EntryDir, Mode = 0, Size = 0, SHA256 = '''', Target = ''''\<rparr>] =
   Some (updateNode id Leaf \<lparr>Entry = \<lparr>Path = ''a'', Type = EntryDir, Mode = 0, Size = 0, SHA256 = '''', Target = ''''\<rparr>, Delete = False\<rparr>)"
  using buildTree_incremental [of "[\<lparr>Path = ''a'', Type = EntryDir, Mode = 0, Size = 0, SHA256 = '''', Target = ''''\<rparr>]" id 4]
  by (simp add: updateNode_mk)

end
