(* ===== verification/Manifest_Diff.thy ===== *)
theory Manifest_Diff
  imports Manifest_Build
begin

text \<open>
  Batch replacement and differences of two indexes (\<open>internal/manifest/tree.go\<close>):
  \<open>replaceNodes\<close> is the sequence of its edits, and \<open>diffNodes\<close>, which skips subtrees with equal
  digests and splits a tree where the other lacks its root, lists the same edits as the linear
  comparison of the two inventories, as long as the hash has no collision on what is hashed.
\<close>

subsection \<open>Splitting\<close>

lemma splitAbsent_mk:
  "splitAbsent sha Leaf q = (Leaf, Leaf)"
  "splitAbsent sha (mk sha l e r) q =
     (if q < Path e then (case splitAbsent sha l q of (a, b) \<Rightarrow> (a, mk sha b e r))
      else (case splitAbsent sha r q of (a, b) \<Rightarrow> (mk sha l e a, b)))"
proof -
  have "splitAbsent sha (Node e (sha (Path e)) (entryDigest sha e) d l r k h) q =
     (if q < Path e then
        (case splitAbsent sha l q of (a, b) \<Rightarrow> (a, if b = l then Node e (sha (Path e)) (entryDigest sha e) d l r k h else mk sha b e r))
      else (case splitAbsent sha r q of
        (a, b) \<Rightarrow> (if a = r then Node e (sha (Path e)) (entryDigest sha e) d l r k h else mk sha l e a, b)))" for d k h
    by (auto simp: rehash_mk split: prod.splits simp del: rehash.simps)
  from this [of "sha (nodeDigest l @ entryDigest sha e @ nodeDigest r)" "1 + count_of l + count_of r"
      "1 + max (height_of l) (height_of r)", folded mk_def]
  show "splitAbsent sha (mk sha l e r) q =
     (if q < Path e then (case splitAbsent sha l q of (a, b) \<Rightarrow> (a, mk sha b e r))
      else (case splitAbsent sha r q of (a, b) \<Rightarrow> (mk sha l e a, b)))"
    by (auto split: prod.splits)
qed simp

lemma splitAbsent_ok:
  assumes "tree_ok sha t" "q \<notin> Path ` set (inorder t)" "splitAbsent sha t q = (a, b)"
  shows "tree_ok sha a \<and> tree_ok sha b \<and> inorder t = inorder a @ inorder b \<and>
     (\<forall>x \<in> set (inorder a). Path x < q) \<and> (\<forall>x \<in> set (inorder b). q < Path x)"
proof -
  have "wf_node sha t" using assms(1) by (simp add: tree_ok_def)
  then show ?thesis using assms
  proof (induction arbitrary: a b rule: wf_induct)
    case (node l e r)
    have ok: "tree_ok sha l" "tree_ok sha r" "\<forall>x \<in> set (inorder l). Path x < Path e" "\<forall>x \<in> set (inorder r). Path e < Path x"
      using node.prems(1) by (auto simp: tree_ok_mk)
    show ?case
    proof (cases "q < Path e")
      case True
      obtain b' where s: "splitAbsent sha l q = (a, b')" "b = mk sha b' e r"
        using node.prems(3) True by (auto simp: splitAbsent_mk split: prod.splits)
      have "q \<notin> Path ` set (inorder l)" using node.prems(2) by auto
      from node.IH(1) [OF ok(1) this s(1)] show ?thesis
        using node.prems(1) True ok(4) s(2) by (auto simp: tree_ok_mk intro: less_trans)
    next
      case False
      then have gt: "Path e < q" using node.prems(2) by auto
      obtain a' where s: "splitAbsent sha r q = (a', b)" "a = mk sha l e a'"
        using node.prems(3) False by (auto simp: splitAbsent_mk split: prod.splits)
      have "q \<notin> Path ` set (inorder r)" using node.prems(2) by auto
      from node.IH(2) [OF ok(2) this s(1)] show ?thesis
        using node.prems(1) gt ok(3) s(2) by (auto simp: tree_ok_mk intro: less_trans)
    qed
  qed simp
qed

subsection \<open>The linear comparison\<close>

text \<open>The loop over two sorted inventories at the end of \<open>Snapshot.Diff\<close>.\<close>

fun diff_entries :: "manifest_entry list \<Rightarrow> manifest_entry list \<Rightarrow> edit list" where
  "diff_entries [] [] = []"
| "diff_entries (x # xs) [] = \<lparr>Entry = x, Delete = True\<rparr> # diff_entries xs []"
| "diff_entries [] (y # ys) = \<lparr>Entry = y, Delete = False\<rparr> # diff_entries [] ys"
| "diff_entries (x # xs) (y # ys) =
     (if Path x < Path y then \<lparr>Entry = x, Delete = True\<rparr> # diff_entries xs (y # ys)
      else if Path y < Path x then \<lparr>Entry = y, Delete = False\<rparr> # diff_entries (x # xs) ys
      else (if x \<noteq> y then [\<lparr>Entry = y, Delete = False\<rparr>] else []) @ diff_entries xs ys)"

lemma diff_entries_same [simp]: "diff_entries xs xs = []"
  by (induction xs) auto

lemma diff_entries_split:
  assumes "\<forall>x \<in> set xs \<union> set ys. \<forall>x' \<in> set xs' \<union> set ys'. Path x < Path x'"
  shows "diff_entries (xs @ xs') (ys @ ys') = diff_entries xs ys @ diff_entries xs' ys'"
  using assms
proof (induction xs ys rule: diff_entries.induct)
  case (2 x xs)
  then show ?case by (cases ys') auto
next
  case (3 y ys)
  then show ?case by (cases xs') (auto dest: less_not_sym)
qed auto

lemma appendNodeEdits_diff:
  "appendNodeEdits t False = diff_entries [] (inorder t)" "appendNodeEdits t True = diff_entries (inorder t) []"
proof -
  have put: "diff_entries [] ys = map (\<lambda>e. \<lparr>Entry = e, Delete = False\<rparr>) ys" for ys by (induction ys) auto
  have del: "diff_entries xs [] = map (\<lambda>e. \<lparr>Entry = e, Delete = True\<rparr>) xs" for xs by (induction xs) auto
  have "appendNodeEdits t remove = map (\<lambda>e. \<lparr>Entry = e, Delete = remove\<rparr>) (inorder t)" for remove
    by (induction t) auto
  then show "appendNodeEdits t False = diff_entries [] (inorder t)" "appendNodeEdits t True = diff_entries (inorder t) []"
    by (simp_all add: put del)
qed

subsection \<open>Encodings\<close>


lemma le_bytes_inject:
  fixes w w' :: "'a :: len word"
  assumes "LENGTH('a) \<le> 8 * n" "le_bytes n w = le_bytes n w'"
  shows "w = w'"
proof (rule bit_word_eqI)
  fix k assume k: "k < LENGTH('a)"
  have c: "char_of (unat (drop_bit (8 * i) w) mod 256) = char_of (unat (drop_bit (8 * i) w') mod 256)" if "i < n" for i
    using assms(2) that by (simp add: le_bytes_def)
  have digit: "bit v k \<longleftrightarrow> bit (of_char (char_of (unat (drop_bit (8 * (k div 8)) v) mod 256)) :: nat) (k mod 8)" for v :: "'a word"
  proof -
    have "(of_char (char_of (unat (drop_bit (8 * (k div 8)) v) mod 256)) :: nat) = take_bit 8 (unat (drop_bit (8 * (k div 8)) v))"
      by (simp add: take_bit_eq_mod)
    moreover have "8 * (k div 8) + k mod 8 = k" by simp
    ultimately show ?thesis by (simp only: bit_take_bit_iff bit_unsigned_iff bit_drop_bit_eq o_def) (use k in simp)
  qed
  have "k div 8 < n" using k assms(1) by (simp add: div_less_iff_less_mult mult.commute)
  then show "bit w k \<longleftrightarrow> bit w' k" unfolding digit [of w] digit [of w'] by (simp only: c)
qed

lemma length_le_bytes [simp]: "length (le_bytes n w) = n"
  by (simp add: le_bytes_def)

lemma of_int_word_inject:
  assumes "- (2 ^ 63) \<le> a" "a < 2 ^ 63" "- (2 ^ 63) \<le> b" "b < 2 ^ 63" "(of_int a :: 64 word) = of_int b"
  shows "a = b"
proof -
  have "sint (of_int k :: 64 word) = k" if "- (2 ^ 63) \<le> k" "k < 2 ^ 63" for k :: int
    using that signed_take_bit_int_eq_self [of 63 k] by (simp add: sint_sbintrunc')
  then show ?thesis using assms by metis
qed

lemma length_prefixed_append:
  assumes "length_prefixed a @ u = length_prefixed b @ v" "length a < 2 ^ 64" "length b < 2 ^ 64"
  shows "a = b \<and> u = v"
proof -
  have eq: "le_bytes 8 (of_nat (length a) :: 64 word) = le_bytes 8 (of_nat (length b) :: 64 word)" "a @ u = b @ v"
    using assms(1) by (simp_all add: length_prefixed_def append_eq_append_conv)
  have "(of_nat (length a) :: 64 word) = of_nat (length b)" by (rule le_bytes_inject [OF _ eq(1)]) simp
  then have "unat (of_nat (length a) :: 64 word) = unat (of_nat (length b) :: 64 word)" by simp
  then have "length a = length b" using assms(2,3) by (simp add: unat_of_nat take_bit_nat_eq_self)
  with eq(2) show ?thesis by simp
qed

text \<open>Go strings are shorter than $2^{64}$ bytes and \<open>Size\<close> is an \<open>int64\<close>.\<close>

definition machine_entry :: "manifest_entry \<Rightarrow> bool" where
  "machine_entry e \<longleftrightarrow> - (2 ^ 63) \<le> Size e \<and> Size e < 2 ^ 63 \<and>
     length (Path e) < 2 ^ 64 \<and> length (Type e) < 2 ^ 64 \<and> length (SHA256 e) < 2 ^ 64 \<and> length (Target e) < 2 ^ 64"

lemma entry_encoding_inject:
  assumes "entry_encoding e = entry_encoding e'" "machine_entry e" "machine_entry e'"
  shows "e = e'"
proof -
  let ?t = "\<lambda>e. le_bytes 4 (Mode e) @ le_bytes 8 (of_int (Size e) :: 64 word)"
  have "length_prefixed (Path e) @ length_prefixed (Type e) @ length_prefixed (SHA256 e) @ length_prefixed (Target e) @ ?t e =
      length_prefixed (Path e') @ length_prefixed (Type e') @ length_prefixed (SHA256 e') @ length_prefixed (Target e') @ ?t e'"
    using assms(1) by (simp add: entry_encoding_def)
  then have eq: "Path e = Path e'" "Type e = Type e'" "SHA256 e = SHA256 e'" "Target e = Target e'" "?t e = ?t e'"
    using assms(2,3) unfolding machine_entry_def by (metis length_prefixed_append)+
  have "le_bytes 4 (Mode e) = le_bytes 4 (Mode e')"
    "le_bytes 8 (of_int (Size e) :: 64 word) = le_bytes 8 (of_int (Size e') :: 64 word)"
    using eq(5) by (simp_all add: append_eq_append_conv)
  then have "Mode e = Mode e'" "(of_int (Size e) :: 64 word) = of_int (Size e')"
    using le_bytes_inject [of 4 "Mode e" "Mode e'"]
      le_bytes_inject [of 8 "of_int (Size e) :: 64 word" "of_int (Size e')"] by simp_all
  then show ?thesis
    using eq(1-4) assms(2,3) of_int_word_inject [of "Size e" "Size e'"] by (simp add: machine_entry_def)
qed
subsection \<open>Digests identify trees\<close>

text \<open>What is hashed for indexes over the entries \<open>E\<close>: the entries, and the children's digests
  around an entry's digest. \<open>collision_free\<close> is what the code relies on of SHA-256: 32-byte
  digests, no collision among these inputs, and no input with the all-zero digest that stands
  for the empty tree.\<close>

definition hash_inputs :: "(bytes \<Rightarrow> bytes) \<Rightarrow> manifest_entry set \<Rightarrow> bytes set" where
  "hash_inputs sha E = entry_encoding ` E \<union>
     {nodeDigest l @ entryDigest sha e @ nodeDigest r | l e r.
        tree_ok sha (mk sha l e r) \<and> set (inorder (mk sha l e r)) \<subseteq> E}"

definition collision_free :: "(bytes \<Rightarrow> bytes) \<Rightarrow> manifest_entry set \<Rightarrow> bool" where
  "collision_free sha E \<longleftrightarrow> inj_on sha (hash_inputs sha E) \<and> (\<forall>x. length (sha x) = 32) \<and>
     (\<forall>x \<in> hash_inputs sha E. sha x \<noteq> zero_digest) \<and> (\<forall>e \<in> E. machine_entry e)"

lemma digest_length: "collision_free sha E \<Longrightarrow> wf_node sha t \<Longrightarrow> length (nodeDigest t) = 32"
  by (erule wf_cases) (simp_all add: zero_digest_def collision_free_def)

lemma digest_inject:
  assumes free: "collision_free sha E"
    and "tree_ok sha s" "tree_ok sha t" "set (inorder s) \<subseteq> E" "set (inorder t) \<subseteq> E"
    and "nodeDigest s = nodeDigest t"
  shows "s = t"
proof -
  have input: "nodeDigest l @ entryDigest sha e @ nodeDigest r \<in> hash_inputs sha E"
    if "tree_ok sha (mk sha l e r)" "set (inorder (mk sha l e r)) \<subseteq> E" for l e r
    using that unfolding hash_inputs_def by blast
  have input_entry: "entry_encoding e \<in> hash_inputs sha E" if "e \<in> E" for e
    using that by (simp add: hash_inputs_def)
  have inj: "x = y" if "sha x = sha y" "x \<in> hash_inputs sha E" "y \<in> hash_inputs sha E" for x y
    using free that unfolding collision_free_def by (blast dest: inj_onD)
  have nonzero: "nodeDigest u \<noteq> zero_digest" if "tree_ok sha u" "set (inorder u) \<subseteq> E" "u \<noteq> Leaf" for u
  proof -
    have "wf_node sha u" using that(1) by (simp add: tree_ok_def)
    then show ?thesis
    proof (cases rule: wf_cases)
      case (node l e r)
      then show ?thesis using input [of l e r] that free by (simp add: collision_free_def)
    qed (use that in simp)
  qed
  have "wf_node sha s" using assms(2) by (simp add: tree_ok_def)
  then show ?thesis using assms(2-)
  proof (induction arbitrary: t rule: wf_induct)
    case leaf
    then show ?case using nonzero [of t] by auto
  next
    case (node l e r)
    have "wf_node sha t" using node.prems(2) by (simp add: tree_ok_def)
    then show ?case
    proof (cases rule: wf_cases)
      case leaf
      then show ?thesis using nonzero [of "mk sha l e r"] node.prems by simp
    next
      case t: (node l' e' r')
      have "nodeDigest l @ entryDigest sha e @ nodeDigest r = nodeDigest l' @ entryDigest sha e' @ nodeDigest r'"
        by (rule inj) (use input [of l e r] input [of l' e' r'] node.prems t in simp_all)
      moreover have "length (nodeDigest l) = length (nodeDigest l')"
        using digest_length [OF free] node.hyps t by simp
      moreover have "length (entryDigest sha e) = length (entryDigest sha e')"
        using free by (simp add: entryDigest_def collision_free_def)
      ultimately have d: "nodeDigest l = nodeDigest l'" "nodeDigest r = nodeDigest r'" "sha (entry_encoding e) = sha (entry_encoding e')"
        by (simp_all add: entryDigest_def)
      have "e \<in> E" "e' \<in> E" using node.prems(3,4) t by auto
      moreover from this have "entry_encoding e = entry_encoding e'"
        using inj [OF d(3)] input_entry by blast
      ultimately have "e = e'" using entry_encoding_inject free by (simp add: collision_free_def)
      moreover have "l = l'"
        by (rule node.IH(1)) (use node.prems t d in \<open>auto simp: tree_ok_mk\<close>)
      moreover have "r = r'"
        by (rule node.IH(2)) (use node.prems t d in \<open>auto simp: tree_ok_mk\<close>)
      ultimately show ?thesis using t by simp
    qed
  qed
qed

subsection \<open>Differences\<close>

lemma root_above: "tree_ok sha (mk sha l e r) \<Longrightarrow> x \<in> set (inorder (mk sha l e r)) \<Longrightarrow> prio sha e \<le> prio sha x"
  by (auto simp: tree_ok_mk)

lemma absent_below_root:
  assumes "prio sha e < prio sha e'" "tree_ok sha (mk sha l' e' r')"
  shows "Path e \<notin> Path ` set (inorder (mk sha l' e' r'))"
proof
  assume "Path e \<in> Path ` set (inorder (mk sha l' e' r'))"
  then obtain x where x: "x \<in> set (inorder (mk sha l' e' r'))" "Path e = Path x" by blast
  have "prio sha e' \<le> prio sha x" by (rule root_above [OF assms(2) x(1)])
  moreover have "prio sha e = prio sha x" using x(2) by (simp add: prio_def)
  ultimately show False using assms(1) by simp
qed

lemma diff_at_root:
  assumes "\<forall>x \<in> set xs \<union> set ys. Path x < Path e" "\<forall>x \<in> set xs' \<union> set ys'. Path e < Path x"
  shows "Path e = Path e' \<Longrightarrow> diff_entries (xs @ e # xs') (ys @ e' # ys') =
      diff_entries xs ys @ (if e \<noteq> e' then [\<lparr>Entry = e', Delete = False\<rparr>] else []) @ diff_entries xs' ys'"
    "diff_entries (xs @ e # xs') (ys @ ys') =
      diff_entries xs ys @ [\<lparr>Entry = e, Delete = True\<rparr>] @ diff_entries xs' ys'"
    "diff_entries (xs @ xs') (ys @ e # ys') =
      diff_entries xs ys @ [\<lparr>Entry = e, Delete = False\<rparr>] @ diff_entries xs' ys'"
proof -
  have lt: "\<forall>x \<in> set xs \<union> set ys. \<forall>x' \<in> set xs' \<union> set ys'. Path x < Path x'"
    using assms by (meson less_trans)
  show "diff_entries (xs @ e # xs') (ys @ e' # ys') =
      diff_entries xs ys @ (if e \<noteq> e' then [\<lparr>Entry = e', Delete = False\<rparr>] else []) @ diff_entries xs' ys'"
    if "Path e = Path e'"
    using diff_entries_split [of xs ys "e # xs'" "e' # ys'"] lt assms that by auto
  show "diff_entries (xs @ e # xs') (ys @ ys') =
      diff_entries xs ys @ [\<lparr>Entry = e, Delete = True\<rparr>] @ diff_entries xs' ys'"
    using diff_entries_split [of xs ys "e # xs'" ys'] lt assms by (cases ys') auto
  show "diff_entries (xs @ xs') (ys @ e # ys') =
      diff_entries xs ys @ [\<lparr>Entry = e, Delete = False\<rparr>] @ diff_entries xs' ys'"
    using diff_entries_split [of xs ys xs' "e # ys'"] lt assms by (cases xs') (auto dest: less_not_sym)
qed

lemma diffNodes_ok:
  assumes "collision_free sha E" "tree_ok sha a" "tree_ok sha b" "set (inorder a) \<subseteq> E" "set (inorder b) \<subseteq> E"
  shows "diffNodes sha a b = diff_entries (inorder a) (inorder b)"
  using assms
proof (induction sha a b rule: diffNodes.induct)
  case (1 sha a b)
  have wf: "wf_node sha a" "wf_node sha b" using "1.prems" by (simp_all add: tree_ok_def)
  consider (same) "nodeDigest a = nodeDigest b" | (a) "a = Leaf" "nodeDigest a \<noteq> nodeDigest b"
    | (b) "b = Leaf" "a \<noteq> Leaf" "nodeDigest a \<noteq> nodeDigest b"
    | (both) "nodeDigest a \<noteq> nodeDigest b" "a \<noteq> Leaf" "b \<noteq> Leaf" by blast
  then show ?case
  proof cases
    case same
    then have "diffNodes sha a b = []" by (simp add: diffNodes.simps [of sha a b])
    then show ?thesis using digest_inject [OF "1.prems" same] by simp
  next
    case both
    then have ne: "\<not> (a = b \<or> nodeDigest a = nodeDigest b)" by auto
    obtain l e r where a: "a = mk sha l e r" using wf(1) both by (auto elim: wf_cases)
    obtain l' e' r' where b: "b = mk sha l' e' r'" using wf(2) both by (auto elim: wf_cases)
    note sub = "1.prems"(2,3) [unfolded a b tree_ok_mk] "1.prems"(4,5) [unfolded a b mk_sel]
    note unfold = diffNodes.simps [of sha "mk sha l e r" "mk sha l' e' r'"] and IH = "1.IH" [OF ne both(2,3)]
    consider (eq) "Path e = Path e'" | (up) "Path e \<noteq> Path e'" "prio sha e < prio sha e'"
      | (down) "Path e \<noteq> Path e'" "prio sha e' < prio sha e"
      by (metis linorder_neqE prio_def prod.inject)
    then show ?thesis
    proof cases
      case eq
      have "diffNodes sha l l' = diff_entries (inorder l) (inorder l')"
        "diffNodes sha r r' = diff_entries (inorder r) (inorder r')"
        using IH(1,2) eq sub "1.prems"(1) by (simp_all add: a b)
      moreover have "\<forall>x \<in> set (inorder l) \<union> set (inorder l'). Path x < Path e"
        "\<forall>x \<in> set (inorder r) \<union> set (inorder r'). Path e < Path x" using sub eq by auto
      ultimately show ?thesis
        using ne eq diff_at_root(1) [of "inorder l" "inorder l'" e "inorder r" "inorder r'" e']
        by (simp add: unfold a b)
    next
      case up
      obtain u v where uv: "splitAbsent sha b (Path e) = (u, v)" by fastforce
      have s: "tree_ok sha u \<and> tree_ok sha v \<and> inorder b = inorder u @ inorder v \<and>
          (\<forall>x \<in> set (inorder u). Path x < Path e) \<and> (\<forall>x \<in> set (inorder v). Path e < Path x)"
        by (rule splitAbsent_ok [OF "1.prems"(3) _ uv])
          (use absent_below_root [OF up(2)] "1.prems"(3) b in blast)
      have "diffNodes sha l u = diff_entries (inorder l) (inorder u)"
        "diffNodes sha r v = diff_entries (inorder r) (inorder v)"
        using IH(3,4) [of u v] up uv s sub "1.prems"(1,5) by (simp_all add: a b)
      moreover have "\<forall>x \<in> set (inorder l) \<union> set (inorder u). Path x < Path e"
        "\<forall>x \<in> set (inorder r) \<union> set (inorder v). Path e < Path x" using sub s by auto
      ultimately show ?thesis
        using ne up uv s diff_at_root(2) [of "inorder l" "inorder u" e "inorder r" "inorder v"]
        by (simp add: unfold a b)
    next
      case down
      then have no: "\<not> prio sha e < prio sha e'" by simp
      obtain u v where uv: "splitAbsent sha a (Path e') = (u, v)" by fastforce
      have s: "tree_ok sha u \<and> tree_ok sha v \<and> inorder a = inorder u @ inorder v \<and>
          (\<forall>x \<in> set (inorder u). Path x < Path e') \<and> (\<forall>x \<in> set (inorder v). Path e' < Path x)"
        by (rule splitAbsent_ok [OF "1.prems"(2) _ uv])
          (use absent_below_root [OF down(2)] "1.prems"(2) a in blast)
      have "diffNodes sha u l' = diff_entries (inorder u) (inorder l')"
        "diffNodes sha v r' = diff_entries (inorder v) (inorder r')"
        using IH(5,6) [of u v] down(1) no uv s sub "1.prems"(1,4) by (simp_all add: a b)
      moreover have "\<forall>x \<in> set (inorder u) \<union> set (inorder l'). Path x < Path e'"
        "\<forall>x \<in> set (inorder v) \<union> set (inorder r'). Path e' < Path x" using sub s by auto
      ultimately show ?thesis
        using ne down(1) no uv s diff_at_root(3) [of "inorder u" "inorder l'" e' "inorder v" "inorder r'"]
        by (simp add: unfold a b)
    qed
  qed (use "1.prems" in \<open>auto simp: diffNodes.simps [of sha Leaf b] diffNodes.simps [of sha a Leaf] appendNodeEdits_diff\<close>)
qed

text \<open>Applying the difference of two sorted inventories to the first gives the second.\<close>

lemma apply_edit_cases [simp]:
  "apply_edit \<lparr>Entry = e, Delete = False\<rparr> = put e" "apply_edit \<lparr>Entry = e, Delete = True\<rparr> = del (Path e)"
  by (auto simp: apply_edit_def)

lemma fold_edits_above:
  assumes "\<forall>ed \<in> set eds. Path x < Path (Entry ed)"
  shows "fold apply_edit eds (x # xs) = x # fold apply_edit eds xs"
  using assms
proof (induction eds arbitrary: xs)
  case (Cons ed eds)
  then have "apply_edit ed (x # xs) = x # apply_edit ed xs"
    by (auto simp: apply_edit_def dest: less_not_sym)
  with Cons show ?case by simp
qed simp

lemma diff_entries_paths:
  "ed \<in> set (diff_entries xs ys) \<Longrightarrow> Path (Entry ed) \<in> Path ` (set xs \<union> set ys)"
  by (induction xs ys rule: diff_entries.induct) (auto split: if_splits)

lemma apply_diff:
  assumes "path_sorted xs" "path_sorted ys"
  shows "fold apply_edit (diff_entries xs ys) xs = ys"
  using assms
proof (induction xs ys rule: diff_entries.induct)
  case (3 y ys)
  have "\<forall>ed \<in> set (diff_entries [] ys). Path y < Path (Entry ed)" using diff_entries_paths 3(3) by fastforce
  then show ?case using 3 fold_edits_above by simp
next
  case (4 x xs y ys)
  consider (lt) "Path x < Path y" | (gt) "Path y < Path x" "\<not> Path x < Path y" | (eq) "Path x = Path y" by force
  then show ?case
  proof cases
    case gt
    have "\<forall>ed \<in> set (diff_entries (x # xs) ys). Path y < Path (Entry ed)"
      using diff_entries_paths [of _ "x # xs" ys] 4(4,5) gt by fastforce
    then show ?thesis using 4 gt fold_edits_above by simp
  next
    case eq
    have "\<forall>ed \<in> set (diff_entries xs ys). Path y < Path (Entry ed)"
      using diff_entries_paths [of _ xs ys] 4(4,5) eq by fastforce
    then show ?thesis using 4 eq fold_edits_above by auto
  qed (use 4 in simp)
qed simp_all

subsection \<open>Batch replacement\<close>

definition overlay :: "edit list \<Rightarrow> manifest_entry \<Rightarrow> manifest_entry" where
  "overlay eds x = (case find (\<lambda>ed. Path (Entry ed) = Path x) eds of None \<Rightarrow> x | Some ed \<Rightarrow> Entry ed)"

lemma overlay_none: "\<forall>ed \<in> set eds. Path (Entry ed) \<noteq> Path x \<Longrightarrow> overlay eds x = x"
  by (auto simp: overlay_def find_None_iff find_Some_iff split: option.splits)

lemma overlay_path [simp]: "Path (overlay eds x) = Path x"
  by (auto simp: overlay_def find_Some_iff split: option.splits)

lemma overlay_part:
  assumes "eds = us @ vs @ ws" "\<forall>ed \<in> set us \<union> set ws. Path (Entry ed) \<noteq> Path x"
  shows "overlay eds x = overlay vs x"
proof -
  have "find P (us @ vs @ ws) = find P vs" if "\<forall>y \<in> set us \<union> set ws. \<not> P y" for P :: "edit \<Rightarrow> bool"
  proof -
    have "find P ws = None" using that by (simp add: find_None_iff)
    then have "find P (vs @ ws) = find P vs" by (induction vs) auto
    moreover have "find P (us @ zs) = find P zs" if "\<forall>y \<in> set us. \<not> P y" for zs using that by (induction us) auto
    ultimately show ?thesis using that by simp
  qed
  with assms show ?thesis by (simp add: overlay_def)
qed

lemma replace_mk:
  assumes "entry = e \<or> Path entry = Path e"
  shows "(if left = l \<and> right = r \<and> entry = e then mk sha l e r
      else rehash sha (Node entry (sha (Path e)) (if entry \<noteq> e then entryDigest sha entry else entryDigest sha e) d left right k h)) =
     mk sha left entry right"
proof -
  have p: "Path e = Path entry" using assms by auto
  show ?thesis unfolding p by (auto simp: rehash_mk simp del: rehash.simps)
qed

lemma replaceNodes_mk:
  assumes "binary_search (\<lambda>ed. Path (Entry ed)) edits (Path e) = (i, found)" "edits \<noteq> []"
    and "found \<Longrightarrow> Path (Entry (edits ! i)) = Path e"
  shows "replaceNodes sha (mk sha l e r) edits =
     mk sha (replaceNodes sha l (take i edits)) (if found then Entry (edits ! i) else e)
       (replaceNodes sha r (drop (if found then i + 1 else i) edits))"
proof -
  let ?e = "if found then Entry (edits ! i) else e"
  have "?e = e \<or> Path ?e = Path e" using assms(3) by simp
  note step = replace_mk [OF this, of "replaceNodes sha l (take i edits)" l
      "replaceNodes sha r (drop (if found then i + 1 else i) edits)" r sha]
  have "replaceNodes sha (Node e (sha (Path e)) (entryDigest sha e) d l r k h) edits =
     (let left = replaceNodes sha l (take i edits);
          right = replaceNodes sha r (drop (if found then i + 1 else i) edits)
      in if left = l \<and> right = r \<and> ?e = e then Node e (sha (Path e)) (entryDigest sha e) d l r k h
         else rehash sha (Node ?e (sha (Path e)) (if ?e \<noteq> e then entryDigest sha ?e else entryDigest sha e) d left right k h))"
    for d k h
    using assms(1,2) by (simp only: replaceNodes.simps Let_def prod.case if_False)
  from this [of "sha (nodeDigest l @ entryDigest sha e @ nodeDigest r)" "1 + count_of l + count_of r"
      "1 + max (height_of l) (height_of r)", folded mk_def] show ?thesis
    unfolding Let_def step .
qed

abbreviation edits_sorted :: "edit list \<Rightarrow> bool" where
  "edits_sorted eds \<equiv> sorted_wrt (<) (map (\<lambda>ed. Path (Entry ed)) eds)"

lemma overlay_root:
  assumes "edits_sorted eds" "binary_search (\<lambda>ed. Path (Entry ed)) eds (Path e) = (i, found)"
  defines "j \<equiv> if found then i + 1 else i"
  shows "overlay eds e = (if found then Entry (eds ! i) else e)"
    "Path x < Path e \<Longrightarrow> overlay eds x = overlay (take i eds) x"
    "Path e < Path x \<Longrightarrow> overlay eds x = overlay (drop j eds) x"
proof -
  note search = binary_search_sorted [OF assms(1,2)]
  have at: "eds ! i # drop (i + 1) eds = drop i eds" if found using search(5) that by (simp add: Cons_nth_drop_Suc)
  have low: "\<forall>ed \<in> set (take i eds). Path (Entry ed) < Path e" by (rule search(2))
  have high: "\<forall>ed \<in> set (drop j eds). Path e < Path (Entry ed)" using search(6,7) by (auto simp: j_def)
  have mid: "\<forall>ed \<in> set (take j eds). Path (Entry ed) \<le> Path e"
    using low search(5) by (auto simp: j_def take_Suc_conv_app_nth)
  show "overlay eds e = (if found then Entry (eds ! i) else e)"
  proof (cases found)
    case True
    have "eds = take i eds @ [eds ! i] @ drop (i + 1) eds" using at [OF True] by simp
    then have "overlay eds e = overlay [eds ! i] e"
      by (rule overlay_part) (use low high True in \<open>auto simp: j_def\<close>)
    then show ?thesis using search(5) True by (simp add: overlay_def)
  next
    case False
    then have "Path e \<notin> (\<lambda>ed. Path (Entry ed)) ` set eds" using search(4) by simp
    then have "\<forall>ed \<in> set eds. Path (Entry ed) \<noteq> Path e" by (metis imageI)
    then show ?thesis using False by (simp add: overlay_none)
  qed
  show "overlay eds x = overlay (take i eds) x" if "Path x < Path e"
    by (rule overlay_part [of _ "[]" _ "drop i eds"]) (use that search(3) in auto)
  show "overlay eds x = overlay (drop j eds) x" if "Path e < Path x"
    by (rule overlay_part [of _ "take j eds" _ "[]"]) (use that mid in auto)
qed

lemma replaceNodes_Nil [simp]: "replaceNodes sha t [] = t"
  by (cases t) simp_all

lemma prio_overlay [simp]: "prio sha (overlay eds x) = prio sha x"
  by (simp add: prio_def)

lemma replaceNodes_ok:
  assumes "tree_ok sha t" "edits_sorted eds"
  shows "tree_ok sha (replaceNodes sha t eds) \<and> inorder (replaceNodes sha t eds) = map (overlay eds) (inorder t) \<and>
     height_of (replaceNodes sha t eds) = height_of t"
proof -
  have "wf_node sha t" using assms(1) by (simp add: tree_ok_def)
  then show ?thesis using assms
  proof (induction arbitrary: eds rule: wf_induct)
    case (node l e r)
    show ?case
    proof (cases "eds = []")
      case True
      then show ?thesis using node.prems(1) by (simp add: overlay_none map_idI)
    next
      case False
      obtain i found where bs: "binary_search (\<lambda>ed. Path (Entry ed)) eds (Path e) = (i, found)" by fastforce
      let ?j = "if found then i + 1 else i"
      note root = overlay_root [OF node.prems(2) bs]
      have ok: "tree_ok sha l" "tree_ok sha r" "\<forall>x \<in> set (inorder l). Path x < Path e" "\<forall>x \<in> set (inorder r). Path e < Path x"
        using node.prems(1) by (auto simp: tree_ok_mk)
      have "edits_sorted (take i eds)" "edits_sorted (drop ?j eds)"
        using node.prems(2) by (simp_all only: take_map [symmetric] drop_map [symmetric] sorted_wrt_take sorted_wrt_drop)
      then have sub: "tree_ok sha (replaceNodes sha l (take i eds))" "tree_ok sha (replaceNodes sha r (drop ?j eds))"
        "inorder (replaceNodes sha l (take i eds)) = map (overlay (take i eds)) (inorder l)"
        "inorder (replaceNodes sha r (drop ?j eds)) = map (overlay (drop ?j eds)) (inorder r)"
        "height_of (replaceNodes sha l (take i eds)) = height_of l" "height_of (replaceNodes sha r (drop ?j eds)) = height_of r"
        using node.IH ok by blast+
      have "replaceNodes sha (mk sha l e r) eds = mk sha (replaceNodes sha l (take i eds)) (overlay eds e) (replaceNodes sha r (drop ?j eds))"
        unfolding root(1)
        by (rule replaceNodes_mk [OF bs False]) (use binary_search_sorted(5) [OF node.prems(2) bs] in blast)
      moreover have "map (overlay (take i eds)) (inorder l) = map (overlay eds) (inorder l)"
        using root(2) ok(3) by simp
      moreover have "map (overlay (drop ?j eds)) (inorder r) = map (overlay eds) (inorder r)"
        using root(3) ok(4) by (intro map_cong) auto
      ultimately show ?thesis using sub node.prems(1) by (auto simp: tree_ok_mk)
    qed
  qed simp
qed

lemma put_present:
  assumes "path_sorted xs" "Path e \<in> Path ` set xs"
  shows "put e xs = map (\<lambda>x. if Path x = Path e then e else x) xs"
  using assms
proof (induction xs)
  case (Cons x xs)
  consider "Path e = Path x" | "Path x < Path e" "Path e \<noteq> Path x" "\<not> Path e < Path x" using Cons.prems by force
  then show ?case
  proof cases
    case 1
    then have "map (\<lambda>x. if Path x = Path e then e else x) xs = xs" using Cons.prems by (intro map_idI) auto
    then show ?thesis using 1 by simp
  qed (use Cons in auto)
qed simp

lemma fold_apply_overlay:
  assumes "path_sorted xs" "edits_sorted eds"
    and "\<forall>ed \<in> set eds. \<not> Delete ed \<and> Path (Entry ed) \<in> Path ` set xs"
  shows "fold apply_edit eds xs = map (overlay eds) xs"
  using assms
proof (induction eds arbitrary: xs)
  case Nil
  then show ?case by (simp add: overlay_none map_idI)
next
  case (Cons ed eds)
  define ys where "ys = map (\<lambda>x. if Path x = Path (Entry ed) then Entry ed else x) xs"
  have paths: "map Path ys = map Path xs" by (simp add: ys_def)
  have "apply_edit ed xs = ys" using Cons.prems put_present [of xs "Entry ed"] by (simp add: apply_edit_def ys_def)
  moreover have "fold apply_edit eds ys = map (overlay eds) ys"
    by (rule Cons.IH) (use Cons.prems paths in \<open>auto simp flip: set_map\<close>)
  moreover have "overlay eds (if Path x = Path (Entry ed) then Entry ed else x) = overlay (ed # eds) x" for x
  proof (cases "Path x = Path (Entry ed)")
    case True
    have "overlay eds (Entry ed) = Entry ed" by (rule overlay_none) (use Cons.prems(2) in auto)
    then show ?thesis using True by (simp add: overlay_def)
  qed (simp add: overlay_def)
  ultimately show ?case by (simp add: ys_def)
qed

end
