(* ===== verification/Manifest_Snapshot.thy ===== *)
theory Manifest_Snapshot
  imports Manifest_Diff Manifest_Json Archive
begin

text \<open>
  Package \<open>internal/manifest\<close>, files \<open>snapshot.go\<close> and \<open>export.go\<close>: immutable, validated
  inventories. A snapshot is a flat list (\<open>entries\<close>), or a retained tree (\<open>index\<close>), or
  both; \<open>view\<close>, \<open>wireRoot\<close> and, for a flat snapshot, \<open>index\<close> are caches filled on demand. A
  method that fills a cache returns the receiver with it filled. The operations run with a
  context that is not cancelled. Pointer equality of snapshots is modelled by equality.
\<close>

subsection \<open>State\<close>

datatype snapshot_error =
    ArchiveErr archive_error
  | NotRelative
  | TotalOverflow
  | UnsafeEdit
  | DuplicateEdit
  | ThroughNonDirectory string
  | HasDescendants string
  | TreeHeight

definition minIndexedEntries :: int where "minIndexedEntries = 4096"

record snapshot =
  entries :: "manifest_entry list option"
  index :: node
  noIndex :: bool
  byte_total :: int
  entry_count :: int
  wireRoot :: string
  view :: "manifest option"
  viewBase :: "manifest_entry list"
  viewEdits :: "edit list option"

definition empty_snapshot :: snapshot where
  "empty_snapshot = \<lparr>entries = None, index = Leaf, noIndex = False, byte_total = 0, entry_count = 0,
     wireRoot = '''', view = None, viewBase = [], viewEdits = None\<rparr>"

definition lift_archive :: "archive_error + 'a \<Rightarrow> snapshot_error + 'a" where
  "lift_archive r = (case r of Inl e \<Rightarrow> Inl (ArchiveErr e) | Inr a \<Rightarrow> Inr a)"

subsection \<open>Construction\<close>

fun validate_total :: "int \<Rightarrow> manifest_entry list \<Rightarrow> snapshot_error + int" where
  "validate_total sz [] = Inr sz"
| "validate_total sz (e # es) =
     (if Path e = ''.'' then Inl NotRelative
      else if Size e > MaxInt64 - sz then Inl TotalOverflow
      else validate_total (sz + Size e) es)"

definition validate :: "platform \<Rightarrow> manifest \<Rightarrow> snapshot_error + int" where
  "validate os m =
     bind_res (lift_archive (ValidateSortedContext os None m)) (\<lambda>_. validate_total 0 (slice (Entries m)))"

definition New :: "platform \<Rightarrow> manifest \<Rightarrow> snapshot_error + snapshot" where
  "New os m =
     bind_res (validate os m) (\<lambda>sz.
       Inr (empty_snapshot\<lparr>entries := Entries m, byte_total := sz,
              entry_count := int (length (slice (Entries m)))\<rparr>))"

subsection \<open>Lookup and ordered walks\<close>

fun lookup_node :: "node \<Rightarrow> string \<Rightarrow> manifest_entry option" where
  "lookup_node Leaf name = None"
| "lookup_node (Node e p c d l r k h) name =
     (if name = Path e then Some e
      else if name < Path e then lookup_node l name else lookup_node r name)"

definition lookup_flat :: "manifest_entry list \<Rightarrow> string \<Rightarrow> manifest_entry option" where
  "lookup_flat es name =
     (case binary_search Path es name of (i, ok) \<Rightarrow> if ok then Some (es ! i) else None)"

definition Lookup :: "snapshot \<Rightarrow> string \<Rightarrow> manifest_entry option" where
  "Lookup s name =
     (case entries s of Some es \<Rightarrow> lookup_flat es name | None \<Rightarrow> lookup_node (index s) name)"

text \<open>A visitor is a function on its captured state; it returns whether to go on.\<close>

type_synonym 'a visitor = "'a \<Rightarrow> manifest_entry \<Rightarrow> 'a \<times> bool"

fun walk_list :: "'a visitor \<Rightarrow> 'a \<Rightarrow> manifest_entry list \<Rightarrow> 'a \<times> bool" where
  "walk_list visit st [] = (st, True)"
| "walk_list visit st (e # es) =
     (case visit st e of (st', go) \<Rightarrow> if go then walk_list visit st' es else (st', False))"

fun walkRange :: "node \<Rightarrow> string \<Rightarrow> string \<Rightarrow> 'a visitor \<Rightarrow> 'a \<Rightarrow> 'a \<times> bool" where
  "walkRange Leaf lo hi visit st = (st, True)"
| "walkRange (Node e p c d l r k h) lo hi visit st =
     (case (if Path e \<ge> lo then walkRange l lo hi visit st else (st, True)) of
        (st1, go1) \<Rightarrow>
          if \<not> go1 then (st1, False)
          else (case (if Path e \<ge> lo \<and> (hi = '''' \<or> Path e < hi) then visit st1 e else (st1, True)) of
                  (st2, go2) \<Rightarrow>
                    if \<not> go2 then (st2, False)
                    else if hi = '''' \<or> Path e < hi then walkRange r lo hi visit st2
                    else (st2, True)))"

definition walk_flat :: "manifest_entry list \<Rightarrow> string \<Rightarrow> string \<Rightarrow> 'a visitor \<Rightarrow> 'a \<Rightarrow> 'a \<times> bool" where
  "walk_flat es lo hi visit st =
     (let i = sort_search (length es) (\<lambda>i. Path (es ! i) \<ge> lo)
      in walk_list visit st (takeWhile (\<lambda>e. Path e < hi) (drop i es)))"

definition Walk :: "snapshot \<Rightarrow> 'a visitor \<Rightarrow> 'a \<Rightarrow> 'a" where
  "Walk s visit st =
     (case entries s of
        Some es \<Rightarrow> fst (walk_list visit st es)
      | None \<Rightarrow> fst (walkRange (index s) '''' '''' visit st))"

definition walk_between :: "snapshot \<Rightarrow> string \<Rightarrow> string \<Rightarrow> 'a visitor \<Rightarrow> 'a \<Rightarrow> 'a \<times> bool" where
  "walk_between s lo hi visit st =
     (case entries s of
        Some es \<Rightarrow> walk_flat es lo hi visit st
      | None \<Rightarrow> walkRange (index s) lo hi visit st)"

definition Subtree :: "snapshot \<Rightarrow> string \<Rightarrow> 'a visitor \<Rightarrow> 'a \<Rightarrow> 'a" where
  "Subtree s root visit st =
     (case (case Lookup s root of Some e \<Rightarrow> visit st e | None \<Rightarrow> (st, True)) of
        (st', go) \<Rightarrow>
          if \<not> go then st'
          else fst (walk_between s (root @ ''/'') (root @ ''0'') visit st'))"

subsection \<open>Views\<close>

definition readyView :: "snapshot \<Rightarrow> manifest option" where
  "readyView s =
     (case entries s of
        Some es \<Rightarrow> Some \<lparr>Entries = Some es\<rparr>
      | None \<Rightarrow>
          (case view s of
             Some m \<Rightarrow> Some m
           | None \<Rightarrow> if entry_count s = 0 then Some \<lparr>Entries = None\<rparr> else None))"

fun edited_loop :: "manifest_entry list \<Rightarrow> edit list \<Rightarrow> manifest_entry list" where
  "edited_loop remaining [] = remaining"
| "edited_loop remaining (ed # eds) =
     (case binary_search Path remaining (Path (Entry ed)) of (i, exists) \<Rightarrow>
        take i remaining @ (if Delete ed then [] else [Entry ed]) @
        edited_loop (drop (if exists then i + 1 else i) remaining) eds)"

text \<open>The result slice is allocated for a positive \<open>count\<close> and otherwise nil until something is
  appended.\<close>

definition editedView :: "manifest_entry list \<Rightarrow> edit list \<Rightarrow> int \<Rightarrow> manifest" where
  "editedView base eds count =
     (let es = edited_loop base eds
      in \<lparr>Entries = (if count > 0 \<or> es \<noteq> [] then Some es else None)\<rparr>)"

definition materialized :: "snapshot \<Rightarrow> manifest \<times> snapshot" where
  "materialized s =
     (case readyView s of
        Some m \<Rightarrow> (m, s)
      | None \<Rightarrow>
          let m = (case viewEdits s of
                     Some eds \<Rightarrow> editedView (viewBase s) eds (entry_count s)
                   | None \<Rightarrow> \<lparr>Entries = Some (Walk s (\<lambda>acc e. (acc @ [e], True)) [])\<rparr>)
          in (m, s\<lparr>view := Some m\<rparr>))"

definition Manifest :: "snapshot \<Rightarrow> manifest \<times> snapshot" where
  "Manifest s = materialized s"

definition Snapshot_RootHash ::
  "(string \<Rightarrow> string) \<Rightarrow> (string \<Rightarrow> string) \<Rightarrow> snapshot \<Rightarrow> string \<times> snapshot" where
  "Snapshot_RootHash marshal sha256hex s =
     (if wireRoot s = '''' then
        case materialized s of (m, s') \<Rightarrow>
          let hash = RootHash marshal sha256hex m in (hash, s'\<lparr>wireRoot := hash\<rparr>)
      else (wireRoot s, s))"

subsection \<open>The index\<close>

definition tree :: "(bytes \<Rightarrow> bytes) \<Rightarrow> nat \<Rightarrow> snapshot \<Rightarrow> (snapshot_error + node) \<times> snapshot" where
  "tree sha gomaxprocs s =
     (if index s \<noteq> Leaf then (Inr (index s), s)
      else
        case buildTree sha gomaxprocs (slice (entries s)) of
          None \<Rightarrow> (Inl TreeHeight, s)
        | Some n \<Rightarrow> (Inr n, s\<lparr>index := n\<rparr>))"

definition PrepareUpdates :: "(bytes \<Rightarrow> bytes) \<Rightarrow> nat \<Rightarrow> snapshot \<Rightarrow> snapshot" where
  "PrepareUpdates sha gomaxprocs s =
     (if entry_count s < minIndexedEntries \<and> index s = Leaf then s
      else if noIndex s then s
      else
        case tree sha gomaxprocs s of
          (Inl _, s') \<Rightarrow> s'\<lparr>noIndex := True\<rparr>
        | (Inr _, s') \<Rightarrow> s')"

subsection \<open>Updates\<close>

definition unsafe_edit :: "string \<Rightarrow> bool" where
  "unsafe_edit p \<longleftrightarrow> p = '''' \<or> p = ''.'' \<or> path_clean p \<noteq> p \<or> has_prefix p ''/'' \<or>
     has_prefix p ''../'' \<or> p = ''..'' \<or> nul \<in> set p"

record edit_scan =
  scan_size :: int
  scan_count :: int
  scan_changed :: bool
  scan_structural :: bool
  scan_types :: bool
  scan_replacements :: "manifest_entry list"

definition scan_edit :: "snapshot \<Rightarrow> edit \<Rightarrow> edit_scan \<Rightarrow> edit_scan" where
  "scan_edit s e sc =
     (let sc' =
        (case Lookup s (Path (Entry e)) of
           Some old \<Rightarrow>
             sc\<lparr>scan_structural := scan_structural sc \<or> Delete e,
                scan_types := scan_types sc \<or> Type old \<noteq> Type (Entry e),
                scan_count := (if Delete e then scan_count sc - 1 else scan_count sc),
                scan_size := scan_size sc - Size old,
                scan_changed := scan_changed sc \<or> Delete e \<or> old \<noteq> Entry e\<rparr>
         | None \<Rightarrow>
             sc\<lparr>scan_structural := True,
                scan_count := (if Delete e then scan_count sc else scan_count sc + 1),
                scan_changed := scan_changed sc \<or> \<not> Delete e\<rparr>)
      in if Delete e then sc' else sc'\<lparr>scan_replacements := scan_replacements sc' @ [Entry e]\<rparr>)"

fun scan_edits :: "snapshot \<Rightarrow> string option \<Rightarrow> edit list \<Rightarrow> edit_scan \<Rightarrow> snapshot_error + edit_scan" where
  "scan_edits s prev [] sc = Inr sc"
| "scan_edits s prev (e # es) sc =
     (if unsafe_edit (Path (Entry e)) then Inl UnsafeEdit
      else if prev = Some (Path (Entry e)) then Inl DuplicateEdit
      else scan_edits s (Some (Path (Entry e))) es (scan_edit s e sc))"

fun add_sizes :: "int \<Rightarrow> manifest_entry list \<Rightarrow> snapshot_error + int" where
  "add_sizes sz [] = Inr sz"
| "add_sizes sz (e # es) = (if Size e > MaxInt64 - sz then Inl TotalOverflow else add_sizes (sz + Size e) es)"

definition validate_replacement :: "snapshot \<Rightarrow> manifest_entry \<Rightarrow> snapshot_error + unit" where
  "validate_replacement s e =
     bind_res
       (each_ok (\<lambda>parent. case Lookup s parent of
                            None \<Rightarrow> Inr ()
                          | Some p \<Rightarrow> check_that (Type p = EntryDir) (ThroughNonDirectory parent))
          (parent_dirs (Path e)))
       (\<lambda>_. if Type e \<noteq> EntryDir then
              let descendant = Subtree s (Path e)
                    (\<lambda>_ child. (Path child \<noteq> Path e, \<not> Path child \<noteq> Path e)) False
              in check_that (\<not> descendant) (HasDescendants (Path e))
            else Inr ())"

definition validateReplacements :: "snapshot \<Rightarrow> manifest_entry list \<Rightarrow> snapshot_error + unit" where
  "validateReplacements s es = each_ok (validate_replacement s) es"

text \<open>\<open>sort.Slice\<close> may order equal paths either way; two edits of one path are an error whichever
  comes first.\<close>

abbreviation sort_edits :: "edit list \<Rightarrow> edit list" where
  "sort_edits eds \<equiv> sort_key (\<lambda>ed. Path (Entry ed)) eds"

definition flatUpdate ::
  "bool \<Rightarrow> edit list \<Rightarrow> edit_scan \<Rightarrow> int \<Rightarrow> snapshot \<Rightarrow> (snapshot_error + snapshot) \<times> snapshot" where
  "flatUpdate no_index ordered sc sz s =
     (case materialized s of (base, s') \<Rightarrow>
        let m = editedView (slice (Entries base)) ordered (scan_count sc);
            next = empty_snapshot\<lparr>entries := Entries m, byte_total := sz, entry_count := scan_count sc,
                      noIndex := no_index\<rparr>
        in (bind_res (if scan_structural sc \<or> scan_types sc
                      then validateReplacements next (scan_replacements sc) else Inr ())
              (\<lambda>_. Inr next), s'))"

text \<open>The loop of structural updates; \<open>None\<close> when the tree grows too high.\<close>

fun update_loop :: "(bytes \<Rightarrow> bytes) \<Rightarrow> node \<Rightarrow> edit list \<Rightarrow> node option" where
  "update_loop sha root [] = Some root"
| "update_loop sha root (e # es) =
     (let root' = updateNode sha root e
      in if root' \<noteq> Leaf \<and> nheight root' > maxHeight then None else update_loop sha root' es)"

definition treeUpdate ::
  "edit list \<Rightarrow> edit_scan \<Rightarrow> int \<Rightarrow> node \<Rightarrow> snapshot \<Rightarrow> snapshot_error + snapshot" where
  "treeUpdate ordered sc sz root s =
     (let next = empty_snapshot\<lparr>byte_total := sz, index := root, entry_count := int (count_of root)\<rparr>;
          next = (case readyView s of
                    Some base \<Rightarrow> next\<lparr>viewBase := slice (Entries base), viewEdits := Some ordered\<rparr>
                  | None \<Rightarrow> next)
      in bind_res (if scan_structural sc \<or> scan_types sc
                   then validateReplacements next (scan_replacements sc) else Inr ())
           (\<lambda>_. Inr next))"

definition apply_update ::
  "(bytes \<Rightarrow> bytes) \<Rightarrow> nat \<Rightarrow> edit list \<Rightarrow> edit_scan \<Rightarrow> int \<Rightarrow> snapshot \<Rightarrow> (snapshot_error + snapshot) \<times> snapshot" where
  "apply_update sha gomaxprocs ordered sc sz s =
     (if noIndex s then flatUpdate True ordered sc sz s
      else if index s = Leaf \<and> entry_count s < minIndexedEntries \<and> scan_count sc < minIndexedEntries
        then flatUpdate False ordered sc sz s
      else
        case tree sha gomaxprocs s of
          (Inl _, s') \<Rightarrow> flatUpdate True ordered sc sz (s'\<lparr>noIndex := True\<rparr>)
        | (Inr root, s') \<Rightarrow>
            if \<not> scan_structural sc \<and> length ordered > 1
            then (treeUpdate ordered sc sz (replaceNodes sha root ordered) s', s')
            else (case update_loop sha root ordered of
                    None \<Rightarrow> flatUpdate True ordered sc sz s'
                  | Some root' \<Rightarrow> (treeUpdate ordered sc sz root' s', s')))"

definition Update ::
  "(bytes \<Rightarrow> bytes) \<Rightarrow> platform \<Rightarrow> nat \<Rightarrow> edit list \<Rightarrow> snapshot \<Rightarrow> (snapshot_error + snapshot) \<times> snapshot" where
  "Update sha os gomaxprocs eds s =
     (if eds = [] then (Inr s, s)
      else
        let ordered = sort_edits eds;
            start = \<lparr>scan_size = byte_total s, scan_count = entry_count s, scan_changed = False,
                     scan_structural = False, scan_types = False, scan_replacements = []\<rparr>
        in case scan_edits s None ordered start of
             Inl err \<Rightarrow> (Inl err, s)
           | Inr sc \<Rightarrow>
               (case each_ok (\<lambda>e. lift_archive (ValidateEntry os e)) (scan_replacements sc) of
                  Inl err \<Rightarrow> (Inl err, s)
                | Inr _ \<Rightarrow>
                    if \<not> scan_changed sc then (Inr s, s)
                    else (case add_sizes (scan_size sc) (scan_replacements sc) of
                            Inl err \<Rightarrow> (Inl err, s)
                          | Inr sz \<Rightarrow> apply_update sha gomaxprocs ordered sc sz s)))"

subsection \<open>Differences\<close>

definition Diff :: "(bytes \<Rightarrow> bytes) \<Rightarrow> snapshot \<Rightarrow> snapshot \<Rightarrow> edit list \<times> snapshot \<times> snapshot" where
  "Diff sha s next =
     (if s = next then ([], s, next)
      else if (index s \<noteq> Leaf \<and> index next \<noteq> Leaf) \<or> (entries s = None \<and> entries next = None)
        then (diffNodes sha (index s) (index next), s, next)
      else
        let (before, s') = (case entries s of Some es \<Rightarrow> (\<lparr>Entries = Some es\<rparr>, s) | None \<Rightarrow> materialized s);
            (after, next') = (case entries next of Some es \<Rightarrow> (\<lparr>Entries = Some es\<rparr>, next) | None \<Rightarrow> materialized next)
        in (diff_entries (slice (Entries before)) (slice (Entries after)), s', next'))"

end
