(* ===== verification/Manifest_Inventory.thy ===== *)
theory Manifest_Inventory
  imports Manifest_Snapshot
begin

text \<open>
  The contract between a snapshot and its two representations. An inventory promises a lookup
  by path and an ordered walk of a range of paths, both determined by the sorted list of its
  entries. The flat slice (binary search) and the retained tree (descent) both provide it, and
  what the hierarchy checks of \<open>snapshot.go\<close> need is proved once from the contract.
\<close>

subsection \<open>Sorted lists\<close>

lemma sorted_find:
  "path_sorted es \<Longrightarrow> find (\<lambda>e. Path e = p) es = Some e \<longleftrightarrow> e \<in> set es \<and> Path e = p"
  by (induction es) auto

lemma find_append: "find P (xs @ ys) = (case find P xs of None \<Rightarrow> find P ys | Some x \<Rightarrow> Some x)"
  by (induction xs) auto

lemma find_none: "\<forall>x \<in> set xs. \<not> P x \<Longrightarrow> find P xs = None"
  by (simp add: find_None_iff)

lemma walk_list_append:
  "walk_list visit st (xs @ ys) =
     (case walk_list visit st xs of (st', go) \<Rightarrow> if go then walk_list visit st' ys else (st', False))"
  by (induction visit st xs rule: walk_list.induct) (auto split: prod.splits)

lemma sorted_takeWhile_filter:
  "path_sorted es \<Longrightarrow> takeWhile (\<lambda>e. Path e < hi) es = filter (\<lambda>e. Path e < hi) es"
proof (induction es)
  case (Cons e es)
  have "filter (\<lambda>e. Path e < hi) es = []" if "\<not> Path e < hi"
    using Cons.prems that by (fastforce simp: filter_empty_conv)
  with Cons show ?case by auto
qed simp

text \<open>The half-open range from \<open>root/\<close> to \<open>root0\<close> holds exactly the paths below \<open>root\<close>.\<close>

lemma subtree_range: "root @ ''/'' \<le> q \<and> q < root @ ''0'' \<longleftrightarrow> prefix (root @ ''/'') q"
proof (induction root arbitrary: q)
  case Nil
  have "c = CHR ''/''" if "CHR ''/'' \<le> c" "c < CHR ''0''" for c :: char
  proof -
    have "(of_char CHR ''/'' :: nat) \<le> of_char c" "(of_char c :: nat) < of_char CHR ''0''"
      using that by (simp_all only: less_eq_char_def less_char_def)
    then have "(of_char c :: nat) = of_char CHR ''/''" by simp
    then show ?thesis by (simp only: of_char_eq_iff)
  qed
  moreover have "CHR ''/'' < CHR ''0''" by (simp add: less_char_def)
  ultimately have c: "CHR ''/'' \<le> c \<and> c < CHR ''0'' \<longleftrightarrow> CHR ''/'' = c" for c by blast
  show ?case
  proof (cases q)
    case (Cons c cs)
    have "''/'' \<le> c # cs \<longleftrightarrow> CHR ''/'' \<le> c" by (cases cs) (auto simp: le_less)
    moreover have "c # cs < ''0'' \<longleftrightarrow> c < CHR ''0''" by simp
    ultimately show ?thesis using c [of c] Cons by simp
  qed simp
next
  case IH: (Cons c root)
  show ?case
  proof (cases q)
    case (Cons d ds)
    have "(c # root) @ ''/'' \<le> q \<and> q < (c # root) @ ''0'' \<longleftrightarrow> c = d \<and> root @ ''/'' \<le> ds \<and> ds < root @ ''0''"
      unfolding Cons by (auto simp del: append_Cons simp: append_Cons [of c])
    then show ?thesis using IH.IH [of ds] Cons by simp
  qed simp
qed

subsection \<open>The interface\<close>

locale inventory =
  fixes ok :: "'s \<Rightarrow> bool" and listing :: "'s \<Rightarrow> manifest_entry list"
    and lookup :: "'s \<Rightarrow> string \<Rightarrow> manifest_entry option"
    and walk :: "'s \<Rightarrow> string \<Rightarrow> string \<Rightarrow> 'a visitor \<Rightarrow> 'a \<Rightarrow> 'a \<times> bool"
  assumes sorted: "ok s \<Longrightarrow> path_sorted (listing s)"
    and lookup_law: "ok s \<Longrightarrow> lookup s p = find (\<lambda>e. Path e = p) (listing s)"
    and walk_law: "ok s \<Longrightarrow> hi \<noteq> '''' \<Longrightarrow>
      walk s lo hi visit st = walk_list visit st (filter (\<lambda>e. lo \<le> Path e \<and> Path e < hi) (listing s))"
begin

lemma lookup_Some: "ok s \<Longrightarrow> lookup s p = Some e \<longleftrightarrow> e \<in> set (listing s) \<and> Path e = p"
  by (simp add: lookup_law sorted_find sorted)

lemma lookup_None: "ok s \<Longrightarrow> lookup s p = None \<longleftrightarrow> p \<notin> Path ` set (listing s)"
  by (auto simp: lookup_law find_None_iff)

lemma walk_below:
  "ok s \<Longrightarrow> walk s (root @ ''/'') (root @ ''0'') visit st =
     walk_list visit st (filter (\<lambda>e. prefix (root @ ''/'') (Path e)) (listing s))"
  by (simp add: walk_law subtree_range)

lemma parents_are_dirs:
  assumes "ok s"
  shows "(\<forall>parent \<in> set dirs. \<forall>p. lookup s parent = Some p \<longrightarrow> Type p = EntryDir) \<longleftrightarrow>
     (\<forall>d \<in> set (listing s). Path d \<in> set dirs \<longrightarrow> Type d = EntryDir)"
  by (auto simp: lookup_Some [OF assms])

end

subsection \<open>The flat slice\<close>

lemma lookup_flat_find:
  assumes "path_sorted es"
  shows "lookup_flat es p = find (\<lambda>e. Path e = p) es"
proof -
  obtain i ok where bs: "binary_search Path es p = (i, ok)" by fastforce
  note search = binary_search_sorted [OF assms bs]
  show ?thesis
  proof (cases ok)
    case True
    then have "es ! i \<in> set es \<and> Path (es ! i) = p" using search(5) by simp
    then have "find (\<lambda>e. Path e = p) es = Some (es ! i)" by (subst sorted_find [OF assms])
    then show ?thesis using True bs by (simp add: lookup_flat_def)
  next
    case False
    then have "find (\<lambda>e. Path e = p) es = None" using search(4) by (intro find_none) blast
    then show ?thesis using False bs by (simp add: lookup_flat_def)
  qed
qed

lemma walk_flat_filter:
  assumes "path_sorted es"
  shows "walk_flat es lo hi visit st = walk_list visit st (filter (\<lambda>e. lo \<le> Path e \<and> Path e < hi) es)"
proof -
  define i where "i = sort_search (length es) (\<lambda>i. Path (es ! i) \<ge> lo)"
  have "sorted_wrt (<) (map Path (take (length es) es))" using assms by simp
  note search = sort_search_key [OF this order.refl, of lo, folded i_def]
  have "filter (\<lambda>e. lo \<le> Path e) es = filter (\<lambda>e. lo \<le> Path e) (take i es) @ filter (\<lambda>e. lo \<le> Path e) (drop i es)"
    by (metis append_take_drop_id filter_append)
  also have "\<dots> = drop i es" using search(2,3) by (auto simp: filter_empty_conv intro: filter_True)
  finally have "drop i es = filter (\<lambda>e. lo \<le> Path e) es" ..
  moreover have "path_sorted (drop i es)" using assms by (simp add: drop_map [symmetric] sorted_wrt_drop)
  ultimately have "takeWhile (\<lambda>e. Path e < hi) (drop i es) = filter (\<lambda>e. lo \<le> Path e \<and> Path e < hi) es"
    by (simp add: sorted_takeWhile_filter conj_commute)
  then show ?thesis by (simp add: walk_flat_def i_def [symmetric])
qed

interpretation flat: inventory path_sorted id lookup_flat walk_flat
  by unfold_locales (simp_all add: lookup_flat_find walk_flat_filter)

subsection \<open>The retained tree\<close>

lemma lookup_node_mk [simp]:
  "lookup_node (mk sha l e r) p =
     (if p = Path e then Some e else if p < Path e then lookup_node l p else lookup_node r p)"
  by (simp add: mk_def)

lemma lookup_node_find:
  assumes "tree_ok sha t"
  shows "lookup_node t p = find (\<lambda>e. Path e = p) (inorder t)"
proof -
  have "wf_node sha t" using assms by (simp add: tree_ok_def)
  then show ?thesis using assms
  proof (induction rule: wf_induct)
    case (node l e r)
    have ok: "tree_ok sha l" "tree_ok sha r" "\<forall>x \<in> set (inorder l). Path x < Path e" "\<forall>x \<in> set (inorder r). Path e < Path x"
      using node.prems by (auto simp: tree_ok_mk)
    have left: "find (\<lambda>e. Path e = p) (inorder l) = None" if "Path e \<le> p"
      by (rule find_none) (use ok(3) that in auto)
    have right: "find (\<lambda>e. Path e = p) (inorder r) = None" if "p \<le> Path e"
      by (rule find_none) (use ok(4) that in auto)
    show ?case using node.IH ok(1,2) left right by (auto simp: find_append split: option.splits)
  qed simp
qed

lemma walkRange_mk:
  "walkRange (mk sha l e r) lo hi visit st =
     (case (if Path e \<ge> lo then walkRange l lo hi visit st else (st, True)) of
        (st1, go1) \<Rightarrow>
          if \<not> go1 then (st1, False)
          else (case (if Path e \<ge> lo \<and> (hi = '''' \<or> Path e < hi) then visit st1 e else (st1, True)) of
                  (st2, go2) \<Rightarrow>
                    if \<not> go2 then (st2, False)
                    else if hi = '''' \<or> Path e < hi then walkRange r lo hi visit st2
                    else (st2, True)))"
  by (simp add: mk_def)

lemma walkRange_filter:
  assumes "tree_ok sha t"
  shows "walkRange t lo hi visit st =
     walk_list visit st (filter (\<lambda>e. lo \<le> Path e \<and> (hi = '''' \<or> Path e < hi)) (inorder t))"
proof -
  let ?P = "\<lambda>e. lo \<le> Path e \<and> (hi = '''' \<or> Path e < hi)"
  have "wf_node sha t" using assms by (simp add: tree_ok_def)
  then show ?thesis using assms
  proof (induction arbitrary: st rule: wf_induct)
    case (node l e r)
    have ok: "tree_ok sha l" "tree_ok sha r" "\<forall>x \<in> set (inorder l). Path x < Path e" "\<forall>x \<in> set (inorder r). Path e < Path x"
      using node.prems by (auto simp: tree_ok_mk)
    have left: "(if lo \<le> Path e then walkRange l lo hi visit st else (st, True)) = walk_list visit st (filter ?P (inorder l))"
    proof (cases "lo \<le> Path e")
      case False
      then have "filter ?P (inorder l) = []" using ok(3) by (auto simp: filter_empty_conv dest: less_trans)
      then show ?thesis using False by simp
    qed (simp add: node.IH(1) ok(1))
    have right: "(if hi = '''' \<or> Path e < hi then walkRange r lo hi visit st' else (st', True)) =
        walk_list visit st' (filter ?P (inorder r))" for st'
    proof (cases "hi = '''' \<or> Path e < hi")
      case False
      then have "filter ?P (inorder r) = []" using ok(4) by (auto simp: filter_empty_conv dest: less_trans)
      then show ?thesis using False by simp
    qed (simp add: node.IH(2) ok(2))
    have mid: "(if lo \<le> Path e \<and> (hi = '''' \<or> Path e < hi) then visit st' e else (st', True)) =
        walk_list visit st' (filter ?P [e])" for st' by (auto split: prod.splits)
    have all: "filter ?P (inorder (mk sha l e r)) = filter ?P (inorder l) @ filter ?P [e] @ filter ?P (inorder r)" by simp
    show ?case
      unfolding walkRange_mk left mid right all walk_list_append by (auto split: prod.splits)
  qed simp
qed

interpretation retained: inventory "tree_ok sha" inorder lookup_node walkRange for sha
proof unfold_locales
  fix s p show "tree_ok sha s \<Longrightarrow> lookup_node s p = find (\<lambda>e. Path e = p) (inorder s)" by (rule lookup_node_find)
qed (simp_all add: tree_ok_sorted walkRange_filter)

end
