(* ===== verification/Snapshot_Refine.thy ===== *)
theory Snapshot_Refine
  imports Manifest_Inventory
begin

text \<open>
  Snapshots refine sorted lists of entries. \<open>snap_ok\<close> is the invariant of a snapshot: a valid
  inventory, exact counters, and caches (index, view, pending edits of a view) that agree with
  it. Every operation keeps it, and \<open>Update\<close> is the sequence of its edits on the list whatever
  representation it takes.
\<close>

subsection \<open>The invariant\<close>

definition contents :: "snapshot \<Rightarrow> manifest_entry list" where
  "contents s = (case entries s of Some es \<Rightarrow> es | None \<Rightarrow> inorder (index s))"

definition byte_sum :: "manifest_entry list \<Rightarrow> int" where
  "byte_sum es = sum_list (map Size es)"

definition inventory_ok :: "platform \<Rightarrow> manifest_entry list \<Rightarrow> bool" where
  "inventory_ok os es \<longleftrightarrow>
     path_sorted es \<and> manifest_ok os es \<and> ''.'' \<notin> Path ` set es \<and> byte_sum es \<le> MaxInt64"

definition index_ok :: "(bytes \<Rightarrow> bytes) \<Rightarrow> node \<Rightarrow> manifest_entry list \<Rightarrow> bool" where
  "index_ok sha t es \<longleftrightarrow> tree_ok sha t \<and> inorder t = es \<and> height_of t \<le> maxHeight"

definition snap_ok :: "(bytes \<Rightarrow> bytes) \<Rightarrow> platform \<Rightarrow> snapshot \<Rightarrow> bool" where
  "snap_ok sha os s \<longleftrightarrow>
     inventory_ok os (contents s) \<and> byte_total s = byte_sum (contents s) \<and>
     entry_count s = int (length (contents s)) \<and>
     (index s \<noteq> Leaf \<longrightarrow> index_ok sha (index s) (contents s)) \<and>
     (\<forall>m. view s = Some m \<longrightarrow> slice (Entries m) = contents s) \<and>
     (\<forall>eds. viewEdits s = Some eds \<longrightarrow> path_sorted (viewBase s) \<and> edits_sorted eds \<and>
        fold apply_edit eds (viewBase s) = contents s)"

lemma byte_sum_simps [simp]:
  "byte_sum [] = 0" "byte_sum (e # es) = Size e + byte_sum es" "byte_sum (xs @ ys) = byte_sum xs + byte_sum ys"
  by (simp_all add: byte_sum_def)

lemma contents_flat [simp]: "entries s = Some es \<Longrightarrow> contents s = es"
  by (simp add: contents_def)

lemma contents_tree [simp]: "entries s = None \<Longrightarrow> contents s = inorder (index s)"
  by (simp add: contents_def)

lemma snap_sorted: "snap_ok sha os s \<Longrightarrow> path_sorted (contents s)"
  by (simp add: snap_ok_def inventory_ok_def)

lemma snap_index: "snap_ok sha os s \<Longrightarrow> entries s = None \<Longrightarrow> tree_ok sha (index s)"
  by (cases "index s = Leaf") (auto simp: snap_ok_def index_ok_def)

text \<open>What the checks inside \<open>Update\<close> may rely on before the new snapshot is known to be valid.\<close>

definition walkable :: "(bytes \<Rightarrow> bytes) \<Rightarrow> snapshot \<Rightarrow> bool" where
  "walkable sha s \<longleftrightarrow> path_sorted (contents s) \<and> (entries s = None \<longrightarrow> tree_ok sha (index s))"

lemma snap_walkable: "snap_ok sha os s \<Longrightarrow> walkable sha s"
  by (simp add: walkable_def snap_sorted snap_index)

interpretation snap: inventory "walkable sha" contents Lookup walk_between for sha
proof unfold_locales
  fix s :: snapshot and p lo hi :: string and visit :: "'a visitor" and st :: 'a
  assume s: "walkable sha s"
  then show so: "path_sorted (contents s)" by (simp add: walkable_def)
  have t: "tree_ok sha (index s)" if "entries s = None" using s that by (simp add: walkable_def)
  show "Lookup s p = find (\<lambda>e. Path e = p) (contents s)"
    using so lookup_node_find [OF t] by (auto simp: Lookup_def lookup_flat_find split: option.splits)
  assume "hi \<noteq> ''''"
  then show "walk_between s lo hi visit st = walk_list visit st (filter (\<lambda>e. lo \<le> Path e \<and> Path e < hi) (contents s))"
    using so walkRange_filter [OF t, of lo hi visit st]
    by (auto simp: walk_between_def walk_flat_filter split: option.splits)
qed

subsection \<open>Subtrees\<close>

lemma filter_subtree:
  assumes "path_sorted es"
  shows "filter (\<lambda>e. Path e = root \<or> prefix (root @ ''/'') (Path e)) es =
     (case find (\<lambda>e. Path e = root) es of None \<Rightarrow> [] | Some e \<Rightarrow> [e]) @
     filter (\<lambda>e. prefix (root @ ''/'') (Path e)) es"
  using assms
proof (induction es)
  case (Cons x es)
  have below: "root < q" if "prefix (root @ ''/'') q" for q
    using that by (metis append_prefixD prefix_less prefix_length_le length_append_singleton not_less_eq_eq order_refl)
  have later: "find (\<lambda>e. Path e = root) es = None" if "root \<le> Path x"
    by (rule find_none) (use that Cons.prems in auto)
  consider "Path x = root" | "prefix (root @ ''/'') (Path x)" "Path x \<noteq> root" "root < Path x"
    | "\<not> prefix (root @ ''/'') (Path x)" "Path x \<noteq> root" using below by blast
  then show ?case using Cons later below [of root] by cases auto
qed simp

lemma Subtree_walk:
  assumes "walkable sha s"
  shows "Subtree s root visit st =
     fst (walk_list visit st (filter (\<lambda>e. Path e = root \<or> prefix (root @ ''/'') (Path e)) (contents s)))"
  using snap.lookup_law [OF assms, of root] snap.walk_below [OF assms, of root visit] snap.sorted [OF assms]
  by (auto simp: Subtree_def filter_subtree walk_list_append split: option.splits prod.splits)

subsection \<open>Construction\<close>

lemma entry_size: "entry_ok os e \<Longrightarrow> 0 \<le> Size e"
  by (auto simp: entry_ok_def validateEntry_def split: if_splits)

lemma byte_sum_nonneg: "\<forall>e \<in> set es. entry_ok os e \<Longrightarrow> 0 \<le> byte_sum es"
  by (induction es) (auto dest: entry_size)

lemma validate_total_Inr:
  assumes "\<forall>e \<in> set es. 0 \<le> Size e" "sz \<le> MaxInt64"
  shows "validate_total sz es = Inr t \<longleftrightarrow> ''.'' \<notin> Path ` set es \<and> t = sz + byte_sum es \<and> sz + byte_sum es \<le> MaxInt64"
  using assms
proof (induction sz es rule: validate_total.induct)
  case (2 sz e es)
  have "0 \<le> byte_sum es" using 2(2) by (induction es) auto
  then show ?case using 2 by (auto simp: algebra_simps)
qed auto

lemma lift_archive_simps [simp]:
  "is_ok (lift_archive r) \<longleftrightarrow> is_ok r" "lift_archive r = Inr a \<longleftrightarrow> r = Inr a"
  by (cases r; simp add: lift_archive_def)+

lemma New_ok:
  "New os m = Inr s \<longleftrightarrow> inventory_ok os (slice (Entries m)) \<and>
     s = empty_snapshot\<lparr>entries := Entries m, byte_total := byte_sum (slice (Entries m)),
           entry_count := int (length (slice (Entries m)))\<rparr>"
proof -
  let ?es = "slice (Entries m)"
  have v: "validate os m = Inr t \<longleftrightarrow> inventory_ok os ?es \<and> t = byte_sum ?es" for t
  proof -
    have "ValidateSortedContext os None m = Inr () \<longleftrightarrow> path_sorted ?es \<and> manifest_ok os ?es"
      using ValidateSorted_manifest_ok [of os m] by (simp add: is_ok_unit)
    moreover have "\<forall>e \<in> set ?es. 0 \<le> Size e" if "manifest_ok os ?es"
      using that entry_size by (auto simp: manifest_ok_def)
    ultimately show ?thesis
      using validate_total_Inr [of ?es 0 t]
      by (auto simp: validate_def bind_res_Inr_iff inventory_ok_def MaxInt64_def)
  qed
  show ?thesis by (auto simp: New_def bind_res_Inr_iff v)
qed

lemma New_snap_ok: "New os m = Inr s \<Longrightarrow> snap_ok sha os s \<and> contents s = slice (Entries m)"
  by (cases "Entries m") (auto simp: New_ok snap_ok_def empty_snapshot_def contents_def)

subsection \<open>Views\<close>

lemma fold_edits_append:
  assumes "\<forall>x \<in> set xs. \<forall>ed \<in> set eds. Path x < Path (Entry ed)"
  shows "fold apply_edit eds (xs @ ys) = xs @ fold apply_edit eds ys"
  using assms by (induction xs) (simp_all add: fold_edits_above)

lemma split_at_edit:
  assumes "path_sorted es" "binary_search Path es (Path (Entry ed)) = (i, found)"
  shows "apply_edit ed es = take i es @ (if Delete ed then [] else [Entry ed]) @ drop (if found then i + 1 else i) es"
proof -
  note search = binary_search_sorted [OF assms]
  have low: "\<forall>x \<in> set (take i es). Path x < Path (Entry ed)" by (rule search(2))
  show ?thesis
  proof (cases found)
    case True
    have "take i es @ es ! i # drop (i + 1) es = es" using search(5) [OF True] by (simp add: id_take_nth_drop [symmetric])
    note edit = edit_middle(3) [of "take i es" "es ! i" "drop (i + 1) es" ed, unfolded this]
    have p: "Path (es ! i) = Path (Entry ed)" using search(5) [OF True] by simp
    have "apply_edit ed es = take i es @ (if Delete ed then [] else [Entry ed]) @ drop (i + 1) es"
      by (rule edit) (use low search(6) [OF True] in \<open>simp_all add: p\<close>)
    then show ?thesis using True by (simp only: if_True)
  next
    case False
    have high: "\<forall>x \<in> set (drop i es). Path (Entry ed) < Path x" using search(7) [OF False] .
    have "del (Path (Entry ed)) es = es" by (rule del_absent) (use search(4) False in \<open>metis imageI\<close>)
    moreover have "put (Entry ed) (take i es @ drop i es) = take i es @ Entry ed # drop i es"
      using put_append [OF low, of "drop i es"] put_front [of "drop i es" "Entry ed" "[]"] high by simp
    ultimately show ?thesis using False by (simp add: apply_edit_def)
  qed
qed

lemma edited_loop_fold:
  assumes "path_sorted es" "edits_sorted eds"
  shows "edited_loop es eds = fold apply_edit eds es"
  using assms
proof (induction eds arbitrary: es)
  case (Cons ed eds)
  obtain i found where bs: "binary_search Path es (Path (Entry ed)) = (i, found)" by fastforce
  let ?rest = "drop (if found then i + 1 else i) es"
  have "path_sorted ?rest" using Cons.prems(1) by (simp only: drop_map [symmetric] sorted_wrt_drop)
  then have IH: "edited_loop ?rest eds = fold apply_edit eds ?rest" using Cons.IH Cons.prems by simp
  have "\<forall>x \<in> set (take i es @ (if Delete ed then [] else [Entry ed])). \<forall>e \<in> set eds. Path x < Path (Entry e)"
    using binary_search_sorted(2) [OF Cons.prems(1) bs] Cons.prems(2) by (auto intro: less_trans)
  from fold_edits_append [OF this, of ?rest] show ?case
    using split_at_edit [OF Cons.prems(1) bs, symmetric] bs IH by simp
qed simp

lemma editedView_slice [simp]: "slice (Entries (editedView base eds n)) = edited_loop base eds"
  by (simp add: editedView_def Let_def)

lemma walk_collect: "walk_list (\<lambda>acc e. (acc @ [e], True)) acc es = (acc @ es, True)"
  by (induction es arbitrary: acc) simp_all

lemma Walk_collect:
  "snap_ok sha os s \<Longrightarrow> Walk s (\<lambda>acc e. (acc @ [e], True)) [] = contents s"
  using walkRange_filter [OF snap_index, where lo = "[]" and hi = "[]" and visit = "\<lambda>acc e. (acc @ [e], True)" and st = "[]"]
  by (auto simp: Walk_def walk_collect split: option.splits)

lemma snap_ok_caches:
  assumes "snap_ok sha os s"
  shows "slice (Entries m) = contents s \<Longrightarrow> snap_ok sha os (s\<lparr>view := Some m\<rparr>)"
    "snap_ok sha os (s\<lparr>noIndex := b\<rparr>)" "snap_ok sha os (s\<lparr>wireRoot := w\<rparr>)"
    "entries s \<noteq> None \<or> n = index s \<Longrightarrow> n \<noteq> Leaf \<longrightarrow> index_ok sha n (contents s) \<Longrightarrow> snap_ok sha os (s\<lparr>index := n\<rparr>)"
  using assms by (auto simp: snap_ok_def contents_def split: option.splits)

lemma contents_caches [simp]:
  "contents (s\<lparr>view := v\<rparr>) = contents s" "contents (s\<lparr>noIndex := b\<rparr>) = contents s"
  "contents (s\<lparr>wireRoot := w\<rparr>) = contents s" "entries s \<noteq> None \<Longrightarrow> contents (s\<lparr>index := n\<rparr>) = contents s"
  by (auto simp: contents_def split: option.splits)

lemma readyView_contents: "snap_ok sha os s \<Longrightarrow> readyView s = Some m \<Longrightarrow> slice (Entries m) = contents s"
  by (auto simp: readyView_def snap_ok_def split: option.splits if_splits)

lemma materialized_ok:
  assumes "snap_ok sha os s" "materialized s = (m, s')"
  shows "slice (Entries m) = contents s \<and> snap_ok sha os s' \<and> contents s' = contents s"
proof (cases "readyView s")
  case (Some v)
  then show ?thesis using assms readyView_contents by (auto simp: materialized_def)
next
  case None
  have "slice (Entries m) = contents s"
    using assms None Walk_collect [OF assms(1)] edited_loop_fold
    by (auto simp: materialized_def snap_ok_def Let_def split: option.splits)
  moreover have "s' = s\<lparr>view := Some m\<rparr>" using assms(2) None by (auto simp: materialized_def Let_def)
  ultimately show ?thesis using snap_ok_caches(1) [OF assms(1)] by simp
qed

subsection \<open>The index\<close>

lemma canonical_Leaf: "path_sorted es \<Longrightarrow> canonical sha es = Leaf \<longleftrightarrow> es = []"
  using canonical_ok [of es sha] by (auto simp: canonical_def)

lemma tree_result:
  assumes "snap_ok sha os s" "tree sha gomaxprocs s = (r, s')"
  shows "snap_ok sha os s' \<and> contents s' = contents s \<and> (\<forall>n. r = Inr n \<longrightarrow> index_ok sha n (contents s))"
proof (cases "index s = Leaf")
  case False
  then show ?thesis using assms by (auto simp: tree_def snap_ok_def)
next
  case True
  have es: "slice (entries s) = contents s" using True by (cases "entries s") simp_all
  have sorted: "path_sorted (contents s)" by (rule snap_sorted [OF assms(1)])
  note build = buildTree_canonical [OF sorted, of sha gomaxprocs]
  show ?thesis
  proof (cases "maxHeight < height_of (canonical sha (contents s))")
    case True
    then show ?thesis using assms \<open>index s = Leaf\<close> by (auto simp: tree_def es build)
  next
    case False
    then have n: "index_ok sha (canonical sha (contents s)) (contents s)"
      using canonical_ok [OF sorted] by (simp add: index_ok_def)
    have s': "r = Inr (canonical sha (contents s))" "s' = s\<lparr>index := canonical sha (contents s)\<rparr>"
      using assms(2) False True by (auto simp: tree_def es build)
    have "entries s \<noteq> None \<or> canonical sha (contents s) = index s"
      using True canonical_Leaf [OF sorted, of sha] by (cases "entries s") simp_all
    moreover from this have "contents s' = contents s" using s'(2) by (cases "entries s") auto
    ultimately show ?thesis using s' n snap_ok_caches(4) [OF assms(1)] by auto
  qed
qed


subsection \<open>Edits of a sorted list\<close>

abbreviation entry_at :: "manifest_entry list \<Rightarrow> string \<Rightarrow> manifest_entry option" where
  "entry_at es p \<equiv> find (\<lambda>e. Path e = p) es"

lemma edit_split:
  assumes "path_sorted es"
  obtains xs ys where
    "es = xs @ (case entry_at es (Path (Entry ed)) of None \<Rightarrow> [] | Some old \<Rightarrow> [old]) @ ys"
    "apply_edit ed es = xs @ (if Delete ed then [] else [Entry ed]) @ ys"
    "\<forall>x \<in> set xs. Path x < Path (Entry ed)" "\<forall>y \<in> set ys. Path (Entry ed) < Path y"
proof -
  obtain i found where bs: "binary_search Path es (Path (Entry ed)) = (i, found)" by fastforce
  note search = binary_search_sorted [OF assms bs]
  have at: "entry_at es (Path (Entry ed)) = (if found then Some (es ! i) else None)"
    using lookup_flat_find [OF assms, of "Path (Entry ed)"] bs by (simp add: lookup_flat_def)
  let ?j = "if found then i + 1 else i"
  have "es = take i es @ (case entry_at es (Path (Entry ed)) of None \<Rightarrow> [] | Some old \<Rightarrow> [old]) @ drop ?j es"
    using search(5) unfolding at by (simp add: id_take_nth_drop [symmetric])
  moreover have "\<forall>y \<in> set (drop ?j es). Path (Entry ed) < Path y" using search(6,7) by (simp split: if_splits)
  ultimately show thesis using that split_at_edit [OF assms bs] search(2) by blast
qed

lemma apply_edit_sorted:
  assumes "path_sorted es"
  shows "path_sorted (apply_edit ed es)"
proof -
  obtain xs ys where s: "es = xs @ (case entry_at es (Path (Entry ed)) of None \<Rightarrow> [] | Some old \<Rightarrow> [old]) @ ys"
    "apply_edit ed es = xs @ (if Delete ed then [] else [Entry ed]) @ ys"
    "\<forall>x \<in> set xs. Path x < Path (Entry ed)" "\<forall>y \<in> set ys. Path (Entry ed) < Path y"
    by (rule edit_split [OF assms])
  have "path_sorted (xs @ (case entry_at es (Path (Entry ed)) of None \<Rightarrow> [] | Some old \<Rightarrow> [old]) @ ys)"
    using assms s(1) by simp
  then have "path_sorted xs" "path_sorted ys" "\<forall>x \<in> set xs. \<forall>y \<in> set ys. Path x < Path y"
    by (auto simp: sorted_wrt_append)
  then show ?thesis using s(2-4) by (auto simp: sorted_wrt_append)
qed

lemma fold_edits_sorted: "path_sorted es \<Longrightarrow> path_sorted (fold apply_edit eds es)"
  by (induction eds arbitrary: es) (simp_all add: apply_edit_sorted)

lemma apply_edit_sizes:
  fixes ed :: edit
  assumes "path_sorted es"
  defines "old \<equiv> entry_at es (Path (Entry ed))"
  shows "byte_sum (apply_edit ed es) =
      byte_sum es - (case old of None \<Rightarrow> 0 | Some e \<Rightarrow> Size e) + (if Delete ed then 0 else Size (Entry ed))"
    "int (length (apply_edit ed es)) =
      int (length es) - (case old of None \<Rightarrow> 0 | Some e \<Rightarrow> 1) + (if Delete ed then 0 else 1)"
    "old = (if Delete ed then None else Some (Entry ed)) \<Longrightarrow> apply_edit ed es = es"
proof -
  obtain xs ys where s: "es = xs @ (case old of None \<Rightarrow> [] | Some old \<Rightarrow> [old]) @ ys"
    "apply_edit ed es = xs @ (if Delete ed then [] else [Entry ed]) @ ys"
    unfolding old_def by (rule edit_split [OF assms(1), of ed])
  have "byte_sum es = byte_sum xs + (case old of None \<Rightarrow> 0 | Some e \<Rightarrow> Size e) + byte_sum ys"
    "int (length es) = int (length xs) + (case old of None \<Rightarrow> 0 | Some e \<Rightarrow> 1) + int (length ys)"
    by (subst s(1), simp split: option.splits)+
  then show "byte_sum (apply_edit ed es) =
      byte_sum es - (case old of None \<Rightarrow> 0 | Some e \<Rightarrow> Size e) + (if Delete ed then 0 else Size (Entry ed))"
    "int (length (apply_edit ed es)) =
      int (length es) - (case old of None \<Rightarrow> 0 | Some e \<Rightarrow> 1) + (if Delete ed then 0 else 1)"
    using s(2) by simp_all
  show "apply_edit ed es = es" if "old = (if Delete ed then None else Some (Entry ed))"
    using s that by (simp split: if_splits)
qed

lemma entry_at_other:
  assumes "path_sorted es" "p \<noteq> Path (Entry ed)"
  shows "entry_at (apply_edit ed es) p = entry_at es p"
proof -
  obtain xs ys where s: "es = xs @ (case entry_at es (Path (Entry ed)) of None \<Rightarrow> [] | Some old \<Rightarrow> [old]) @ ys"
    "apply_edit ed es = xs @ (if Delete ed then [] else [Entry ed]) @ ys"
    by (rule edit_split [OF assms(1), of ed])
  have none: "entry_at (case entry_at es (Path (Entry ed)) of None \<Rightarrow> [] | Some old \<Rightarrow> [old]) p = None"
  proof (cases "entry_at es (Path (Entry ed))")
    case (Some a)
    then have "Path a = Path (Entry ed)" using sorted_find [OF assms(1)] by blast
    then show ?thesis using Some assms(2) by simp
  qed simp
  have "entry_at ((case entry_at es (Path (Entry ed)) of None \<Rightarrow> [] | Some old \<Rightarrow> [old]) @ ys) p = entry_at ys p"
    by (simp only: find_append none option.case)
  then have "entry_at es p = entry_at (xs @ ys) p" by (subst s(1)) (simp only: find_append [of _ xs])
  also have "\<dots> = entry_at (apply_edit ed es) p" using assms(2) by (simp add: s(2) find_append split: option.splits)
  finally show ?thesis ..
qed

subsection \<open>The scan of the edits\<close>

definition safe_edits :: "edit list \<Rightarrow> bool" where
  "safe_edits eds \<longleftrightarrow> (\<forall>ed \<in> set eds. \<not> unsafe_edit (Path (Entry ed))) \<and> edits_sorted eds"

lemma scan_edits_ok:
  assumes "sorted (map (\<lambda>ed. Path (Entry ed)) eds)" "\<forall>p. prev = Some p \<longrightarrow> (\<forall>ed \<in> set eds. p \<le> Path (Entry ed))"
  shows "is_ok (scan_edits s prev eds sc) \<longleftrightarrow> safe_edits eds \<and> (\<forall>ed \<in> set eds. prev \<noteq> Some (Path (Entry ed)))"
  using assms
proof (induction s prev eds sc rule: scan_edits.induct)
  case (2 s prev e es sc)
  show ?case
  proof (cases "unsafe_edit (Path (Entry e)) \<or> prev = Some (Path (Entry e))")
    case True
    then show ?thesis by (auto simp: safe_edits_def)
  next
    case False
    have "is_ok (scan_edits s (Some (Path (Entry e))) es (scan_edit s e sc)) \<longleftrightarrow>
        safe_edits es \<and> (\<forall>ed \<in> set es. Path (Entry e) \<noteq> Path (Entry ed))"
      using 2 False by simp
    moreover have "(\<forall>ed \<in> set es. Path (Entry e) \<noteq> Path (Entry ed)) \<longleftrightarrow> (\<forall>ed \<in> set es. Path (Entry e) < Path (Entry ed))"
      using 2(2) by (auto simp: order.order_iff_strict)
    moreover have "\<forall>ed \<in> set es. Path (Entry e) < Path (Entry ed) \<longrightarrow> prev \<noteq> Some (Path (Entry ed))"
      using 2(3) by (auto simp: leD)
    ultimately show ?thesis using False by (auto simp: safe_edits_def)
  qed
qed (simp add: safe_edits_def)

definition scan_result :: "manifest_entry list \<Rightarrow> edit list \<Rightarrow> edit_scan \<Rightarrow> edit_scan \<Rightarrow> bool" where
  "scan_result es eds sc sc' \<longleftrightarrow>
     scan_size sc' + byte_sum (scan_replacements sc') - byte_sum (fold apply_edit eds es) =
       scan_size sc + byte_sum (scan_replacements sc) - byte_sum es \<and>
     scan_count sc' - int (length (fold apply_edit eds es)) = scan_count sc - int (length es) \<and>
     (\<not> scan_changed sc' \<longrightarrow> fold apply_edit eds es = es) \<and>
     (\<not> scan_structural sc' \<longrightarrow> (\<forall>ed \<in> set eds. \<not> Delete ed \<and> Path (Entry ed) \<in> Path ` set es)) \<and>
     (\<not> scan_types sc' \<longrightarrow> (\<forall>ed \<in> set eds. \<forall>old. entry_at es (Path (Entry ed)) = Some old \<longrightarrow> Type old = Type (Entry ed))) \<and>
     scan_replacements sc' = scan_replacements sc @ map Entry (filter (\<lambda>ed. \<not> Delete ed) eds)"

lemma scan_edits_mono:
  assumes "scan_edits s prev eds sc = Inr sc'"
  shows "(scan_changed sc \<longrightarrow> scan_changed sc') \<and> (scan_structural sc \<longrightarrow> scan_structural sc') \<and>
     (scan_types sc \<longrightarrow> scan_types sc')"
  using assms
  by (induction s prev eds sc rule: scan_edits.induct)
    (auto simp: scan_edit_def Let_def split: if_splits option.splits)

lemma scan_edit_step:
  assumes "path_sorted es" "Lookup s (Path (Entry ed)) = entry_at es (Path (Entry ed))"
  shows "scan_result es [ed] sc (scan_edit s ed sc)"
proof -
  let ?old = "entry_at es (Path (Entry ed))"
  note sizes = apply_edit_sizes [OF assms(1), of ed]
  have present: "Path (Entry ed) \<in> Path ` set es" if "?old \<noteq> None" using that by (metis (mono_tags, lifting) find_None_iff imageI)
  show ?thesis
  proof (cases ?old)
    case None
    then show ?thesis
      using sizes by (auto simp: scan_result_def scan_edit_def assms(2) Let_def)
  next
    case (Some old)
    then show ?thesis
      using sizes present by (auto simp: scan_result_def scan_edit_def assms(2) Let_def)
  qed
qed

lemma scan_edits_result:
  assumes "scan_edits s prev eds sc = Inr sc'" "path_sorted es" "edits_sorted eds"
    and "\<forall>ed \<in> set eds. Lookup s (Path (Entry ed)) = entry_at es (Path (Entry ed))"
  shows "scan_result es eds sc sc'"
  using assms
proof (induction s prev eds sc arbitrary: es rule: scan_edits.induct)
  case (2 s prev ed eds sc)
  let ?es = "apply_edit ed es" and ?sc = "scan_edit s ed sc"
  have ok: "\<not> unsafe_edit (Path (Entry ed))" "prev \<noteq> Some (Path (Entry ed))"
    "scan_edits s (Some (Path (Entry ed))) eds ?sc = Inr sc'" using 2(2) by (auto split: if_splits)
  have later: "\<forall>e \<in> set eds. Path (Entry e) \<noteq> Path (Entry ed)" using 2(4) by auto
  have at: "entry_at ?es (Path (Entry e)) = entry_at es (Path (Entry e))" if "e \<in> set eds" for e
    using later that by (intro entry_at_other [OF 2(3)]) blast
  have rest: "scan_result ?es eds ?sc sc'"
    by (rule 2(1) [OF ok apply_edit_sorted [OF 2(3)]]) (use 2(4,5) at in auto)
  have step: "scan_result es [ed] sc ?sc" by (rule scan_edit_step) (use 2 in auto)
  note mono = scan_edits_mono [OF ok(3)]
  have paths: "Path (Entry e) \<in> Path ` set ?es \<longleftrightarrow> Path (Entry e) \<in> Path ` set es" if "e \<in> set eds" for e
    using at [OF that] by (metis (mono_tags, lifting) find_None_iff image_iff)
  note r = rest [unfolded scan_result_def] and st = step [unfolded scan_result_def fold_simps]
  show ?case unfolding scan_result_def fold_simps
  proof (intro conjI)
    show "scan_size sc' + byte_sum (scan_replacements sc') - byte_sum (fold apply_edit eds ?es) =
        scan_size sc + byte_sum (scan_replacements sc) - byte_sum es"
      using r [THEN conjunct1] st [THEN conjunct1] by (rule trans)
    show "scan_count sc' - int (length (fold apply_edit eds ?es)) = scan_count sc - int (length es)"
      using r [THEN conjunct2, THEN conjunct1] st [THEN conjunct2, THEN conjunct1] by (rule trans)
    show "\<not> scan_changed sc' \<longrightarrow> fold apply_edit eds ?es = es" using r st mono by metis
    show "\<not> scan_structural sc' \<longrightarrow> (\<forall>e \<in> set (ed # eds). \<not> Delete e \<and> Path (Entry e) \<in> Path ` set es)"
      using r st mono paths by (metis list.set_intros(1) set_ConsD)
    show "\<not> scan_types sc' \<longrightarrow>
        (\<forall>e \<in> set (ed # eds). \<forall>old. entry_at es (Path (Entry e)) = Some old \<longrightarrow> Type old = Type (Entry e))"
      using r st mono at by (metis list.set_intros(1) set_ConsD)
    show "scan_replacements sc' = scan_replacements sc @ map Entry (filter (\<lambda>ed. \<not> Delete ed) (ed # eds))"
      using r st by simp
  qed
qed (simp add: scan_result_def)

end
