(* ===== verification/Snapshot_Update.thy ===== *)
theory Snapshot_Update
  imports Snapshot_Refine
begin

text \<open>
  \<open>Snapshot.Update\<close> refines the edits of a sorted list: it accepts exactly the batches whose
  result is a valid inventory, and the snapshot it returns has that inventory, for the flat
  update, the batch replacement and the structural tree updates alike.
\<close>

subsection \<open>The hierarchy check\<close>

definition hierarchical :: "manifest_entry list \<Rightarrow> bool" where
  "hierarchical es \<longleftrightarrow>
     (\<forall>e \<in> set es. \<forall>d \<in> set es. Path d \<in> set (parent_dirs (Path e)) \<longrightarrow> Type d = EntryDir)"

lemma manifest_ok_hierarchical:
  "path_sorted es \<Longrightarrow> manifest_ok os es \<longleftrightarrow> (\<forall>e \<in> set es. entry_ok os e) \<and> hierarchical es"
  by (simp add: manifest_ok_def hierarchical_def strict_sorted_iff)

lemma entry_rel_path: "entry_ok os e \<Longrightarrow> Path e \<noteq> ''.'' \<Longrightarrow> rel_path (Path e)"
  using checkRelPath_rel by (auto simp: entry_ok_def)

lemma walk_descendant:
  "\<forall>x \<in> set es. Path x \<noteq> p \<Longrightarrow>
     walk_list (\<lambda>_ child. (Path child \<noteq> p, \<not> Path child \<noteq> p)) False es = (es \<noteq> [], es = [])"
  by (cases es) simp_all

lemma Subtree_descendant:
  assumes "walkable sha s"
  shows "Subtree s p (\<lambda>_ child. (Path child \<noteq> p, \<not> Path child \<noteq> p)) False \<longleftrightarrow>
     (\<exists>child \<in> set (contents s). prefix (p @ ''/'') (Path child))"
proof -
  let ?visit = "\<lambda>(_ :: bool) child. (Path child \<noteq> p, \<not> Path child \<noteq> p)"
  let ?below = "filter (\<lambda>e. prefix (p @ ''/'') (Path e)) (contents s)"
  have "walk_list ?visit False (case entry_at (contents s) p of None \<Rightarrow> [] | Some e \<Rightarrow> [e]) = (False, True)"
    using snap.sorted [OF assms] by (auto simp: sorted_find split: option.splits)
  moreover have "walk_list ?visit False ?below = (?below \<noteq> [], ?below = [])"
    by (rule walk_descendant) auto
  ultimately have "fst (walk_list ?visit False ((case entry_at (contents s) p of None \<Rightarrow> [] | Some e \<Rightarrow> [e]) @ ?below)) \<longleftrightarrow>
      ?below \<noteq> []" by (simp add: walk_list_append)
  then show ?thesis
    unfolding Subtree_walk [OF assms] filter_subtree [OF snap.sorted [OF assms]] by (auto simp: filter_empty_conv)
qed

lemma validate_replacement_iff:
  assumes "walkable sha s" "\<forall>x \<in> set (contents s). rel_path (Path x)" "rel_path (Path e)"
  shows "is_ok (validate_replacement s e) \<longleftrightarrow>
     (\<forall>d \<in> set (contents s). (Path d \<in> set (parent_dirs (Path e)) \<longrightarrow> Type d = EntryDir) \<and>
        (Path e \<in> set (parent_dirs (Path d)) \<longrightarrow> Type e = EntryDir))"
proof -
  let ?check = "\<lambda>parent. case Lookup s parent of None \<Rightarrow> Inr ()
      | Some p \<Rightarrow> check_that (Type p = EntryDir) (ThroughNonDirectory parent)"
  have "is_ok (each_ok ?check (parent_dirs (Path e))) \<longleftrightarrow>
      (\<forall>parent \<in> set (parent_dirs (Path e)). \<forall>p. Lookup s parent = Some p \<longrightarrow> Type p = EntryDir)"
    by (simp split: option.splits)
  also have "\<dots> \<longleftrightarrow> (\<forall>d \<in> set (contents s). Path d \<in> set (parent_dirs (Path e)) \<longrightarrow> Type d = EntryDir)"
    by (rule snap.parents_are_dirs [OF assms(1)])
  finally have up: "is_ok (each_ok ?check (parent_dirs (Path e))) \<longleftrightarrow>
      (\<forall>d \<in> set (contents s). Path d \<in> set (parent_dirs (Path e)) \<longrightarrow> Type d = EntryDir)" .
  have down: "(\<exists>child \<in> set (contents s). prefix (Path e @ ''/'') (Path child)) \<longleftrightarrow>
      (\<exists>d \<in> set (contents s). Path e \<in> set (parent_dirs (Path d)))"
    using assms(2,3) by (auto simp: in_parent_dirs_iff)
  have "is_ok (validate_replacement s e) \<longleftrightarrow> is_ok (each_ok ?check (parent_dirs (Path e))) \<and>
      (Type e \<noteq> EntryDir \<longrightarrow> \<not> (\<exists>child \<in> set (contents s). prefix (Path e @ ''/'') (Path child)))"
    unfolding validate_replacement_def is_ok_seq Let_def Subtree_descendant [OF assms(1)] by simp
  then show ?thesis unfolding up down by blast
qed

lemma hierarchy_of_replacements:
  assumes "hierarchical es" "set new \<subseteq> set es \<union> R" "R \<subseteq> set new"
  shows "hierarchical new \<longleftrightarrow>
     (\<forall>e \<in> R. \<forall>d \<in> set new. (Path d \<in> set (parent_dirs (Path e)) \<longrightarrow> Type d = EntryDir) \<and>
        (Path e \<in> set (parent_dirs (Path d)) \<longrightarrow> Type e = EntryDir))"
  using assms unfolding hierarchical_def by blast

lemma hierarchy_of_overlay:
  assumes "hierarchical es" "\<forall>x \<in> set es. Type (overlay eds x) = Type x"
  shows "hierarchical (map (overlay eds) es)"
  using assms by (simp add: hierarchical_def)

subsection \<open>The batch\<close>

definition edits_ok :: "platform \<Rightarrow> edit list \<Rightarrow> bool" where
  "edits_ok os eds \<longleftrightarrow> distinct (map (\<lambda>ed. Path (Entry ed)) eds) \<and>
     (\<forall>ed \<in> set eds. \<not> unsafe_edit (Path (Entry ed)) \<and> (Delete ed \<or> entry_ok os (Entry ed)))"

definition updated :: "edit list \<Rightarrow> manifest_entry list \<Rightarrow> manifest_entry list" where
  "updated eds es = fold apply_edit (sort_edits eds) es"

text \<open>What \<open>Update\<close> has established when it starts to change the representation.\<close>

definition accepted :: "platform \<Rightarrow> manifest_entry list \<Rightarrow> edit list \<Rightarrow> edit_scan \<Rightarrow> int \<Rightarrow> bool" where
  "accepted os es ordered sc sz \<longleftrightarrow>
     (let new = fold apply_edit ordered es in
        ordered \<noteq> [] \<and> edits_sorted ordered \<and> path_sorted new \<and> (\<forall>e \<in> set new. entry_ok os e) \<and> ''.'' \<notin> Path ` set new \<and>
        byte_sum new \<le> MaxInt64 \<and> sz = byte_sum new \<and> scan_count sc = int (length new) \<and>
        (\<not> scan_structural sc \<longrightarrow> (\<forall>ed \<in> set ordered. \<not> Delete ed \<and> Path (Entry ed) \<in> Path ` set es)) \<and>
        (\<not> scan_structural sc \<and> \<not> scan_types sc \<longrightarrow> hierarchical new) \<and>
        (\<forall>sha next. walkable sha next \<longrightarrow> contents next = new \<longrightarrow>
           is_ok (validateReplacements next (scan_replacements sc)) = hierarchical new))"

definition outcome ::
  "(bytes \<Rightarrow> bytes) \<Rightarrow> platform \<Rightarrow> manifest_entry list \<Rightarrow> snapshot_error + snapshot \<Rightarrow> bool" where
  "outcome sha os new r \<longleftrightarrow>
     (if hierarchical new then \<exists>t. r = Inr t \<and> snap_ok sha os t \<and> contents t = new else \<not> is_ok r)"

lemma publish:
  assumes "accepted os es ordered sc sz" "walkable sha next"
    and "contents next = fold apply_edit ordered es"
    and "hierarchical (contents next) \<Longrightarrow> snap_ok sha os next"
  shows "outcome sha os (fold apply_edit ordered es)
     (bind_res (if scan_structural sc \<or> scan_types sc then validateReplacements next (scan_replacements sc) else Inr ())
        (\<lambda>_. Inr next))"
proof -
  let ?new = "fold apply_edit ordered es"
  have check: "is_ok (validateReplacements next (scan_replacements sc)) = hierarchical ?new"
    using assms(1-3) unfolding accepted_def Let_def by blast
  have same: "hierarchical ?new" if "\<not> (scan_structural sc \<or> scan_types sc)"
    using assms(1) that unfolding accepted_def Let_def by blast
  show ?thesis
    using check same assms(3,4) by (auto simp: outcome_def is_ok_unit)
qed

lemma accepted_inventory:
  assumes "accepted os es ordered sc sz" "hierarchical (fold apply_edit ordered es)"
  shows "inventory_ok os (fold apply_edit ordered es)" "byte_sum (fold apply_edit ordered es) = sz"
    "int (length (fold apply_edit ordered es)) = scan_count sc"
  using assms by (simp_all add: accepted_def Let_def inventory_ok_def manifest_ok_hierarchical)

lemma flatUpdate_ok:
  assumes "snap_ok sha os s" "accepted os (contents s) ordered sc sz" "flatUpdate b ordered sc sz s = (r, s')"
  shows "snap_ok sha os s' \<and> contents s' = contents s \<and> outcome sha os (fold apply_edit ordered (contents s)) r"
proof -
  let ?new = "fold apply_edit ordered (contents s)"
  obtain base t where m: "materialized s = (base, t)" by fastforce
  note mat = materialized_ok [OF assms(1) m]
  define v where "v = editedView (slice (Entries base)) ordered (scan_count sc)"
  define nxt where "nxt = empty_snapshot\<lparr>entries := Entries v, byte_total := sz, entry_count := scan_count sc, noIndex := b\<rparr>"
  have sorted: "edits_sorted ordered" "path_sorted ?new" using assms(2) by (simp_all add: accepted_def Let_def)
  have new: "slice (Entries v) = ?new"
    using edited_loop_fold [OF snap_sorted [OF assms(1)] sorted(1)] mat by (simp add: v_def)
  have cn: "contents nxt = ?new" "index nxt = Leaf" "view nxt = None" "viewEdits nxt = None"
    using new by (cases "Entries v"; simp add: nxt_def empty_snapshot_def contents_def)+
  then have "walkable sha nxt" using sorted(2) by (simp add: walkable_def)
  moreover have "snap_ok sha os nxt" if "hierarchical (contents nxt)"
    using accepted_inventory [OF assms(2)] that cn by (simp add: snap_ok_def) (simp add: nxt_def)
  moreover have "r = bind_res (if scan_structural sc \<or> scan_types sc then validateReplacements nxt (scan_replacements sc) else Inr ())
        (\<lambda>_. Inr nxt)" "s' = t"
    using assms(3) unfolding flatUpdate_def m prod.case Let_def nxt_def v_def by (simp_all only: prod.inject)
  ultimately show ?thesis using publish [OF assms(2), of sha nxt] cn(1) mat by simp
qed

lemma treeUpdate_ok:
  assumes "snap_ok sha os s" "accepted os (contents s) ordered sc sz"
    and "index_ok sha root (fold apply_edit ordered (contents s))"
  shows "outcome sha os (fold apply_edit ordered (contents s)) (treeUpdate ordered sc sz root s)"
proof -
  let ?new = "fold apply_edit ordered (contents s)"
  define base where "base = empty_snapshot\<lparr>byte_total := sz, index := root, entry_count := int (count_of root)\<rparr>"
  define nxt where "nxt = (case readyView s of
      Some v \<Rightarrow> base\<lparr>viewBase := slice (Entries v), viewEdits := Some ordered\<rparr> | None \<Rightarrow> base)"
  have root: "tree_ok sha root" "inorder root = ?new" "height_of root \<le> maxHeight"
    using assms(3) by (simp_all add: index_ok_def)
  have count: "count_of root = length ?new" using count_inorder root(1,2) by (auto simp: tree_ok_def)
  have nxt: "entries nxt = None" "index nxt = root" "view nxt = None" "byte_total nxt = sz" "entry_count nxt = int (length ?new)"
    by (simp_all add: nxt_def base_def empty_snapshot_def count split: option.splits)
  have edits: "path_sorted (viewBase nxt) \<and> edits_sorted eds \<and> fold apply_edit eds (viewBase nxt) = ?new"
    if "viewEdits nxt = Some eds" for eds
    using that assms(2) readyView_contents [OF assms(1)] snap_sorted [OF assms(1)]
    by (auto simp: nxt_def base_def empty_snapshot_def accepted_def Let_def split: option.splits)
  have cn: "contents nxt = ?new" using nxt(1,2) root(2) by simp
  have "walkable sha nxt" using nxt(1,2) root(1,2) tree_ok_sorted [OF root(1)] by (simp add: walkable_def)
  moreover have "snap_ok sha os nxt" if "hierarchical (contents nxt)"
    using accepted_inventory [OF assms(2)] that cn nxt edits assms(3) by (simp add: snap_ok_def)
  moreover have "treeUpdate ordered sc sz root s =
      bind_res (if scan_structural sc \<or> scan_types sc then validateReplacements nxt (scan_replacements sc) else Inr ()) (\<lambda>_. Inr nxt)"
    unfolding treeUpdate_def Let_def nxt_def base_def ..
  ultimately show ?thesis using publish [OF assms(2), of sha nxt] cn by simp
qed

lemma update_loop_ok:
  assumes "index_ok sha root es" "update_loop sha root eds = Some root'"
  shows "index_ok sha root' (fold apply_edit eds es)"
  using assms
proof (induction eds arbitrary: root es)
  case (Cons ed eds)
  let ?t = "updateNode sha root ed"
  have t: "tree_ok sha ?t" "inorder ?t = apply_edit ed es"
    using updateNode_ok [of sha root ed] Cons.prems(1) by (simp_all add: index_ok_def)
  have "height_of ?t \<le> maxHeight" using Cons.prems(2) by (cases ?t) (auto simp: Let_def height_of_def split: if_splits)
  then show ?case using Cons.IH [of ?t "apply_edit ed es"] Cons.prems(2) t by (simp add: index_ok_def Let_def split: if_splits)
qed simp

lemma replace_index_ok:
  assumes "index_ok sha root es" "path_sorted es" "edits_sorted eds"
    and "\<forall>ed \<in> set eds. \<not> Delete ed \<and> Path (Entry ed) \<in> Path ` set es"
  shows "index_ok sha (replaceNodes sha root eds) (fold apply_edit eds es)"
  using replaceNodes_ok [of sha root eds] fold_apply_overlay [OF assms(2-4)] assms(1,3) by (simp add: index_ok_def)

lemma apply_update_ok:
  assumes "snap_ok sha os s" "accepted os (contents s) ordered sc sz"
    and "apply_update sha gomaxprocs ordered sc sz s = (r, s')"
  shows "snap_ok sha os s' \<and> contents s' = contents s \<and> outcome sha os (fold apply_edit ordered (contents s)) r"
proof (cases "noIndex s \<or> (index s = Leaf \<and> entry_count s < minIndexedEntries \<and> scan_count sc < minIndexedEntries)")
  case True
  then obtain b where "flatUpdate b ordered sc sz s = (r, s')" using assms(3) by (auto simp: apply_update_def split: if_splits)
  then show ?thesis by (rule flatUpdate_ok [OF assms(1,2)])
next
  case False
  obtain q t where tree: "tree sha gomaxprocs s = (q, t)" by fastforce
  note t = tree_result [OF assms(1) tree]
  have noix: "snap_ok sha os (t\<lparr>noIndex := True\<rparr>)" using t snap_ok_caches(2) by blast
  show ?thesis
  proof (cases q)
    case (Inl err)
    then have "flatUpdate True ordered sc sz (t\<lparr>noIndex := True\<rparr>) = (r, s')"
      using assms(3) False tree by (auto simp: apply_update_def)
    from flatUpdate_ok [OF noix _ this] show ?thesis using t assms(2) by simp
  next
    case (Inr root)
    then have root: "index_ok sha root (contents s)" using t by simp
    have eq: "(r, s') = (if \<not> scan_structural sc \<and> length ordered > 1
        then (treeUpdate ordered sc sz (replaceNodes sha root ordered) t, t)
        else case update_loop sha root ordered of
               None \<Rightarrow> flatUpdate True ordered sc sz t
             | Some root' \<Rightarrow> (treeUpdate ordered sc sz root' t, t))"
      using assms(3) False unfolding apply_update_def tree Inr prod.case sum.case by (simp only: de_Morgan_disj if_False simp_thms)
    consider (batch) "\<not> scan_structural sc" "length ordered > 1"
      "r = treeUpdate ordered sc sz (replaceNodes sha root ordered) t" "s' = t"
      | (high) "flatUpdate True ordered sc sz t = (r, s')"
      | (each) root' where "update_loop sha root ordered = Some root'" "r = treeUpdate ordered sc sz root' t" "s' = t"
      using eq by (cases "\<not> scan_structural sc \<and> length ordered > 1"; cases "update_loop sha root ordered") auto
    then show ?thesis
    proof cases
      case batch
      have "index_ok sha (replaceNodes sha root ordered) (fold apply_edit ordered (contents s))"
        using replace_index_ok [OF root snap_sorted [OF assms(1)]] batch(1) assms(2) by (simp add: accepted_def Let_def)
      then show ?thesis using treeUpdate_ok [of sha os t] t batch assms(2) by simp
    next
      case high
      then show ?thesis using flatUpdate_ok [of sha os t] t assms(2) by simp
    next
      case each
      then show ?thesis using update_loop_ok [OF root] treeUpdate_ok [of sha os t] t assms(2) by simp
    qed
  qed
qed


subsection \<open>From the scan to the batch\<close>

lemma entry_at_self:
  assumes "path_sorted es"
  shows "entry_at (apply_edit ed es) (Path (Entry ed)) = (if Delete ed then None else Some (Entry ed))"
proof -
  obtain xs ys where s: "apply_edit ed es = xs @ (if Delete ed then [] else [Entry ed]) @ ys"
    "\<forall>x \<in> set xs. Path x < Path (Entry ed)" "\<forall>y \<in> set ys. Path (Entry ed) < Path y"
    by (rule edit_split [OF assms, of ed])
  have "entry_at xs (Path (Entry ed)) = None" "entry_at ys (Path (Entry ed)) = None"
    using s(2,3) by (auto intro!: find_none)
  then show ?thesis by (simp add: s(1) find_append)
qed

lemma fold_entry_at_other:
  "path_sorted es \<Longrightarrow> \<forall>ed \<in> set eds. Path (Entry ed) \<noteq> p \<Longrightarrow> entry_at (fold apply_edit eds es) p = entry_at es p"
proof (induction eds arbitrary: es)
  case (Cons ed eds)
  have "p \<noteq> Path (Entry ed)" using Cons.prems(2) by auto
  with Cons show ?case by (simp add: apply_edit_sorted entry_at_other)
qed simp

lemma replacements_present:
  "path_sorted es \<Longrightarrow> edits_sorted eds \<Longrightarrow> ed \<in> set eds \<Longrightarrow> \<not> Delete ed \<Longrightarrow>
     Entry ed \<in> set (fold apply_edit eds es)"
proof (induction eds arbitrary: es)
  case (Cons x eds)
  show ?case
  proof (cases "ed = x")
    case True
    have "\<forall>e \<in> set eds. Path (Entry e) \<noteq> Path (Entry x)" using Cons.prems(2) by auto
    then have "entry_at (fold apply_edit eds (apply_edit x es)) (Path (Entry x)) = Some (Entry x)"
      using fold_entry_at_other [OF apply_edit_sorted [OF Cons.prems(1)]] entry_at_self [OF Cons.prems(1), of x] True Cons.prems(4)
      by simp
    then show ?thesis
      using True sorted_find [OF fold_edits_sorted [OF apply_edit_sorted [OF Cons.prems(1)]]] by simp
  next
    case False
    then show ?thesis using Cons by (simp add: apply_edit_sorted)
  qed
qed simp

lemma fold_edits_members:
  "x \<in> set (fold apply_edit eds es) \<Longrightarrow> x \<in> set es \<or> x \<in> set (map Entry (filter (\<lambda>ed. \<not> Delete ed) eds))"
proof (induction eds arbitrary: es)
  case (Cons ed eds)
  then show ?case using apply_edit_members [of x ed es] by (cases "Delete ed") fastforce+
qed simp

lemma overlay_types:
  assumes "path_sorted es" "x \<in> set es"
    and "\<forall>ed \<in> set eds. \<forall>old. entry_at es (Path (Entry ed)) = Some old \<longrightarrow> Type old = Type (Entry ed)"
  shows "Type (overlay eds x) = Type x"
proof -
  have x: "entry_at es (Path x) = Some x" using sorted_find [OF assms(1)] assms(2) by simp
  show ?thesis
  proof (cases "find (\<lambda>ed. Path (Entry ed) = Path x) eds")
    case (Some ed)
    then have "ed \<in> set eds" "Path (Entry ed) = Path x" by (auto simp: find_Some_iff)
    then have "Type x = Type (Entry ed)" using assms(3) x by metis
    then show ?thesis using Some by (simp add: overlay_def)
  qed (simp add: overlay_def)
qed

lemma scan_size_mono:
  assumes "scan_edits s prev eds sc = Inr sc'" "\<And>p old. Lookup s p = Some old \<Longrightarrow> 0 \<le> Size old"
  shows "scan_size sc' \<le> scan_size sc"
  using assms
proof (induction s prev eds sc rule: scan_edits.induct)
  case (2 s prev e es sc)
  have "scan_size (scan_edit s e sc) \<le> scan_size sc"
    using 2(3) by (auto simp: scan_edit_def Let_def split: option.splits)
  then show ?case using 2 by (auto split: if_splits intro: order.trans)
qed simp

lemma add_sizes_Inr:
  assumes "\<forall>e \<in> set es. 0 \<le> Size e" "sz \<le> MaxInt64"
  shows "add_sizes sz es = Inr t \<longleftrightarrow> t = sz + byte_sum es \<and> sz + byte_sum es \<le> MaxInt64"
  using assms
proof (induction sz es rule: add_sizes.induct)
  case (2 sz e es)
  have "0 \<le> byte_sum es" using 2(2) by (induction es) auto
  then show ?case using 2 by (auto simp: algebra_simps)
qed auto

abbreviation first_scan :: "snapshot \<Rightarrow> edit_scan" where
  "first_scan s \<equiv> \<lparr>scan_size = byte_total s, scan_count = entry_count s, scan_changed = False,
     scan_structural = False, scan_types = False, scan_replacements = []\<rparr>"

lemma scan_accepts:
  assumes s: "snap_ok sha os s" and scan: "scan_edits s None ordered (first_scan s) = Inr sc"
    and ed: "safe_edits ordered" "ordered \<noteq> []" and ok: "\<forall>e \<in> set (scan_replacements sc). entry_ok os e"
  defines "new \<equiv> fold apply_edit ordered (contents s)"
  shows "add_sizes (scan_size sc) (scan_replacements sc) = Inr sz \<longleftrightarrow> sz = byte_sum new \<and> byte_sum new \<le> MaxInt64"
    "byte_sum new \<le> MaxInt64 \<Longrightarrow> accepted os (contents s) ordered sc (byte_sum new)"
    "\<not> scan_changed sc \<Longrightarrow> new = contents s"
    "\<forall>e \<in> set new. entry_ok os e" "''.'' \<notin> Path ` set new" "path_sorted new"
    "set (scan_replacements sc) = Entry ` {ed \<in> set ordered. \<not> Delete ed}"
proof -
  let ?es = "contents s" and ?R = "scan_replacements sc"
  have srt: "path_sorted ?es" "edits_sorted ordered" using snap_sorted [OF s] ed by (simp_all add: safe_edits_def)
  have base: "\<forall>e \<in> set ?es. entry_ok os e" "hierarchical ?es" "''.'' \<notin> Path ` set ?es" "byte_sum ?es \<le> MaxInt64"
    using s srt(1) by (simp_all add: snap_ok_def inventory_ok_def manifest_ok_hierarchical)
  have res: "scan_result ?es ordered (first_scan s) sc"
    by (rule scan_edits_result [OF scan srt]) (simp add: snap.lookup_law [OF snap_walkable [OF s]])
  note r = res [unfolded scan_result_def, folded new_def]
  have R: "?R = map Entry (filter (\<lambda>ed. \<not> Delete ed) ordered)" using r by simp
  have counts: "byte_total s = byte_sum ?es" "entry_count s = int (length ?es)" using s by (simp_all add: snap_ok_def)
  have sum: "byte_sum new = scan_size sc + byte_sum ?R" using r [THEN conjunct1] counts(1) by simp
  have len: "scan_count sc = int (length new)" using r [THEN conjunct2, THEN conjunct1] counts(2) by simp
  have le: "scan_size sc \<le> MaxInt64"
  proof -
    have "scan_size sc \<le> scan_size (first_scan s)"
      by (rule scan_size_mono [OF scan]) (use base(1) entry_size snap.lookup_Some [OF snap_walkable [OF s]] in blast)
    then show ?thesis using base(4) s by (simp add: snap_ok_def)
  qed
  show "add_sizes (scan_size sc) ?R = Inr sz \<longleftrightarrow> sz = byte_sum new \<and> byte_sum new \<le> MaxInt64"
    using add_sizes_Inr [of ?R "scan_size sc" sz] le sum ok entry_size by auto
  show "new = ?es" if "\<not> scan_changed sc" using r that by simp
  have sub: "set new \<subseteq> set ?es \<union> set ?R" using fold_edits_members unfolding new_def R by blast
  have sup: "set ?R \<subseteq> set new" using replacements_present [OF srt] unfolding new_def R by auto
  show all: "\<forall>e \<in> set new. entry_ok os e" using sub base(1) ok by blast
  have "Path e \<noteq> ''.''" if "e \<in> set ?R" for e using that ed(1) unfolding R by (auto simp: safe_edits_def unsafe_edit_def)
  then show nodot: "''.'' \<notin> Path ` set new" using sub base(3) by (fastforce simp: image_iff)
  show sorted: "path_sorted new" unfolding new_def by (rule fold_edits_sorted [OF srt(1)])
  show "set ?R = Entry ` {ed \<in> set ordered. \<not> Delete ed}" unfolding R by auto
  have rel: "rel_path (Path e)" if "e \<in> set new" for e
    using entry_rel_path all nodot that by (metis imageI)
  have check: "is_ok (validateReplacements nxt ?R) = hierarchical new" if "walkable sha' nxt" "contents nxt = new" for sha' nxt
  proof -
    have "is_ok (validateReplacements nxt ?R) \<longleftrightarrow> (\<forall>e \<in> set ?R. is_ok (validate_replacement nxt e))"
      by (simp add: validateReplacements_def)
    also have "\<dots> \<longleftrightarrow> hierarchical new"
      unfolding hierarchy_of_replacements [OF base(2) sub sup]
      by (rule ball_cong [OF refl], subst validate_replacement_iff [OF that(1)]) (use that(2) rel sup in auto)
    finally show ?thesis .
  qed
  have present: "\<not> scan_structural sc \<longrightarrow> (\<forall>ed \<in> set ordered. \<not> Delete ed \<and> Path (Entry ed) \<in> Path ` set ?es)" using r by blast
  have same: "hierarchical new" if "\<not> scan_structural sc" "\<not> scan_types sc"
  proof -
    have "new = map (overlay ordered) ?es" unfolding new_def by (rule fold_apply_overlay [OF srt]) (use present that(1) in blast)
    moreover have "\<forall>x \<in> set ?es. Type (overlay ordered x) = Type x" using overlay_types [OF srt(1)] r that(2) by blast
    ultimately show ?thesis using hierarchy_of_overlay [OF base(2)] by simp
  qed
  show "accepted os ?es ordered sc (byte_sum new)" if "byte_sum new \<le> MaxInt64"
    unfolding accepted_def Let_def new_def [symmetric]
    using srt(2) ed(2) sorted all nodot that len present same check by blast
qed


subsection \<open>Update\<close>

lemma ValidateEntry_ok: "is_ok (ValidateEntry os e) \<longleftrightarrow> entry_ok os e"
  unfolding ValidateEntry_def entry_ok_def is_ok_seq ..

lemma sort_edits_sorted:
  "edits_sorted (sort_edits eds) \<longleftrightarrow> distinct (map (\<lambda>ed. Path (Entry ed)) eds)"
  by (simp add: strict_sorted_iff distinct_map)

lemma scan_start_ok:
  "is_ok (scan_edits s None (sort_edits eds) sc) \<longleftrightarrow> safe_edits (sort_edits eds)"
  using scan_edits_ok [of "sort_edits eds" None s sc] by simp

lemma Update_spec:
  assumes s: "snap_ok sha os s" and u: "Update sha os gomaxprocs eds s = (r, s')"
  shows "snap_ok sha os s' \<and> contents s' = contents s \<and>
     (if edits_ok os eds \<and> inventory_ok os (updated eds (contents s))
      then \<exists>t. r = Inr t \<and> snap_ok sha os t \<and> contents t = updated eds (contents s)
      else \<not> is_ok r)"
proof (cases "eds = []")
  case True
  have "inventory_ok os (contents s)" using s by (simp add: snap_ok_def)
  then show ?thesis using True s u by (auto simp: Update_def updated_def edits_ok_def)
next
  case False
  define ordered where "ordered = sort_edits eds"
  define new where "new = fold apply_edit ordered (contents s)"
  have upd: "updated eds (contents s) = new" by (simp add: updated_def new_def ordered_def)
  have ne: "ordered \<noteq> []" using False by (auto simp: ordered_def dest: arg_cong [where f = set])
  have safe: "safe_edits ordered \<longleftrightarrow> distinct (map (\<lambda>ed. Path (Entry ed)) eds) \<and> (\<forall>ed \<in> set eds. \<not> unsafe_edit (Path (Entry ed)))"
    by (auto simp: safe_edits_def ordered_def sort_edits_sorted)
  note unfold = u [unfolded Update_def Let_def if_not_P [OF False] ordered_def [symmetric]]
  show ?thesis
  proof (cases "scan_edits s None ordered (first_scan s)")
    case (Inl err)
    then have "\<not> safe_edits ordered" using scan_start_ok [of s eds "first_scan s"] by (simp add: ordered_def)
    then show ?thesis using unfold Inl s safe by (auto simp: edits_ok_def)
  next
    case (Inr sc)
    then have ok: "safe_edits ordered" using scan_start_ok [of s eds "first_scan s"] by (simp add: ordered_def)
    have R: "set (scan_replacements sc) = Entry ` {ed \<in> set ordered. \<not> Delete ed}"
      using scan_edits_result [OF Inr snap_sorted [OF s]] ok snap.lookup_law [OF snap_walkable [OF s]]
      by (auto simp: scan_result_def safe_edits_def)
    have entries: "(\<forall>e \<in> set (scan_replacements sc). entry_ok os e) \<longleftrightarrow> (\<forall>ed \<in> set eds. Delete ed \<or> entry_ok os (Entry ed))"
      unfolding R by (auto simp: ordered_def)
    show ?thesis
    proof (cases "each_ok (\<lambda>e. lift_archive (ValidateEntry os e)) (scan_replacements sc)")
      case err: (Inl err)
      then have "\<not> is_ok (each_ok (\<lambda>e. lift_archive (ValidateEntry os e)) (scan_replacements sc))" by simp
      then have "\<not> edits_ok os eds" using entries by (auto simp: ValidateEntry_ok edits_ok_def)
      then show ?thesis using unfold Inr err s by auto
    next
      case valid: (Inr x)
      then have "is_ok (each_ok (\<lambda>e. lift_archive (ValidateEntry os e)) (scan_replacements sc))" by simp
      then have all: "\<forall>e \<in> set (scan_replacements sc). entry_ok os e" by (simp add: ValidateEntry_ok)
      have eok: "edits_ok os eds" using all entries ok safe by (auto simp: edits_ok_def)
      note acc = scan_accepts [OF s Inr ok ne all, folded new_def]
      have inv: "inventory_ok os new \<longleftrightarrow> hierarchical new \<and> byte_sum new \<le> MaxInt64"
        using acc(4-6) by (auto simp: inventory_ok_def manifest_ok_hierarchical)
      consider (same) "\<not> scan_changed sc" "r = Inr s" "s' = s"
        | (big) err where "scan_changed sc" "add_sizes (scan_size sc) (scan_replacements sc) = Inl err" "r = Inl err" "s' = s"
        | (go) sz where "add_sizes (scan_size sc) (scan_replacements sc) = Inr sz"
          "apply_update sha gomaxprocs ordered sc sz s = (r, s')"
      proof (cases "scan_changed sc")
        case False
        have "(Inr s, s) = (r, s')" using unfold [unfolded Inr sum.case valid] unfolding if_P [OF False] .
        then show thesis by (intro same [OF False]) auto
      next
        case True
        note step = unfold [unfolded Inr sum.case valid]
        show thesis
        proof (cases "add_sizes (scan_size sc) (scan_replacements sc)")
          case (Inl err)
          show thesis by (rule big [OF True Inl]) (use step True Inl in simp_all)
        next
          case (Inr sz)
          show thesis by (rule go [OF Inr]) (use step True Inr in simp)
        qed
      qed
      then show ?thesis
      proof cases
        case same
        have "inventory_ok os (contents s)" using s by (simp add: snap_ok_def)
        then show ?thesis using same acc(3) s eok upd by auto
      next
        case big
        then have "\<not> byte_sum new \<le> MaxInt64" using acc(1) [of "byte_sum new"] by auto
        then show ?thesis using big s upd inv by auto
      next
        case go
        then have sz: "sz = byte_sum new" "byte_sum new \<le> MaxInt64" using acc(1) by simp_all
        have "accepted os (contents s) ordered sc sz" unfolding sz(1) by (rule acc(2) [OF sz(2)])
        from apply_update_ok [OF s this go(2), folded new_def]
        have "snap_ok sha os s' \<and> contents s' = contents s \<and> outcome sha os new r" .
        then show ?thesis using eok inv \<open>byte_sum new \<le> MaxInt64\<close> unfolding outcome_def upd by presburger
      qed
    qed
  qed
qed

end
