(* ===== verification/Index_Checkpoint.thy ===== *)
theory Index_Checkpoint
  imports Snapshot_Update
begin

text \<open>
  \<open>internal/manifest/index_checkpoint.go\<close>: an index written as a postorder list of records and
  read back. A restored index is checked record by record; whatever the image says, a snapshot
  that comes out of \<open>RestoreIndex\<close> satisfies the invariant of snapshots, and the image of a
  snapshot restores its index.
\<close>

subsection \<open>Images\<close>

record IndexRecord =
  rec_Entry :: int
  rec_Left :: int
  rec_Right :: int
  rec_Content :: bytes
  rec_Digest :: bytes

record IndexImage =
  Version :: int
  Fallback :: bool
  Nodes :: "IndexRecord list"

datatype restore_error =
    UnsupportedCheckpoint
  | InvalidManifest snapshot_error
  | MissingNodes
  | InvalidSize
  | InvalidEntry
  | InvalidTopology
  | InvalidPriority
  | InvalidLeftRange
  | InvalidRightRange
  | InvalidHashOrHeight
  | Disconnected

fun checkpoint_visit :: "node \<Rightarrow> int \<Rightarrow> IndexRecord list \<Rightarrow> int \<times> IndexRecord list" where
  "checkpoint_visit Leaf offset nodes = (-1, nodes)"
| "checkpoint_visit (Node e p c d l r k h) offset nodes =
     (let position = offset + int (count_of l);
          (left, nodes) = checkpoint_visit l offset nodes;
          (right, nodes) = checkpoint_visit r (position + 1) nodes;
          nodes = nodes @ [\<lparr>rec_Entry = position, rec_Left = left, rec_Right = right, rec_Content = c, rec_Digest = d\<rparr>]
      in (int (length nodes) - 1, nodes))"

definition CheckpointIndex :: "(bytes \<Rightarrow> bytes) \<Rightarrow> nat \<Rightarrow> snapshot \<Rightarrow> IndexImage \<times> snapshot" where
  "CheckpointIndex sha gomaxprocs s =
     (let s' = PrepareUpdates sha gomaxprocs s
      in (\<lparr>Version = 1, Fallback = noIndex s',
           Nodes = (if index s' = Leaf then [] else snd (checkpoint_visit (index s') 0 []))\<rparr>, s'))"

text \<open>The arrays of the restore loop; \<open>low\<close> and \<open>high\<close> are filled up to the current record.\<close>

record restore_state =
  built :: "node list"
  used :: "nat list"
  low :: "int list"
  high :: "int list"

text \<open>One child of the record being restored: \<open>n\<close> is its node so far, \<open>lo\<close> and \<open>hi\<close> its range.\<close>

definition restore_child ::
  "bool \<Rightarrow> int \<Rightarrow> int \<Rightarrow> restore_state \<Rightarrow> node \<times> int \<times> int \<Rightarrow> restore_error + (restore_state \<times> node \<times> int \<times> int)" where
  "restore_child is_left entry child st n_range =
     (case n_range of (n, lo, hi) \<Rightarrow>
        if child = -1 then Inr (st, n, lo, hi)
        else if child < 0 \<or> child \<ge> int (length (built st)) \<or> nat child \<in> set (used st) then Inl InvalidTopology
        else
          let c = nat child; st' = st\<lparr>used := c # used st\<rparr>
          in if higher (built st ! c) n then Inl InvalidPriority
             else if is_left then
               if high st ! c \<noteq> entry - 1 then Inl InvalidLeftRange
               else Inr (st', set_left n (built st ! c), low st ! c, hi)
             else
               if low st ! c \<noteq> entry + 1 then Inl InvalidRightRange
               else Inr (st', set_right n (built st ! c), lo, high st ! c))"

definition restore_record ::
  "(bytes \<Rightarrow> bytes) \<Rightarrow> manifest_entry list \<Rightarrow> IndexRecord \<Rightarrow> restore_state \<Rightarrow> restore_error + restore_state" where
  "restore_record sha es record st =
     (if rec_Entry record < 0 \<or> rec_Entry record \<ge> int (length es) then Inl InvalidEntry
      else
        let e = es ! nat (rec_Entry record);
            n = Node e (sha (Path e)) (entryDigest sha e) zero_digest Leaf Leaf 0 0
        in bind_res (restore_child True (rec_Entry record) (rec_Left record) st (n, rec_Entry record, rec_Entry record))
             (\<lambda>(st1, n_range). bind_res (restore_child False (rec_Entry record) (rec_Right record) st1 n_range)
             (\<lambda>(st2, n2, lo, hi).
                let n3 = rehash sha n2
                in if nheight n3 > maxHeight \<or> ncontent n3 \<noteq> rec_Content record \<or> ndigest n3 \<noteq> rec_Digest record
                   then Inl InvalidHashOrHeight
                   else Inr (st2\<lparr>built := built st2 @ [n3], low := low st2 @ [lo], high := high st2 @ [hi]\<rparr>))))"

fun restore_records ::
  "(bytes \<Rightarrow> bytes) \<Rightarrow> manifest_entry list \<Rightarrow> IndexRecord list \<Rightarrow> restore_state \<Rightarrow> restore_error + restore_state" where
  "restore_records sha es [] st = Inr st"
| "restore_records sha es (record # records) st =
     bind_res (restore_record sha es record st) (restore_records sha es records)"

definition restore_start :: restore_state where
  "restore_start = \<lparr>built = [], used = [], low = [], high = []\<rparr>"

definition RestoreIndex :: "(bytes \<Rightarrow> bytes) \<Rightarrow> platform \<Rightarrow> manifest \<Rightarrow> IndexImage \<Rightarrow> restore_error + snapshot" where
  "RestoreIndex sha os m img =
     (if Version img \<noteq> 1 then Inl UnsupportedCheckpoint
      else case New os m of
        Inl err \<Rightarrow> Inl (InvalidManifest err)
      | Inr s \<Rightarrow>
          if Nodes img = [] then
            if int (length (slice (Entries m))) \<ge> minIndexedEntries \<and> \<not> Fallback img then Inl MissingNodes
            else Inr (s\<lparr>noIndex := Fallback img\<rparr>)
          else if Fallback img \<or> int (length (Nodes img)) \<noteq> entry_count s then Inl InvalidSize
          else
            bind_res (restore_records sha (slice (entries s)) (Nodes img) restore_start) (\<lambda>st.
              let final = nat (entry_count s - 1)
              in if int (count_of (built st ! final)) \<noteq> entry_count s \<or> low st ! final \<noteq> 0 \<or>
                    high st ! final \<noteq> entry_count s - 1
                 then Inl Disconnected
                 else Inr (s\<lparr>index := built st ! final\<rparr>)))"

subsection \<open>Every restored index is sound\<close>

definition segment :: "manifest_entry list \<Rightarrow> int \<Rightarrow> int \<Rightarrow> manifest_entry list" where
  "segment es lo hi = take (nat (hi - lo + 1)) (drop (nat lo) es)"

definition part_ok :: "(bytes \<Rightarrow> bytes) \<Rightarrow> manifest_entry list \<Rightarrow> node \<Rightarrow> int \<Rightarrow> int \<Rightarrow> bool" where
  "part_ok sha es n lo hi \<longleftrightarrow>
     0 \<le> lo \<and> lo \<le> hi \<and> hi < int (length es) \<and> n \<noteq> Leaf \<and> index_ok sha n (segment es lo hi)"

definition restored :: "(bytes \<Rightarrow> bytes) \<Rightarrow> manifest_entry list \<Rightarrow> restore_state \<Rightarrow> bool" where
  "restored sha es st \<longleftrightarrow> length (low st) = length (built st) \<and> length (high st) = length (built st) \<and>
     (\<forall>i < length (built st). part_ok sha es (built st ! i) (low st ! i) (high st ! i))"

lemma segment_join:
  assumes "0 \<le> lo" "lo \<le> i" "i \<le> hi" "hi < int (length es)"
  shows "segment es lo (i - 1) @ es ! nat i # segment es (i + 1) hi = segment es lo hi"
proof -
  obtain a b c where abc: "lo = int a" "i = int b" "hi = int c" using assms(1-3) by (metis nonneg_int_cases order.trans)
  have le: "a \<le> b" "b \<le> c" "c < length es" using assms by (auto simp: abc)
  have "nat (int b - 1 - int a + 1) = b - a" "nat (int c - (int b + 1) + 1) = c - b" "nat (int c - int a + 1) = Suc c - a"
    "nat (int b + 1) = Suc b" using le by arith+
  then have seg: "segment es lo (i - 1) = take (b - a) (drop a es)" "segment es (i + 1) hi = take (c - b) (drop (Suc b) es)"
    "segment es lo hi = take (Suc c - a) (drop a es)"
    by (simp_all add: segment_def abc)
  have "take (Suc c - a) (drop a es) = take (b - a) (drop a es) @ take (Suc c - b) (drop b es)"
    using le take_add [of "b - a" "Suc c - b" "drop a es"] by simp
  also have "take (Suc c - b) (drop b es) = es ! b # take (c - b) (drop (Suc b) es)"
    using le by (simp add: Cons_nth_drop_Suc [symmetric] Suc_diff_le)
  finally show ?thesis using seg by (simp add: abc)
qed

text \<open>A child in range whose root is not above the new entry fits under it.\<close>

lemma child_below:
  assumes "part_ok sha es n lo hi" "path_sorted es" "\<not> higher n (Node e (sha (Path e)) c d Leaf Leaf k h)"
    and "e \<notin> set (inorder n)" "e \<in> set es"
  shows "\<forall>x \<in> set (inorder n). prio sha e < prio sha x"
proof -
  have ok: "tree_ok sha n" "inorder n = segment es lo hi" "n \<noteq> Leaf" using assms(1) by (simp_all add: part_ok_def index_ok_def)
  have wf: "wf_node sha n" using ok(1) by (simp add: tree_ok_def)
  then obtain l f r where n: "n = mk sha l f r" using ok(3) by (auto elim: wf_cases)
  have "f \<in> set es" using ok(2) n by (metis in_set_conv_decomp in_set_dropD in_set_takeD mk_sel(7) segment_def)
  moreover have "f \<noteq> e" using assms(4) n by auto
  ultimately have "Path f \<noteq> Path e"
    using assms(2,5) by (auto simp: strict_sorted_iff distinct_map dest: inj_onD)
  moreover have "\<not> prio sha f < prio sha e" using assms(3) n by (auto simp: higher_def prio_def mk_def)
  ultimately have "prio sha e < prio sha f" by (auto simp: prio_def)
  then show ?thesis using root_above [OF ok(1) [unfolded n]] n by (meson less_le_trans)
qed

lemma segment_order:
  assumes "path_sorted es" "0 \<le> i" "i < int (length es)"
  shows "x \<in> set (segment es lo (i - 1)) \<Longrightarrow> 0 \<le> lo \<Longrightarrow> Path x < Path (es ! nat i)"
    "x \<in> set (segment es (i + 1) hi) \<Longrightarrow> Path (es ! nat i) < Path x"
proof -
  have less: "Path (es ! a) < Path (es ! b)" if "a < b" "b < length es" for a b
    using assms(1) that by (simp add: sorted_wrt_iff_nth_less)
  show "Path x < Path (es ! nat i)" if "x \<in> set (segment es lo (i - 1))" "0 \<le> lo"
    using that less [of _ "nat i"] assms(2,3) by (auto simp: segment_def in_set_conv_nth)
  show "Path (es ! nat i) < Path x" if "x \<in> set (segment es (i + 1) hi)"
    using that less [of "nat i"] assms(2,3) by (auto simp: segment_def in_set_conv_nth)
qed

abbreviation fresh :: "(bytes \<Rightarrow> bytes) \<Rightarrow> manifest_entry \<Rightarrow> node \<Rightarrow> node \<Rightarrow> node" where
  "fresh sha e l r \<equiv> Node e (sha (Path e)) (entryDigest sha e) zero_digest l r 0 0"

text \<open>What the loop knows of a subtree over the positions from \<open>lo\<close> to \<open>hi\<close>, possibly none.\<close>

definition side_ok :: "(bytes \<Rightarrow> bytes) \<Rightarrow> manifest_entry list \<Rightarrow> manifest_entry \<Rightarrow> node \<Rightarrow> int \<Rightarrow> int \<Rightarrow> bool" where
  "side_ok sha es e n lo hi \<longleftrightarrow>
     (if n = Leaf then lo = hi + 1 else part_ok sha es n lo hi \<and> \<not> higher n (fresh sha e Leaf Leaf))"

lemma higher_fresh: "higher n (fresh sha e l r) = higher n (fresh sha e Leaf Leaf)"
  by (simp add: higher_def)

lemma restore_child_ok:
  assumes "restored sha es st" "restore_child is_left i child st (fresh sha e l r, lo, hi) = Inr (st', n', lo', hi')"
  shows "restored sha es st' \<and> built st' = built st \<and> low st' = low st \<and> high st' = high st \<and>
     (if is_left then hi' = hi \<and> (n' = fresh sha e l r \<and> lo' = lo \<or>
          (\<exists>l'. n' = fresh sha e l' r \<and> l' \<noteq> Leaf \<and> side_ok sha es e l' lo' (i - 1)))
      else lo' = lo \<and> (n' = fresh sha e l r \<and> hi' = hi \<or>
          (\<exists>r'. n' = fresh sha e l r' \<and> r' \<noteq> Leaf \<and> side_ok sha es e r' (i + 1) hi')))"
proof (cases "child = -1")
  case True
  then show ?thesis using assms by (auto simp: restore_child_def)
next
  case False
  let ?c = "nat child"
  have c: "0 \<le> child" "?c < length (built st)" "\<not> higher (built st ! ?c) (fresh sha e l r)" "st' = st\<lparr>used := ?c # used st\<rparr>"
    using assms(2) False by (auto simp: restore_child_def Let_def split: if_splits)
  have part: "part_ok sha es (built st ! ?c) (low st ! ?c) (high st ! ?c)" using assms(1) c(2) by (simp add: restored_def)
  then have ne: "built st ! ?c \<noteq> Leaf" by (simp add: part_ok_def)
  have side: "side_ok sha es e (built st ! ?c) (low st ! ?c) (high st ! ?c)"
    using part ne c(3) higher_fresh [of "built st ! ?c" e sha l r] by (simp add: side_ok_def)
  have keep: "restored sha es st'" "built st' = built st" "low st' = low st" "high st' = high st"
    using assms(1) c(4) by (simp_all add: restored_def)
  show ?thesis
    using assms(2) False c ne side keep
    by (auto simp: restore_child_def Let_def set_left_def set_right_def split: if_splits)
qed

lemma side_below:
  assumes "side_ok sha es e n lo hi" "path_sorted es" "e \<in> set es" "e \<notin> set (segment es lo hi)" "0 \<le> hi + 1"
  shows "tree_ok sha n" "inorder n = segment es lo hi" "\<forall>x \<in> set (inorder n). prio sha e < prio sha x"
proof -
  show "tree_ok sha n" using assms(1) by (auto simp: side_ok_def part_ok_def index_ok_def split: if_splits)
  show io: "inorder n = segment es lo hi"
    using assms(1,5) by (auto simp: side_ok_def part_ok_def index_ok_def segment_def split: if_splits)
  show "\<forall>x \<in> set (inorder n). prio sha e < prio sha x"
  proof (cases "n = Leaf")
    case False
    then have part: "part_ok sha es n lo hi" "\<not> higher n (fresh sha e Leaf Leaf)" using assms(1) by (simp_all add: side_ok_def)
    show ?thesis by (rule child_below [OF part(1) assms(2) part(2)]) (use assms io in simp_all)
  qed simp
qed

lemma restore_record_ok:
  assumes "restored sha es st" "path_sorted es" "restore_record sha es record st = Inr st'"
  shows "restored sha es st'"
proof -
  define i where "i = rec_Entry record"
  define e where "e = es ! nat i"
  obtain st1 n1 lo1 hi1 st2 n2 lo hi where i: "0 \<le> i" "i < int (length es)"
    and left: "restore_child True i (rec_Left record) st (fresh sha e Leaf Leaf, i, i) = Inr (st1, n1, lo1, hi1)"
    and right: "restore_child False i (rec_Right record) st1 (n1, lo1, hi1) = Inr (st2, n2, lo, hi)"
    and fin: "nheight (rehash sha n2) \<le> maxHeight"
      "st' = st2\<lparr>built := built st2 @ [rehash sha n2], low := low st2 @ [lo], high := high st2 @ [hi]\<rparr>"
    using assms(3) by (auto simp: restore_record_def Let_def bind_res_Inr_iff i_def e_def not_less split: if_splits simp del: rehash.simps)
  note L = restore_child_ok [OF assms(1) left]
  obtain l where l: "n1 = fresh sha e l Leaf" "hi1 = i" "side_ok sha es e l lo1 (i - 1)"
  proof (cases "n1 = fresh sha e Leaf Leaf")
    case True
    then show thesis using that [of Leaf] L by (auto simp: side_ok_def)
  qed (use that L in auto)
  have st1: "restored sha es st1" using L by simp
  note R = restore_child_ok [OF st1 right [unfolded l(1)]]
  obtain r where r: "n2 = fresh sha e l r" "lo = lo1" "side_ok sha es e r (i + 1) hi"
  proof (cases "n2 = fresh sha e l Leaf")
    case True
    then show thesis using that [of Leaf] R l(2) by (auto simp: side_ok_def)
  qed (use that R in auto)
  have n: "rehash sha n2 = mk sha l e r" unfolding r(1) by (rule rehash_mk)
  have e: "e \<in> set es" using i by (simp add: e_def)
  have lo: "0 \<le> lo" "lo \<le> i" and hi: "i \<le> hi" "hi < int (length es)"
    using l(3) r(2,3) i by (auto simp: side_ok_def part_ok_def split: if_splits)
  note order = segment_order [OF assms(2) i, folded e_def]
  have out: "e \<notin> set (segment es lo (i - 1))" "e \<notin> set (segment es (i + 1) hi)"
    using order [of e] lo(1) by auto
  have i1: "0 \<le> i - 1 + 1" "0 \<le> hi + 1" using i hi by simp_all
  note lt = side_below [OF l(3) [folded r(2)] assms(2) e out(1) i1(1)]
  note rt = side_below [OF r(3) assms(2) e out(2) i1(2)]
  have "tree_ok sha (mk sha l e r)"
    using lt rt order lo(1) by (auto simp: tree_ok_mk)
  moreover have "inorder (mk sha l e r) = segment es lo hi"
    using segment_join [OF lo hi] lt(2) rt(2) by (simp add: e_def)
  moreover have "height_of (mk sha l e r) \<le> maxHeight" using fin(1) n by (simp add: mk_def height_of_def)
  ultimately have "part_ok sha es (mk sha l e r) lo hi"
    using lo hi by (simp add: part_ok_def index_ok_def)
  then show ?thesis
    using R fin(2) n by (auto simp: restored_def nth_append less_Suc_eq)
qed

lemma restore_records_ok:
  "restored sha es st \<Longrightarrow> path_sorted es \<Longrightarrow> restore_records sha es records st = Inr st' \<Longrightarrow>
     restored sha es st' \<and> length (built st') = length (built st) + length records"
proof (induction records arbitrary: st)
  case (Cons rc records)
  then obtain st1 where s: "restore_record sha es rc st = Inr st1" "restore_records sha es records st1 = Inr st'"
    by (auto simp: bind_res_Inr_iff)
  have "restored sha es st1" by (rule restore_record_ok [OF Cons.prems(1,2) s(1)])
  moreover have "length (built st1) = Suc (length (built st))"
    using s(1) by (auto simp: restore_record_def restore_child_def Let_def bind_res_Inr_iff split: if_splits simp del: rehash.simps)
  ultimately show ?case using Cons s(2) by simp
qed simp

lemma RestoreIndex_ok:
  assumes "RestoreIndex sha os m img = Inr s"
  shows "snap_ok sha os s \<and> contents s = slice (Entries m) \<and> wireRoot s = ''''"
proof -
  obtain s0 where s0: "New os m = Inr s0" using assms by (auto simp: RestoreIndex_def split: if_splits sum.splits)
  have ok0: "snap_ok sha os s0" "contents s0 = slice (Entries m)" using New_snap_ok [OF s0] by simp_all
  have es: "entries s0 = Entries m" "entry_count s0 = int (length (slice (Entries m)))" "wireRoot s0 = ''''"
    using s0 by (auto simp: New_ok empty_snapshot_def)
  show ?thesis
  proof (cases "Nodes img = []")
    case True
    then have "s = s0\<lparr>noIndex := Fallback img\<rparr>" using assms s0 by (auto simp: RestoreIndex_def split: if_splits)
    then show ?thesis using ok0 snap_ok_caches(2) es(3) by simp
  next
    case False
    let ?es = "slice (Entries m)" and ?k = "nat (entry_count s0 - 1)"
    obtain st where st: "restore_records sha ?es (Nodes img) restore_start = Inr st"
      and fin: "low st ! ?k = 0" "high st ! ?k = entry_count s0 - 1" "s = s0\<lparr>index := built st ! ?k\<rparr>"
      and len: "length (Nodes img) = length ?es"
      using assms s0 False es by (auto simp: RestoreIndex_def bind_res_Inr_iff Let_def split: if_splits)
    have sorted: "path_sorted ?es" using snap_sorted [OF ok0(1)] ok0(2) by simp
    have "restored sha ?es restore_start" by (simp add: restored_def restore_start_def)
    from restore_records_ok [OF this sorted st]
    have r: "restored sha ?es st" "length (built st) = length ?es" using len by (simp_all add: restore_start_def)
    have k: "?k < length ?es" using False len es(2) by (cases ?es) auto
    then have "part_ok sha ?es (built st ! ?k) 0 (int (length ?es) - 1)"
      using r fin(1,2) es(2) by (auto simp: restored_def)
    then have "index_ok sha (built st ! ?k) ?es" by (simp add: part_ok_def segment_def)
    moreover have "entries s0 \<noteq> None" using es(1) k by (cases "Entries m") auto
    ultimately show ?thesis using snap_ok_caches(4) [OF ok0(1)] ok0(2) fin(3) es(3) by simp
  qed
qed

end
