(* ===== verification/Snapshot_Laws.thy ===== *)
theory Snapshot_Laws
  imports Index_Checkpoint
begin

text \<open>
  Histories of snapshots: everything a client can do with the package \<open>internal/manifest\<close>,
  against the same history on sorted lists. The theorems of the package rest on the
  simulation proved here.
\<close>

subsection \<open>Differences\<close>

lemma diff_entries_sorted:
  "path_sorted xs \<Longrightarrow> path_sorted ys \<Longrightarrow> edits_sorted (diff_entries xs ys)"
proof (induction xs ys rule: diff_entries.induct)
  case (4 x xs y ys)
  consider (lt) "Path x < Path y" | (gt) "Path y < Path x" "\<not> Path x < Path y" | (eq) "Path x = Path y" by force
  then show ?case
  proof cases
    case lt
    have "\<forall>ed \<in> set (diff_entries xs (y # ys)). Path x < Path (Entry ed)"
      using diff_entries_paths [of _ xs "y # ys"] 4(4,5) lt by fastforce
    then show ?thesis using 4 lt by simp
  next
    case gt
    have "\<forall>ed \<in> set (diff_entries (x # xs) ys). Path y < Path (Entry ed)"
      using diff_entries_paths [of _ "x # xs" ys] 4(4,5) gt by fastforce
    then show ?thesis using 4 gt by simp
  next
    case eq
    have "\<forall>ed \<in> set (diff_entries xs ys). Path y < Path (Entry ed)"
      using diff_entries_paths [of _ xs ys] 4(4,5) eq by fastforce
    then show ?thesis using 4 eq by simp
  qed
next
  case (2 x xs)
  have "\<forall>ed \<in> set (diff_entries xs []). Path x < Path (Entry ed)" using diff_entries_paths [of _ xs "[]"] 2(2) by fastforce
  then show ?case using 2 by simp
next
  case (3 y ys)
  have "\<forall>ed \<in> set (diff_entries [] ys). Path y < Path (Entry ed)" using diff_entries_paths [of _ "[]" ys] 3(3) by fastforce
  then show ?case using 3 by simp
qed simp

lemma diff_entries_members:
  "ed \<in> set (diff_entries xs ys) \<Longrightarrow> (if Delete ed then Entry ed \<in> set xs else Entry ed \<in> set ys)"
  by (induction xs ys rule: diff_entries.induct) (auto split: if_splits)

lemma entry_safe: "entry_ok os e \<Longrightarrow> Path e \<noteq> ''.'' \<Longrightarrow> \<not> unsafe_edit (Path e)"
  by (auto simp: entry_ok_def checkRelPath_def unsafe_edit_def IsClean_fixed split: if_splits)

lemma diff_edits_ok:
  assumes "inventory_ok os xs" "inventory_ok os ys"
  shows "edits_ok os (diff_entries xs ys)" "updated (diff_entries xs ys) xs = ys"
proof -
  have sorted: "path_sorted xs" "path_sorted ys" using assms by (simp_all add: inventory_ok_def)
  note es = diff_entries_sorted [OF sorted]
  have ok: "entry_ok os e \<and> Path e \<noteq> ''.''" if "e \<in> set xs \<union> set ys" for e
    using that assms by (auto simp: inventory_ok_def manifest_ok_def image_iff)
  have "\<not> unsafe_edit (Path (Entry ed)) \<and> (Delete ed \<or> entry_ok os (Entry ed))" if "ed \<in> set (diff_entries xs ys)" for ed
    using diff_entries_members [OF that] ok [of "Entry ed"] entry_safe by (auto split: if_splits)
  then show "edits_ok os (diff_entries xs ys)" using es by (simp add: edits_ok_def strict_sorted_iff)
  have "sorted (map (\<lambda>ed. Path (Entry ed)) (diff_entries xs ys))" using es by (simp add: strict_sorted_iff)
  then have "sort_edits (diff_entries xs ys) = diff_entries xs ys" by (rule sort_key_id_if_sorted)
  then show "updated (diff_entries xs ys) xs = ys" using apply_diff [OF sorted] by (simp add: updated_def)
qed

lemma snap_tree:
  assumes "snap_ok sha os s" "index s \<noteq> Leaf \<or> entries s = None"
  shows "tree_ok sha (index s) \<and> inorder (index s) = contents s"
proof (cases "entries s")
  case None
  then show ?thesis using snap_index [OF assms(1)] by simp
next
  case (Some es)
  then show ?thesis using assms by (simp add: snap_ok_def index_ok_def)
qed

lemma Diff_spec:
  assumes "snap_ok sha os s" "snap_ok sha os t" "collision_free sha (set (contents s) \<union> set (contents t))"
    and "Diff sha s t = (eds, s', t')"
  shows "eds = diff_entries (contents s) (contents t) \<and> snap_ok sha os s' \<and> contents s' = contents s \<and>
     snap_ok sha os t' \<and> contents t' = contents t"
proof -
  let ?read = "\<lambda>u. case entries u of Some es \<Rightarrow> (\<lparr>Entries = Some es\<rparr>, u) | None \<Rightarrow> materialized u"
  have read: "slice (Entries m) = contents u \<and> snap_ok sha os u' \<and> contents u' = contents u"
    if "?read u = (m, u')" "snap_ok sha os u" for u m u'
    using that materialized_ok [OF that(2)] by (auto split: option.splits)
  let ?trees = "(index s \<noteq> Leaf \<and> index t \<noteq> Leaf) \<or> (entries s = None \<and> entries t = None)"
  consider (same) "s = t" | (trees) "s \<noteq> t" ?trees | (lists) "s \<noteq> t" "\<not> ?trees" by blast
  then show ?thesis
  proof cases
    case same
    have "([], s, t) = (eds, s', t')" using assms(4) unfolding Diff_def if_P [OF same] .
    then have "eds = []" "s' = s" "t' = t" by simp_all
    then show ?thesis using assms(1,2) unfolding same by simp
  next
    case trees
    have "index s \<noteq> Leaf \<or> entries s = None" "index t \<noteq> Leaf \<or> entries t = None" using trees(2) by auto
    then have ok: "tree_ok sha (index s)" "tree_ok sha (index t)" "inorder (index s) = contents s" "inorder (index t) = contents t"
      using snap_tree [OF assms(1)] snap_tree [OF assms(2)] by simp_all
    have "(diffNodes sha (index s) (index t), s, t) = (eds, s', t')"
      using assms(4) unfolding Diff_def if_not_P [OF trees(1)] if_P [OF trees(2)] .
    then have "eds = diffNodes sha (index s) (index t)" "s' = s" "t' = t" by (metis fst_conv snd_conv)+
    then show ?thesis using diffNodes_ok [OF assms(3) ok(1,2)] ok(3,4) assms(1,2) by simp
  next
    case lists
    obtain before s1 after t1 where r: "?read s = (before, s1)" "?read t = (after, t1)" by (meson surj_pair)
    have "(diff_entries (slice (Entries before)) (slice (Entries after)), s1, t1) = (eds, s', t')"
      using assms(4) unfolding Diff_def if_not_P [OF lists(1)] if_not_P [OF lists(2)] Let_def r prod.case .
    then have "eds = diff_entries (slice (Entries before)) (slice (Entries after))" "s1 = s'" "t1 = t'" by simp_all
    then show ?thesis using read [OF r(1) assms(1)] read [OF r(2) assms(2)] by simp
  qed
qed

subsection \<open>The cached root hash\<close>

definition root_ok :: "(string \<Rightarrow> string) \<Rightarrow> (string \<Rightarrow> string) \<Rightarrow> snapshot \<Rightarrow> bool" where
  "root_ok marshal sha256hex s \<longleftrightarrow>
     wireRoot s = '''' \<or> wireRoot s = RootHash marshal sha256hex (fst (materialized s))"

lemma materialized_stable:
  assumes "materialized s = (m, s')"
  shows "fst (materialized s') = m" "fst (materialized (s'\<lparr>wireRoot := w\<rparr>)) = m" "wireRoot s' = wireRoot s"
  using assms by (auto simp: materialized_def readyView_def Let_def split: option.splits if_splits)

lemma materialized_index:
  assumes "entries s \<noteq> None \<or> n = index s"
  shows "fst (materialized (s\<lparr>index := n\<rparr>)) = fst (materialized s)"
proof (cases "n = index s")
  case True
  have "s\<lparr>index := index s\<rparr> = s" by simp
  then show ?thesis using True by (simp only:)
next
  case False
  then show ?thesis using assms by (auto simp: materialized_def readyView_def)
qed

lemma materialized_noIndex: "fst (materialized (s\<lparr>noIndex := b\<rparr>)) = fst (materialized s)"
  by (auto simp: materialized_def readyView_def Walk_def Let_def split: option.splits)

lemma tree_root:
  assumes "tree sha gomaxprocs s = (q, t)"
  shows "fst (materialized t) = fst (materialized s) \<and> wireRoot t = wireRoot s"
proof (cases "t = s")
  case False
  then obtain n where n: "index s = Leaf" "buildTree sha gomaxprocs (slice (entries s)) = Some n" "t = s\<lparr>index := n\<rparr>"
    using assms by (auto simp: tree_def split: if_splits option.splits)
  have "entries s \<noteq> None \<or> n = index s"
  proof (cases "entries s")
    case None
    then show ?thesis using n(1,2) by (simp add: buildTree_def)
  qed simp
  then show ?thesis using n(3) materialized_index by simp
qed simp

lemma root_ok_fresh: "wireRoot s = '''' \<Longrightarrow> root_ok marshal sha256hex s"
  by (simp add: root_ok_def)

lemma root_ok_same:
  "root_ok marshal h s \<Longrightarrow> fst (materialized t) = fst (materialized s) \<Longrightarrow> wireRoot t = wireRoot s \<Longrightarrow> root_ok marshal h t"
  by (simp add: root_ok_def)

lemma flatUpdate_root:
  assumes "flatUpdate b ordered sc sz s = (r, s')"
  shows "fst (materialized s') = fst (materialized s) \<and> wireRoot s' = wireRoot s" "\<forall>t. r = Inr t \<longrightarrow> wireRoot t = ''''"
proof -
  obtain base t where m: "materialized s = (base, t)" by fastforce
  have "s' = t" using assms by (auto simp: flatUpdate_def m Let_def)
  then show "fst (materialized s') = fst (materialized s) \<and> wireRoot s' = wireRoot s"
    using materialized_stable [OF m] m by simp
  show "\<forall>t. r = Inr t \<longrightarrow> wireRoot t = ''''"
    using assms by (auto simp: flatUpdate_def m Let_def bind_res_Inr_iff empty_snapshot_def)
qed

lemma treeUpdate_root: "treeUpdate ordered sc sz root s = Inr t \<Longrightarrow> wireRoot t = ''''"
  by (auto simp: treeUpdate_def Let_def bind_res_Inr_iff empty_snapshot_def split: option.splits if_splits)

lemma apply_update_root:
  assumes "apply_update sha gomaxprocs ordered sc sz s = (r, s')"
  shows "fst (materialized s') = fst (materialized s) \<and> wireRoot s' = wireRoot s \<and> (\<forall>t. r = Inr t \<longrightarrow> wireRoot t = '''')"
proof -
  obtain q t where tree: "tree sha gomaxprocs s = (q, t)" by fastforce
  note tr = tree_root [OF tree]
  consider (flat) b u where "flatUpdate b ordered sc sz u = (r, s')"
      "fst (materialized u) = fst (materialized s) \<and> wireRoot u = wireRoot s"
    | (retained) root where "r = treeUpdate ordered sc sz root t" "s' = t"
  proof (cases "noIndex s \<or> (index s = Leaf \<and> entry_count s < minIndexedEntries \<and> scan_count sc < minIndexedEntries)")
    case True
    then obtain b where "flatUpdate b ordered sc sz s = (r, s')" using assms by (auto simp: apply_update_def split: if_splits)
    then show thesis using flat by blast
  next
    case False
    note step = assms [unfolded apply_update_def tree prod.case]
    show thesis
    proof (cases q)
      case (Inl err)
      have "flatUpdate True ordered sc sz (t\<lparr>noIndex := True\<rparr>) = (r, s')" using step False Inl by auto
      then show thesis using flat tr materialized_noIndex by fastforce
    next
      case (Inr root)
      have "(r, s') = (if \<not> scan_structural sc \<and> length ordered > 1
          then (treeUpdate ordered sc sz (replaceNodes sha root ordered) t, t)
          else case update_loop sha root ordered of
               None \<Rightarrow> flatUpdate True ordered sc sz t
             | Some root' \<Rightarrow> (treeUpdate ordered sc sz root' t, t))"
        using step False unfolding Inr sum.case by (simp only: de_Morgan_disj if_False simp_thms)
      then show thesis using flat [of True t] retained tr
        by (cases "\<not> scan_structural sc \<and> length ordered > 1"; cases "update_loop sha root ordered") auto
    qed
  qed
  then show ?thesis
  proof cases
    case flat
    then show ?thesis using flatUpdate_root by metis
  next
    case retained
    then show ?thesis using treeUpdate_root tr by metis
  qed
qed

lemma Update_root:
  assumes "Update sha os gomaxprocs eds s = (r, s')"
  shows "fst (materialized s') = fst (materialized s) \<and> wireRoot s' = wireRoot s \<and>
     (\<forall>t. r = Inr t \<longrightarrow> t = s \<or> wireRoot t = '''')"
proof -
  consider "s' = s" "\<forall>t. r = Inr t \<longrightarrow> t = s"
    | ordered sc sz where "apply_update sha gomaxprocs ordered sc sz s = (r, s')"
    using assms by (auto simp: Update_def Let_def split: if_splits sum.splits)
  then show ?thesis by cases (use apply_update_root in blast)+
qed


subsection \<open>Histories\<close>

definition Bytes :: "snapshot \<Rightarrow> int" where "Bytes s = byte_total s"

definition Len :: "snapshot \<Rightarrow> int" where "Len s = entry_count s"

text \<open>\<open>history s es\<close>: the snapshot \<open>s\<close> comes out of a sequence of calls whose effect on sorted
  lists is \<open>es\<close>. The receiver of a call keeps its inventory; only \<open>New\<close>, \<open>RestoreIndex\<close> and
  a successful \<open>Update\<close> give another one.\<close>

inductive history ::
  "(bytes \<Rightarrow> bytes) \<Rightarrow> platform \<Rightarrow> nat \<Rightarrow> (string \<Rightarrow> string) \<Rightarrow> (string \<Rightarrow> string) \<Rightarrow>
   snapshot \<Rightarrow> manifest_entry list \<Rightarrow> bool"
  for sha os gomaxprocs marshal sha256hex where
  new: "New os m = Inr s \<Longrightarrow> history sha os gomaxprocs marshal sha256hex s (slice (Entries m))"
| restored: "RestoreIndex sha os m img = Inr s \<Longrightarrow> history sha os gomaxprocs marshal sha256hex s (slice (Entries m))"
| update: "history sha os gomaxprocs marshal sha256hex s es \<Longrightarrow> Update sha os gomaxprocs eds s = (Inr t, s') \<Longrightarrow>
    history sha os gomaxprocs marshal sha256hex t (updated eds es)"
| updated: "history sha os gomaxprocs marshal sha256hex s es \<Longrightarrow> Update sha os gomaxprocs eds s = (r, s') \<Longrightarrow>
    history sha os gomaxprocs marshal sha256hex s' es"
| prepared: "history sha os gomaxprocs marshal sha256hex s es \<Longrightarrow>
    history sha os gomaxprocs marshal sha256hex (PrepareUpdates sha gomaxprocs s) es"
| checkpointed: "history sha os gomaxprocs marshal sha256hex s es \<Longrightarrow> CheckpointIndex sha gomaxprocs s = (img, s') \<Longrightarrow>
    history sha os gomaxprocs marshal sha256hex s' es"
| exported: "history sha os gomaxprocs marshal sha256hex s es \<Longrightarrow> Manifest s = (m, s') \<Longrightarrow>
    history sha os gomaxprocs marshal sha256hex s' es"
| hashed: "history sha os gomaxprocs marshal sha256hex s es \<Longrightarrow> Snapshot_RootHash marshal sha256hex s = (w, s') \<Longrightarrow>
    history sha os gomaxprocs marshal sha256hex s' es"
| compared_left: "history sha os gomaxprocs marshal sha256hex s es \<Longrightarrow> history sha os gomaxprocs marshal sha256hex t fs \<Longrightarrow>
    Diff sha s t = (eds, s', t') \<Longrightarrow> history sha os gomaxprocs marshal sha256hex s' es"
| compared_right: "history sha os gomaxprocs marshal sha256hex s es \<Longrightarrow> history sha os gomaxprocs marshal sha256hex t fs \<Longrightarrow>
    Diff sha s t = (eds, s', t') \<Longrightarrow> history sha os gomaxprocs marshal sha256hex t' fs"

lemma Diff_states:
  assumes "Diff sha s t = (eds, s', t')"
  shows "(s' = s \<or> s' = snd (materialized s)) \<and> (t' = t \<or> t' = snd (materialized t))"
proof -
  let ?read = "\<lambda>u. case entries u of Some es \<Rightarrow> (\<lparr>Entries = Some es\<rparr>, u) | None \<Rightarrow> materialized u"
  have "snd (?read u) = u \<or> snd (?read u) = snd (materialized u)" for u by (auto split: option.splits)
  moreover have "(s', t') = (s, t) \<or> (s', t') = (snd (?read s), snd (?read t))"
  proof (cases "s = t \<or> (index s \<noteq> Leaf \<and> index t \<noteq> Leaf) \<or> (entries s = None \<and> entries t = None)")
    case True
    then have "snd (Diff sha s t) = (s, t)" unfolding Diff_def by (cases "s = t") simp_all
    then show ?thesis using assms by simp
  next
    case False
    obtain m u n v where r: "?read s = (m, u)" "?read t = (n, v)" by (meson surj_pair)
    have c: "\<not> s = t" "\<not> ((index s \<noteq> Leaf \<and> index t \<noteq> Leaf) \<or> (entries s = None \<and> entries t = None))"
      using False by simp_all
    have "Diff sha s t = (diff_entries (slice (Entries m)) (slice (Entries n)), u, v)"
      unfolding Diff_def if_not_P [OF c(1)] if_not_P [OF c(2)] Let_def r prod.case ..
    then show ?thesis using assms unfolding r by simp
  qed
  ultimately show ?thesis by (metis prod.inject)
qed

lemma materialized_keeps:
  assumes "snap_ok sha os s" "root_ok marshal h s"
  shows "snap_ok sha os (snd (materialized s)) \<and> contents (snd (materialized s)) = contents s \<and>
     root_ok marshal h (snd (materialized s))"
proof -
  obtain m t where m: "materialized s = (m, t)" by fastforce
  show ?thesis
    using materialized_ok [OF assms(1) m] materialized_stable [OF m] root_ok_same [OF assms(2), of t] m by simp
qed

lemma PrepareUpdates_keeps:
  assumes "snap_ok sha os s" "root_ok marshal h s"
  shows "snap_ok sha os (PrepareUpdates sha g s) \<and> contents (PrepareUpdates sha g s) = contents s \<and>
     root_ok marshal h (PrepareUpdates sha g s)"
proof -
  obtain q t where t: "tree sha g s = (q, t)" by fastforce
  note ok = tree_result [OF assms(1) t] and rt = tree_root [OF t]
  have "root_ok marshal h t" "root_ok marshal h (t\<lparr>noIndex := True\<rparr>)"
    using root_ok_same [OF assms(2), of t] root_ok_same [OF assms(2), of "t\<lparr>noIndex := True\<rparr>"] rt materialized_noIndex [of True t]
    by simp_all
  moreover have "snap_ok sha os (t\<lparr>noIndex := True\<rparr>)" using ok snap_ok_caches(2) by blast
  ultimately show ?thesis
    using ok assms by (simp add: PrepareUpdates_def t split: sum.splits)
qed

lemma Snapshot_RootHash_keeps:
  assumes "snap_ok sha os s" "root_ok marshal h s" "Snapshot_RootHash marshal h s = (w, s')"
  shows "snap_ok sha os s' \<and> contents s' = contents s \<and> root_ok marshal h s'"
    "w = RootHash marshal h (fst (materialized s))"
proof -
  obtain m t where m: "materialized s = (m, t)" by fastforce
  have t: "snap_ok sha os t" "contents t = contents s" using materialized_ok [OF assms(1) m] by simp_all
  show "w = RootHash marshal h (fst (materialized s))"
    using assms(2,3) m by (auto simp: Snapshot_RootHash_def root_ok_def Let_def split: if_splits)
  show "snap_ok sha os s' \<and> contents s' = contents s \<and> root_ok marshal h s'"
  proof (cases "wireRoot s = ''''")
    case True
    then have s': "s' = t\<lparr>wireRoot := RootHash marshal h m\<rparr>" using assms(3) m by (auto simp: Snapshot_RootHash_def Let_def)
    have "root_ok marshal h s'" using materialized_stable(2) [OF m] by (simp add: root_ok_def s')
    then show ?thesis using t snap_ok_caches(3) [OF t(1)] s' by simp
  next
    case False
    then have "s' = s" using assms(3) by (auto simp: Snapshot_RootHash_def)
    then show ?thesis using assms by simp
  qed
qed

lemma history_ok:
  "history sha os g marshal h s es \<Longrightarrow> snap_ok sha os s \<and> contents s = es \<and> root_ok marshal h s"
proof (induction rule: history.induct)
  case (new m s)
  then show ?case using New_snap_ok [of os m s sha] by (auto simp: New_ok empty_snapshot_def intro!: root_ok_fresh)
next
  case (restored m img s)
  then show ?case using RestoreIndex_ok by (blast intro: root_ok_fresh)
next
  case (update s es eds t s')
  have "edits_ok os eds \<and> inventory_ok os (updated eds (contents s))"
    using Update_spec [OF _ update.hyps(2)] update.IH by (metis is_ok.simps(2))
  then have "snap_ok sha os t \<and> contents t = updated eds (contents s)"
    using Update_spec [OF _ update.hyps(2)] update.IH by fastforce
  moreover have "root_ok marshal h t" using Update_root [OF update.hyps(2)] update.IH root_ok_fresh by blast
  ultimately show ?case using update.IH by simp
next
  case (updated s es eds r s')
  then show ?case using Update_spec [OF _ updated.hyps(2)] Update_root [OF updated.hyps(2)] root_ok_same by metis
next
  case (prepared s es)
  then show ?case using PrepareUpdates_keeps by metis
next
  case (checkpointed s es img s')
  then have "s' = PrepareUpdates sha g s" by (auto simp: CheckpointIndex_def Let_def)
  then show ?case using PrepareUpdates_keeps checkpointed.IH by metis
next
  case (exported s es m s')
  then have "s' = snd (materialized s)" by (simp add: Manifest_def)
  then show ?case using materialized_keeps exported.IH by metis
next
  case (hashed s es w s')
  then show ?case using Snapshot_RootHash_keeps(1) by metis
next
  case (compared_left s es t fs eds s' t')
  then show ?case using Diff_states [OF compared_left.hyps(3)] materialized_keeps by metis
next
  case (compared_right s es t fs eds s' t')
  then show ?case using Diff_states [OF compared_right.hyps(3)] materialized_keeps by metis
qed

end
