(* ===== verification/Snapshot_Theorems.thy ===== *)
theory Snapshot_Theorems
  imports Snapshot_Laws
begin

text \<open>
  What the package \<open>internal/manifest\<close> promises its clients, for every history of calls and
  every hash function, with concrete runs.
\<close>

subsection \<open>A concrete run\<close>

definition dir_entry :: "string \<Rightarrow> 32 word \<Rightarrow> manifest_entry" where
  "dir_entry p mode = \<lparr>Path = p, Type = EntryDir, Mode = mode, Size = 0, SHA256 = '''', Target = ''''\<rparr>"

definition toy_hash :: "bytes \<Rightarrow> bytes" where
  "toy_hash b =
     take 32 (if length b = 96 then CHR 0x02 # drop 32 b else CHR 0x01 # rev b @ replicate 31 nul)"

definition sample_dirs :: manifest where
  "sample_dirs = \<lparr>Entries = Some [dir_entry ''a'' 0x1ED, dir_entry ''b'' 0x1ED]\<rparr>"

definition sample_edits :: "edit list" where
  "sample_edits =
     [\<lparr>Entry = dir_entry ''b'' 0x1ED, Delete = True\<rparr>, \<lparr>Entry = dir_entry ''a/c'' 0x1ED, Delete = False\<rparr>]"

lemma sample_inventory:
  "inventory_ok unix [dir_entry ''a'' 0x1ED, dir_entry ''b'' 0x1ED]" "inventory_ok unix [dir_entry ''a'' 0x1ED]"
  "inventory_ok unix [dir_entry ''a'' 0x1C0]" "inventory_ok unix [dir_entry ''a'' 0x1ED, dir_entry ''a/c'' 0x1ED]"
  by code_simp+

definition flat_snapshot :: "manifest_entry list \<Rightarrow> snapshot" where
  "flat_snapshot es =
     empty_snapshot\<lparr>entries := Some es, byte_total := byte_sum es, entry_count := int (length es)\<rparr>"

lemma flat_New: "inventory_ok os es \<Longrightarrow> New os \<lparr>Entries = Some es\<rparr> = Inr (flat_snapshot es)"
  by (simp add: New_ok flat_snapshot_def)

lemma flat_history: "inventory_ok os es \<Longrightarrow> history sha os g marshal h (flat_snapshot es) es"
  using history.new [OF flat_New, of os es sha g marshal h] by simp

lemma flat_ok: "inventory_ok os es \<Longrightarrow> snap_ok sha os (flat_snapshot es) \<and> contents (flat_snapshot es) = es"
  using New_snap_ok [OF flat_New, of os es sha] by simp

subsection \<open>Inventories\<close>

text \<open>C15. Whatever calls led to a snapshot and whatever caches it has filled, it is a valid
  inventory and every observer reads that inventory: \<open>Lookup\<close>, \<open>Manifest\<close>, \<open>Bytes\<close>, \<open>Len\<close>, and
  \<open>Subtree\<close>, which visits exactly the root and the paths below it, in path order, until the
  visitor stops it.\<close>

theorem snapshot_simulates_inventory:
  assumes "history sha os gomaxprocs marshal sha256hex s es"
  shows "inventory_ok os es \<and> Lookup s p = entry_at es p \<and> slice (Entries (fst (Manifest s))) = es \<and>
     Bytes s = byte_sum es \<and> Len s = int (length es) \<and>
     Subtree s root visit st =
       fst (walk_list visit st (filter (\<lambda>e. Path e = root \<or> prefix (root @ ''/'') (Path e)) es))"
proof -
  have s: "snap_ok sha os s" "contents s = es" using history_ok [OF assms] by simp_all
  obtain m t where m: "materialized s = (m, t)" by fastforce
  show ?thesis
    using s materialized_ok [OF s(1) m] m snap.lookup_law [OF snap_walkable [OF s(1)]]
      Subtree_walk [OF snap_walkable [OF s(1)], of root visit st]
    by (simp add: Manifest_def Bytes_def Len_def snap_ok_def)
qed

theorem snapshot_simulates_inventory_witness:
  "Lookup (flat_snapshot [dir_entry ''a'' 0x1ED, dir_entry ''b'' 0x1ED]) ''b'' = Some (dir_entry ''b'' 0x1ED) \<and>
   Len (flat_snapshot [dir_entry ''a'' 0x1ED, dir_entry ''b'' 0x1ED]) = 2 \<and>
   Subtree (flat_snapshot [dir_entry ''a'' 0x1ED, dir_entry ''b'' 0x1ED]) ''b'' (\<lambda>n e. (n + 1, True)) (0 :: nat) = 1"
  using snapshot_simulates_inventory [OF flat_history [OF sample_inventory(1)], where p = "''b''" and root = "''b''"
      and visit = "\<lambda>n e. (n + 1, True)" and st = "0 :: nat"]
  by (simp add: dir_entry_def)

text \<open>C14. \<open>Update\<close> implements the edits of a sorted list. It succeeds exactly when the edit paths
  are safe and distinct, the new entries are valid and the resulting list is a valid inventory
  (hierarchy, byte total); then the new snapshot is well formed and has that inventory, and in
  every case the receiver keeps its own. This covers the flat update, batch replacement,
  structural tree updates and the fallback when the tree grows too high.\<close>

theorem Update_refines:
  assumes "snap_ok sha os s"
  shows "snap_ok sha os (snd (Update sha os gomaxprocs eds s)) \<and>
     contents (snd (Update sha os gomaxprocs eds s)) = contents s \<and>
     (if edits_ok os eds \<and> inventory_ok os (updated eds (contents s))
      then \<exists>t. fst (Update sha os gomaxprocs eds s) = Inr t \<and> snap_ok sha os t \<and> contents t = updated eds (contents s)
      else \<not> is_ok (fst (Update sha os gomaxprocs eds s)))"
  using Update_spec [OF assms] by (metis prod.collapse)

theorem Update_refines_witness:
  "edits_ok unix sample_edits \<and>
   (\<exists>t. fst (Update toy_hash unix 4 sample_edits (flat_snapshot [dir_entry ''a'' 0x1ED, dir_entry ''b'' 0x1ED])) = Inr t \<and>
      contents t = [dir_entry ''a'' 0x1ED, dir_entry ''a/c'' 0x1ED])"
proof -
  let ?s = "flat_snapshot [dir_entry ''a'' 0x1ED, dir_entry ''b'' 0x1ED]"
  have s: "snap_ok toy_hash unix ?s" "contents ?s = [dir_entry ''a'' 0x1ED, dir_entry ''b'' 0x1ED]"
    using flat_ok [OF sample_inventory(1), of toy_hash] by simp_all
  have u: "updated sample_edits (contents ?s) = [dir_entry ''a'' 0x1ED, dir_entry ''a/c'' 0x1ED]"
    unfolding s(2) by code_simp
  have e: "edits_ok unix sample_edits" by code_simp
  show ?thesis using Update_refines [OF s(1), of 4 sample_edits] e sample_inventory(4) unfolding u by auto
qed


subsection \<open>The index and the root hash\<close>

text \<open>C31. The retained index of a snapshot is a function of its inventory alone, whatever edits
  and builds produced it: the tree that inserting the entries one by one gives. Its height
  never exceeds the limit of the recursive operations, 128.\<close>

theorem index_canonical:
  assumes "history sha os gomaxprocs marshal sha256hex s es" "index s \<noteq> Leaf"
  shows "index s = canonical sha es \<and> height_of (index s) \<le> 128"
proof -
  have "index_ok sha (index s) es" using history_ok [OF assms(1)] assms(2) by (auto simp: snap_ok_def)
  then show ?thesis using canonical_unique [of sha "index s"] by (simp add: index_ok_def maxHeight_def)
qed

definition sample_image :: IndexImage where
  "sample_image = \<lparr>Version = 1, Fallback = False,
     Nodes = snd (checkpoint_visit (canonical toy_hash [dir_entry ''a'' 0x1ED, dir_entry ''b'' 0x1ED]) 0 [])\<rparr>"

lemma sample_restored:
  "case RestoreIndex toy_hash unix sample_dirs sample_image of Inl _ \<Rightarrow> False | Inr s \<Rightarrow> index s \<noteq> Leaf \<and> ncount (index s) = 2"
  by code_simp

theorem index_canonical_witness:
  "\<exists>s. RestoreIndex toy_hash unix sample_dirs sample_image = Inr s \<and>
     index s = canonical toy_hash [dir_entry ''a'' 0x1ED, dir_entry ''b'' 0x1ED] \<and> height_of (index s) \<le> 128"
proof -
  obtain s where s: "RestoreIndex toy_hash unix sample_dirs sample_image = Inr s" "index s \<noteq> Leaf"
    using sample_restored by (auto split: sum.splits)
  show ?thesis using index_canonical [OF history.restored [OF s(1), of 4 id id] s(2)] s(1) by (auto simp: sample_dirs_def)
qed

text \<open>C30. A restored index can be trusted: whatever the image contains, a snapshot that
  \<open>RestoreIndex\<close> returns is well formed and has the inventory of the manifest, so a damaged or
  forged image is rejected or harmless.\<close>

theorem RestoreIndex_sound:
  assumes "RestoreIndex sha os m img = Inr s"
  shows "snap_ok sha os s \<and> contents s = slice (Entries m) \<and>
     (index s \<noteq> Leaf \<longrightarrow> index s = canonical sha (slice (Entries m)))"
proof -
  have ok: "snap_ok sha os s" "contents s = slice (Entries m)" using RestoreIndex_ok [OF assms] by simp_all
  have "index s = canonical sha (slice (Entries m))" if "index s \<noteq> Leaf"
    using that ok canonical_unique [of sha "index s"] by (simp add: snap_ok_def index_ok_def)
  with ok show ?thesis by blast
qed

theorem RestoreIndex_sound_witness:
  "\<exists>s. RestoreIndex toy_hash unix sample_dirs sample_image = Inr s \<and> snap_ok toy_hash unix s \<and>
     contents s = [dir_entry ''a'' 0x1ED, dir_entry ''b'' 0x1ED]"
proof -
  obtain s where s: "RestoreIndex toy_hash unix sample_dirs sample_image = Inr s"
    using sample_restored by (auto split: sum.splits)
  show ?thesis using RestoreIndex_sound [OF s] s by (simp add: sample_dirs_def)
qed

text \<open>The wire identity of a non-empty snapshot, cached or not, is the root hash of its
  inventory.\<close>

theorem snapshot_root_hash:
  assumes "history sha os gomaxprocs marshal sha256hex s es" "es \<noteq> []"
  shows "fst (Snapshot_RootHash marshal sha256hex s) = RootHash marshal sha256hex \<lparr>Entries = Some es\<rparr>"
proof -
  have s: "snap_ok sha os s" "contents s = es" "root_ok marshal sha256hex s" using history_ok [OF assms(1)] by simp_all
  obtain m t where m: "materialized s = (m, t)" by fastforce
  have "slice (Entries m) = es" using materialized_ok [OF s(1) m] s(2) by simp
  then have "Entries m = Some es" using assms(2) by (cases "Entries m") simp_all
  then have "m = \<lparr>Entries = Some es\<rparr>" by simp
  then show ?thesis
    using Snapshot_RootHash_keeps(2) [OF s(1,3)] m by (metis fst_conv prod.collapse)
qed

theorem snapshot_root_hash_witness:
  "fst (Snapshot_RootHash id id (flat_snapshot [dir_entry ''a'' 0x1ED])) =
   RootHash id id \<lparr>Entries = Some [dir_entry ''a'' 0x1ED]\<rparr>"
  using snapshot_root_hash [OF flat_history [OF sample_inventory(2), of toy_hash 4 id id]] by simp

subsection \<open>Differences\<close>

lemma singleton_inventories:
  assumes "path_sorted es" "set es \<subseteq> {x, y}" "Path x = Path y" "es \<noteq> []"
  shows "es = [x] \<or> es = [y]"
proof -
  obtain z zs where es: "es = z # zs" using assms(4) by (cases es) auto
  have "zs = []"
  proof (rule ccontr)
    assume "zs \<noteq> []"
    then obtain w where "w \<in> set zs" by (cases zs) auto
    then have "Path z < Path w" "z \<in> {x, y}" "w \<in> {x, y}" using assms(1,2) es by auto
    then show False using assms(3) by auto
  qed
  then show ?thesis using assms(2) es by auto
qed

text \<open>For two versions of one path everything that is hashed is known.\<close>

lemma collision_free_versions:
  fixes x y :: manifest_entry and sha :: "bytes \<Rightarrow> bytes"
  defines "node \<equiv> \<lambda>e. zero_digest @ entryDigest sha e @ zero_digest"
  assumes "Path x = Path y" "machine_entry x" "machine_entry y" "\<And>b. length (sha b) = 32"
    and "inj_on sha {entry_encoding x, entry_encoding y, node x, node y}"
    and "zero_digest \<notin> sha ` {entry_encoding x, entry_encoding y, node x, node y}"
  shows "collision_free sha {x, y}"
proof -
  have sub: "hash_inputs sha {x, y} \<subseteq> {entry_encoding x, entry_encoding y, node x, node y}"
  proof
    fix b assume "b \<in> hash_inputs sha {x, y}"
    then consider "b \<in> {entry_encoding x, entry_encoding y}"
      | l e r where "b = nodeDigest l @ entryDigest sha e @ nodeDigest r" "tree_ok sha (mk sha l e r)"
        "set (inorder (mk sha l e r)) \<subseteq> {x, y}"
      unfolding hash_inputs_def by blast
    then show "b \<in> {entry_encoding x, entry_encoding y, node x, node y}"
    proof cases
      case 2
      have "inorder (mk sha l e r) = [x] \<or> inorder (mk sha l e r) = [y]"
        by (rule singleton_inventories [OF tree_ok_sorted [OF 2(2)] 2(3) assms(2)]) simp
      then have lr: "inorder l = []" "inorder r = []" "e = x \<or> e = y" by (auto simp: append_eq_Cons_conv)
      moreover have "t = Leaf" if "inorder t = []" for t using that by (cases t) simp_all
      ultimately have "l = Leaf" "r = Leaf" by blast+
      then show ?thesis using 2(1) lr(3) by (auto simp: node_def)
    qed auto
  qed
  have "sha b \<noteq> zero_digest" if "b \<in> hash_inputs sha {x, y}" for b
    using assms(7) imageI [OF subsetD [OF sub that], of sha] by metis
  then show ?thesis using assms(3-5) inj_on_subset [OF assms(6) sub] by (simp add: collision_free_def)
qed

lemma toy_collision_free: "collision_free toy_hash {dir_entry ''a'' 0x1ED, dir_entry ''a'' 0x1C0}"
proof (rule collision_free_versions)
  show "machine_entry (dir_entry ''a'' 0x1ED)" "machine_entry (dir_entry ''a'' 0x1C0)"
    by (simp_all add: machine_entry_def dir_entry_def)
  show "length (toy_hash b) = 32" for b by (simp add: toy_hash_def)
  show "Path (dir_entry ''a'' 0x1ED) = Path (dir_entry ''a'' 0x1C0)" by (simp add: dir_entry_def)
qed code_simp+

text \<open>C16. \<open>Diff\<close> and \<open>Update\<close> are inverse: the edits \<open>Diff\<close> lists between two snapshots, whether it
  compared lists or walked two trees by digest, are the edits of the linear comparison, are
  accepted by \<open>Update\<close>, and take the first inventory to the second.\<close>

theorem Diff_Update_roundtrip:
  assumes "snap_ok sha os s" "snap_ok sha os t" "collision_free sha (set (contents s) \<union> set (contents t))"
  shows "fst (Diff sha s t) = diff_entries (contents s) (contents t) \<and>
     (\<exists>u. fst (Update sha os gomaxprocs (fst (Diff sha s t)) s) = Inr u \<and> contents u = contents t)"
proof -
  have d: "fst (Diff sha s t) = diff_entries (contents s) (contents t)"
    using Diff_spec [OF assms] by (metis prod.collapse)
  have inv: "inventory_ok os (contents s)" "inventory_ok os (contents t)" using assms(1,2) by (simp_all add: snap_ok_def)
  obtain r s' where u: "Update sha os gomaxprocs (diff_entries (contents s) (contents t)) s = (r, s')" by fastforce
  show ?thesis using Update_spec [OF assms(1) u] diff_edits_ok [OF inv] inv(2) u unfolding d by auto
qed

theorem Diff_Update_roundtrip_witness:
  "fst (Diff toy_hash (flat_snapshot [dir_entry ''a'' 0x1ED]) (flat_snapshot [dir_entry ''a'' 0x1C0])) =
     [\<lparr>Entry = dir_entry ''a'' 0x1C0, Delete = False\<rparr>] \<and>
   (\<exists>u. fst (Update toy_hash unix 4 [\<lparr>Entry = dir_entry ''a'' 0x1C0, Delete = False\<rparr>] (flat_snapshot [dir_entry ''a'' 0x1ED])) = Inr u \<and>
      contents u = [dir_entry ''a'' 0x1C0])"
proof -
  let ?s = "flat_snapshot [dir_entry ''a'' 0x1ED]" and ?t = "flat_snapshot [dir_entry ''a'' 0x1C0]"
  have ok: "snap_ok toy_hash unix ?s" "contents ?s = [dir_entry ''a'' 0x1ED]"
    "snap_ok toy_hash unix ?t" "contents ?t = [dir_entry ''a'' 0x1C0]"
    using flat_ok [OF sample_inventory(2), of toy_hash] flat_ok [OF sample_inventory(3), of toy_hash] by simp_all
  have "collision_free toy_hash (set (contents ?s) \<union> set (contents ?t))"
    using toy_collision_free by (simp add: ok insert_commute)
  moreover have "diff_entries (contents ?s) (contents ?t) = [\<lparr>Entry = dir_entry ''a'' 0x1C0, Delete = False\<rparr>]"
    unfolding ok by (simp add: dir_entry_def)
  ultimately show ?thesis using Diff_Update_roundtrip [OF ok(1,3), of 4] ok(4) by metis
qed

end
