(* ===== verification/Base64.thy ===== *)
theory Base64
  imports Prelude
begin

text \<open>
  Go's \<open>encoding/base64\<close>, as the sources use it: \<open>StdEncoding.EncodeToString\<close>, and
  \<open>DecodeString\<close> of \<open>StdEncoding\<close> and of its \<open>Strict\<close> variant, which also requires the
  unused bits before the padding to be zero. The decoders skip carriage returns and newlines.
\<close>

definition b64_alphabet :: string where
  "b64_alphabet = ''ABCDEFGHIJKLMNOPQRSTUVWXYZabcdefghijklmnopqrstuvwxyz0123456789+/''"

definition b64_char :: "nat \<Rightarrow> char" where
  "b64_char n = b64_alphabet ! n"

fun index_of :: "'a \<Rightarrow> 'a list \<Rightarrow> nat option" where
  "index_of c [] = None"
| "index_of c (x # xs) = (if c = x then Some 0 else map_option Suc (index_of c xs))"

definition b64_value :: "char \<Rightarrow> nat option" where
  "b64_value c = index_of c b64_alphabet"

abbreviation byte_of :: "char \<Rightarrow> nat" where "byte_of \<equiv> of_char"
abbreviation byte :: "nat \<Rightarrow> char" where "byte \<equiv> char_of"

fun b64_encode :: "bytes \<Rightarrow> string" where
  "b64_encode [] = []"
| "b64_encode [a] = [b64_char (byte_of a div 4), b64_char (byte_of a mod 4 * 16), CHR ''='', CHR ''='']"
| "b64_encode [a, b] =
     [b64_char (byte_of a div 4), b64_char (byte_of a mod 4 * 16 + byte_of b div 16),
      b64_char (byte_of b mod 16 * 4), CHR ''='']"
| "b64_encode (a # b # c # xs) =
     b64_char (byte_of a div 4) # b64_char (byte_of a mod 4 * 16 + byte_of b div 16) #
     b64_char (byte_of b mod 16 * 4 + byte_of c div 64) # b64_char (byte_of c mod 64) # b64_encode xs"

definition last_quad :: "bool \<Rightarrow> string \<Rightarrow> bytes option" where
  "last_quad strict q =
     (case q of
        [a, b, c, d] \<Rightarrow>
          if c = CHR ''='' \<and> d = CHR ''='' then
            (case (b64_value a, b64_value b) of
               (Some u, Some v) \<Rightarrow> if strict \<and> v mod 16 \<noteq> 0 then None else Some [byte (u * 4 + v div 16)]
             | _ \<Rightarrow> None)
          else if d = CHR ''='' then
            (case (b64_value a, b64_value b, b64_value c) of
               (Some u, Some v, Some w) \<Rightarrow>
                 if strict \<and> w mod 4 \<noteq> 0 then None
                 else Some [byte (u * 4 + v div 16), byte (v mod 16 * 16 + w div 4)]
             | _ \<Rightarrow> None)
          else None
      | _ \<Rightarrow> None)"

fun b64_quads :: "bool \<Rightarrow> string \<Rightarrow> bytes option" where
  "b64_quads strict [] = Some []"
| "b64_quads strict (a # b # c # d # xs) =
     (case (b64_value a, b64_value b, b64_value c, b64_value d) of
        (Some u, Some v, Some w, Some x) \<Rightarrow>
          map_option (\<lambda>ys. byte (u * 4 + v div 16) # byte (v mod 16 * 16 + w div 4) # byte (w mod 4 * 64 + x) # ys)
            (b64_quads strict xs)
      | _ \<Rightarrow> if xs = [] then last_quad strict [a, b, c, d] else None)"
| "b64_quads strict _ = None"

definition b64_decode :: "bool \<Rightarrow> string \<Rightarrow> bytes option" where
  "b64_decode strict s = b64_quads strict (filter (\<lambda>c. c \<noteq> CHR 0x0A \<and> c \<noteq> CHR 0x0D) s)"

subsection \<open>Round trips\<close>

lemma index_of_nth: "distinct xs \<Longrightarrow> i < length xs \<Longrightarrow> index_of (xs ! i) xs = Some i"
  by (induction xs arbitrary: i) (auto simp: nth_Cons split: nat.splits)

lemma index_of_Some: "index_of c xs = Some i \<Longrightarrow> i < length xs \<and> xs ! i = c"
  by (induction xs arbitrary: i) (auto split: if_splits)

lemma alphabet_length: "length b64_alphabet = 64"
  by (simp add: b64_alphabet_def)

lemma alphabet_distinct: "distinct b64_alphabet"
  by code_simp

lemma alphabet_plain: "list_all (\<lambda>c. c \<noteq> CHR ''='' \<and> c \<noteq> CHR 0x0A \<and> c \<noteq> CHR 0x0D) b64_alphabet"
  by code_simp

lemma b64_value_char [simp]: "n < 64 \<Longrightarrow> b64_value (b64_char n) = Some n"
  unfolding b64_value_def b64_char_def by (rule index_of_nth) (simp_all add: alphabet_distinct alphabet_length)

lemma b64_value_Some: "b64_value c = Some n \<Longrightarrow> n < 64 \<and> b64_char n = c"
  using index_of_Some [of c b64_alphabet n] by (simp add: b64_value_def b64_char_def alphabet_length)

lemma b64_char_plain: "n < 64 \<Longrightarrow> b64_char n \<noteq> CHR ''='' \<and> b64_char n \<noteq> CHR 0x0A \<and> b64_char n \<noteq> CHR 0x0D"
  using alphabet_plain alphabet_length by (simp add: b64_char_def list_all_length)

lemma b64_value_pad [simp]: "b64_value (CHR ''='') = None"
  using b64_value_Some b64_char_plain by (cases "b64_value (CHR ''='')") blast+

lemma byte_bound [simp]: "byte_of a < (256 :: nat)"
  using of_char_mod_256 [of a, where ?'a = nat] mod_less_divisor [of 256 "byte_of a"] by simp

lemma quad_values:
  fixes a b c :: nat
  assumes "a < 256" "b < 256" "c < 256"
  shows "a div 4 < 64" "a mod 4 * 16 + b div 16 < 64" "b mod 16 * 4 + c div 64 < 64" "c mod 64 < 64"
    "a mod 4 * 16 < 64" "b mod 16 * 4 < 64"
    "a div 4 * 4 + (a mod 4 * 16 + b div 16) div 16 = a"
    "(a mod 4 * 16 + b div 16) mod 16 * 16 + (b mod 16 * 4 + c div 64) div 4 = b"
    "(b mod 16 * 4 + c div 64) mod 4 * 64 + c mod 64 = c"
proof -
  have b: "b div 16 < 16" and c: "c div 64 < 4" using assms by simp_all
  have low: "a mod 4 < 4" "b mod 16 < 16" by simp_all
  show "a div 4 < 64" using assms by simp
  show "a mod 4 * 16 + b div 16 < 64" "a mod 4 * 16 < 64" "b mod 16 * 4 + c div 64 < 64" "b mod 16 * 4 < 64"
    using low b c by linarith+
  show "c mod 64 < 64" by simp
  show "a div 4 * 4 + (a mod 4 * 16 + b div 16) div 16 = a" using b by simp
  show "(a mod 4 * 16 + b div 16) mod 16 * 16 + (b mod 16 * 4 + c div 64) div 4 = b" using b c by simp
  show "(b mod 16 * 4 + c div 64) mod 4 * 64 + c mod 64 = c" using c by simp
qed

lemmas byte_quad = quad_values [OF byte_bound byte_bound byte_bound]

lemma b64_quads_encode: "b64_quads strict (b64_encode x) = Some x"
proof (induction x rule: b64_encode.induct)
  case (2 a)
  have "byte_of a div 4 * 4 + byte_of a mod 4 * 16 div 16 = (byte_of a :: nat)" by simp
  then show ?case using byte_quad(1,5) [of a] by (simp add: last_quad_def)
next
  case (3 a b)
  note q = quad_values [OF byte_bound [of a] byte_bound [of b], of 0]
  show ?case using q b64_char_plain [OF byte_quad(6) [of b]] by (simp add: last_quad_def)
next
  case (4 a b c xs)
  show ?case
    using byte_quad(1) [of a] byte_quad(2) [of a b] byte_quad(3) [of b c] byte_quad(4) [of c] byte_quad(7) [of a b]
      byte_quad(8) [of a b c] byte_quad(9) [of b c] 4 by simp
qed simp

lemma b64_encode_no_newline: "c \<in> set (b64_encode x) \<Longrightarrow> c \<noteq> CHR 0x0A \<and> c \<noteq> CHR 0x0D"
proof (induction x rule: b64_encode.induct)
  case (2 a)
  then show ?case using b64_char_plain [OF byte_quad(1) [of a]] b64_char_plain [OF byte_quad(5) [of a]] by auto
next
  case (3 a b)
  then show ?case
    using b64_char_plain [OF byte_quad(1) [of a]] b64_char_plain [OF byte_quad(2) [of a b]]
      b64_char_plain [OF byte_quad(6) [of b]] by auto
next
  case (4 a b d xs)
  then show ?case
    using b64_char_plain [OF byte_quad(1) [of a]] b64_char_plain [OF byte_quad(2) [of a b]]
      b64_char_plain [OF byte_quad(3) [of b d]] b64_char_plain [OF byte_quad(4) [of d]] by auto
qed simp

lemma b64_decode_encode [simp]: "b64_decode strict (b64_encode x) = Some x"
proof -
  have "filter (\<lambda>c. c \<noteq> CHR 0x0A \<and> c \<noteq> CHR 0x0D) (b64_encode x) = b64_encode x"
    using b64_encode_no_newline by (intro filter_True) blast
  then show ?thesis by (simp add: b64_decode_def b64_quads_encode)
qed


text \<open>Strict decoding accepts one spelling of each byte string.\<close>

lemma quad_back:
  fixes u v w x :: nat
  assumes "u < 64" "v < 64" "w < 64" "x < 64"
  defines "a \<equiv> u * 4 + v div 16" and "b \<equiv> v mod 16 * 16 + w div 4" and "c \<equiv> w mod 4 * 64 + x"
  shows "a < 256" "b < 256" "c < 256" "a div 4 = u" "a mod 4 * 16 + b div 16 = v" "b mod 16 * 4 + c div 64 = w" "c mod 64 = x"
    "v mod 16 = 0 \<Longrightarrow> a mod 4 * 16 = v" "w mod 4 = 0 \<Longrightarrow> b mod 16 * 4 = w"
proof -
  have hi: "v div 16 < 4" "w div 4 < 16" using assms by simp_all
  have low: "v mod 16 < 16" "w mod 4 < 4" by simp_all
  show "a < 256" "b < 256" "c < 256" using assms(1,4) hi low unfolding a_def b_def c_def by linarith+
  have am: "a div 4 = u" "a mod 4 = v div 16" using hi by (simp_all add: a_def)
  have bm: "b div 16 = v mod 16" "b mod 16 = w div 4" using hi by (simp_all add: b_def)
  have cm: "c div 64 = w mod 4" "c mod 64 = x" using assms(4) by (simp_all add: c_def)
  show "a div 4 = u" "c mod 64 = x" by (rule am, rule cm)
  show "a mod 4 * 16 + b div 16 = v" "b mod 16 * 4 + c div 64 = w" by (simp_all add: am bm cm)
  show "a mod 4 * 16 = v" if "v mod 16 = 0" using that div_mult_mod_eq [of v 16] by (simp add: am)
  show "b mod 16 * 4 = w" if "w mod 4 = 0" using that div_mult_mod_eq [of w 4] by (simp add: bm)
qed

lemma byte_of_byte: "n < 256 \<Longrightarrow> byte_of (byte n) = (n :: nat)"
  by simp

lemma last_quad_strict:
  assumes "last_quad True [a, b, c, d] = Some x"
  shows "b64_encode x = [a, b, c, d]"
proof -
  consider (two) u v where "c = CHR ''=''" "d = CHR ''=''" "b64_value a = Some u" "b64_value b = Some v"
      "v mod 16 = 0" "x = [byte (u * 4 + v div 16)]"
    | (three) u v w where "d = CHR ''=''" "b64_value a = Some u" "b64_value b = Some v" "b64_value c = Some w"
      "w mod 4 = 0" "x = [byte (u * 4 + v div 16), byte (v mod 16 * 16 + w div 4)]"
    using assms by (auto simp: last_quad_def split: if_splits option.splits)
  then show ?thesis
  proof cases
    case two
    have uv: "u < 64" "v < 64" "b64_char u = a" "b64_char v = b" using two b64_value_Some by blast+
    have z: "(0 :: nat) < 64" by simp
    note q = quad_back [OF uv(1,2) z z]
    show ?thesis unfolding two(6) b64_encode.simps byte_of_byte [OF q(1)] q(4) q(8) [OF two(5)] uv(3,4) two(1,2) ..
  next
    case three
    have uv: "u < 64" "v < 64" "w < 64" "b64_char u = a" "b64_char v = b" "b64_char w = c" using three b64_value_Some by blast+
    have z: "(0 :: nat) < 64" by simp
    note q = quad_back [OF uv(1-3) z]
    show ?thesis
      unfolding three(6) b64_encode.simps byte_of_byte [OF q(1)] byte_of_byte [OF q(2)] q(4,5) q(9) [OF three(5)] uv(4-6) three(1) ..
  qed
qed

lemma b64_quads_strict: "b64_quads strict s = Some x \<Longrightarrow> strict \<Longrightarrow> b64_encode x = s"
proof (induction strict s arbitrary: x rule: b64_quads.induct)
  case (2 strict a b c d xs)
  note eq = "2.prems"(1) [unfolded b64_quads.simps]
  show ?case
  proof (cases "b64_value a = None \<or> b64_value b = None \<or> b64_value c = None \<or> b64_value d = None")
    case True
    then have "xs = []" "last_quad strict [a, b, c, d] = Some x" using eq by (auto split: if_splits option.splits)
    then show ?thesis using last_quad_strict "2.prems"(2) by simp
  next
    case False
    then obtain u v w y where val: "b64_value a = Some u" "b64_value b = Some v" "b64_value c = Some w" "b64_value d = Some y" by auto
    then have uv: "u < 64" "v < 64" "w < 64" "y < 64" "b64_char u = a" "b64_char v = b" "b64_char w = c" "b64_char y = d"
      using b64_value_Some by blast+
    obtain ys where ys: "b64_quads strict xs = Some ys"
      "x = byte (u * 4 + v div 16) # byte (v mod 16 * 16 + w div 4) # byte (w mod 4 * 64 + y) # ys"
      using eq val by auto
    have "b64_encode ys = xs" using "2.IH" val ys(1) "2.prems"(2) by blast
    moreover note q = quad_back [OF uv(1-4)]
    ultimately show ?thesis
      unfolding ys(2) b64_encode.simps byte_of_byte [OF q(1)] byte_of_byte [OF q(2)] byte_of_byte [OF q(3)] q(4-7) uv(5-8) by simp
  qed
qed simp_all

lemma b64_decode_strict:
  assumes "b64_decode True s = Some x" "CHR 0x0A \<notin> set s" "CHR 0x0D \<notin> set s"
  shows "s = b64_encode x"
proof -
  have "filter (\<lambda>c. c \<noteq> CHR 0x0A \<and> c \<noteq> CHR 0x0D) s = s" using assms(2,3) by (intro filter_True) auto
  then show ?thesis using assms(1) b64_quads_strict [of True s x] by (simp add: b64_decode_def)
qed

end
