(* ===== verification/Lease_Target.thy ===== *)
theory Lease_Target
  imports Base64 "HOL-Library.Word"
begin

text \<open>
  \<open>internal/proto/lease_target.go\<close>: which transports and SSH host keys a client may be told to
  use. \<open>url.Parse\<close> and the check that a point is on an elliptic curve are parameters.
\<close>

subsection \<open>Transports\<close>

record url =
  Scheme :: string
  Host :: string
  has_User :: bool
  RawQuery :: string
  Fragment :: string

datatype target_error =
    BothTransports
  | BadSSH
  | BadRemoteSocket
  | BadRemoteCommand
  | RemoteNeedsSSH
  | BadURL
  | NoTransport
  | HostKeyNeedsSSH
  | BadHostKey

definition CheckPeerTransport ::
  "(string \<Rightarrow> url option) \<Rightarrow> string \<Rightarrow> string \<Rightarrow> string \<Rightarrow> string \<Rightarrow> target_error + unit" where
  "CheckPeerTransport parse rawURL ssh remoteCommand remoteSocket =
     (if rawURL \<noteq> '''' \<and> ssh \<noteq> '''' then Inl BothTransports
      else if ssh \<noteq> '''' then
        if contains_any ssh ('' :/?#'' @ [CHR 0x09, CHR 0x0D, CHR 0x0A]) \<or> has_prefix ssh ''@'' \<or>
           has_suffix ssh ''@'' \<or> length (filter (\<lambda>c. c = CHR ''@'') ssh) > 1 then Inl BadSSH
        else if remoteSocket \<noteq> '''' \<and> \<not> has_prefix remoteSocket ''/'' then Inl BadRemoteSocket
        else if remoteCommand \<noteq> '''' \<and> \<not> has_prefix remoteCommand ''/'' then Inl BadRemoteCommand
        else Inr ()
      else if remoteCommand \<noteq> '''' \<or> remoteSocket \<noteq> '''' then Inl RemoteNeedsSSH
      else
        case parse rawURL of
          None \<Rightarrow> Inl BadURL
        | Some u \<Rightarrow>
            if Host u = '''' \<or> has_User u \<or> RawQuery u \<noteq> '''' \<or> Fragment u \<noteq> '''' \<or>
               (Scheme u \<noteq> ''http'' \<and> Scheme u \<noteq> ''https'') then Inl BadURL
            else Inr ())"

subsection \<open>The SSH wire format\<close>

definition big_endian :: "bytes \<Rightarrow> nat" where
  "big_endian bs = fold (\<lambda>c n. 256 * n + byte_of c) bs 0"

text \<open>\<open>sshRead\<close> returns the string and what is left of the data; \<open>None\<close> is \<open>false\<close>.\<close>

definition sshRead :: "bytes \<Rightarrow> (bytes \<times> bytes) option" where
  "sshRead data =
     (if length data < 4 then None
      else
        let n = big_endian (take 4 data)
        in if length data - 4 < n then None else Some (take n (drop 4 data), drop (4 + n) data))"

definition sshMpint :: "bytes \<Rightarrow> (nat \<times> bytes) option" where
  "sshMpint data =
     (case sshRead data of
        None \<Rightarrow> None
      | Some (n, rest) \<Rightarrow>
          if n = [] \<or> byte_of (n ! 0) \<ge> (128 :: nat) \<or>
             (byte_of (n ! 0) = (0 :: nat) \<and> (length n = 1 \<or> byte_of (n ! 1) < (128 :: nat))) then None
          else Some (big_endian n, rest))"

fun bit_len :: "nat \<Rightarrow> nat" where
  "bit_len n = (if n = 0 then 0 else Suc (bit_len (n div 2)))"

declare bit_len.simps [simp del]

definition sshEd25519 :: "bytes \<Rightarrow> bytes option" where
  "sshEd25519 data =
     (case sshRead data of None \<Rightarrow> None | Some (key, rest) \<Rightarrow> if length key = 32 then Some rest else None)"

definition sshRSA :: "bytes \<Rightarrow> bytes option" where
  "sshRSA data =
     (case sshMpint data of
        None \<Rightarrow> None
      | Some (e, rest) \<Rightarrow>
          (case sshMpint rest of
             None \<Rightarrow> None
           | Some (n, rest') \<Rightarrow>
               if odd e \<and> e \<ge> 3 \<and> bit_len n \<ge> 1024 \<and> bit_len n \<le> 16384 then Some rest' else None))"

text \<open>\<open>on_curve\<close> is \<open>ecdh.Curve.NewPublicKey\<close> of the named curve succeeding.\<close>

definition sshECDSA :: "(string \<Rightarrow> bytes \<Rightarrow> bool) \<Rightarrow> bytes \<Rightarrow> string \<Rightarrow> bytes option" where
  "sshECDSA on_curve data curve =
     (case sshRead data of
        None \<Rightarrow> None
      | Some (name, rest) \<Rightarrow>
          if name \<noteq> curve then None
          else (case sshRead rest of
                  None \<Rightarrow> None
                | Some (point, rest') \<Rightarrow>
                    if curve \<in> {''nistp256'', ''nistp384'', ''nistp521''} \<and> on_curve curve point
                    then Some rest' else None))"

definition sshPublicKeyBlob :: "(string \<Rightarrow> bytes \<Rightarrow> bool) \<Rightarrow> string \<Rightarrow> bytes \<Rightarrow> bool" where
  "sshPublicKeyBlob on_curve keyType blob =
     (case sshRead blob of
        None \<Rightarrow> False
      | Some (name, rest) \<Rightarrow>
          if name \<noteq> keyType then False
          else
            let left =
              (if keyType = ''ssh-ed25519'' then sshEd25519 rest
               else if keyType = ''ssh-rsa'' then sshRSA rest
               else if keyType \<in> {''ecdsa-sha2-nistp256'', ''ecdsa-sha2-nistp384'', ''ecdsa-sha2-nistp521''}
                 then sshECDSA on_curve rest (trim_prefix keyType ''ecdsa-sha2-'')
               else None)
            in left = Some [])"

subsection \<open>Keys as text\<close>

text \<open>\<open>strings.Fields\<close>: the length of the white space character at the front of a byte
  string, the two- and three-byte ones being the UTF-8 of the other runes of \<open>unicode.IsSpace\<close>.\<close>

definition ascii_space :: "char \<Rightarrow> bool" where
  "ascii_space c \<longleftrightarrow> c \<in> {CHR 0x09, CHR 0x0A, CHR 0x0B, CHR 0x0C, CHR 0x0D, CHR '' ''}"

definition space_at :: "string \<Rightarrow> nat" where
  "space_at s =
     (case s of
        [] \<Rightarrow> 0
      | c # cs \<Rightarrow>
          if ascii_space c then 1
          else if take 2 s \<in> {[CHR 0xC2, CHR 0x85], [CHR 0xC2, CHR 0xA0]} then 2
          else if take 3 s \<in> {[CHR 0xE1, CHR 0x9A, CHR 0x80], [CHR 0xE2, CHR 0x80, CHR 0xA8],
               [CHR 0xE2, CHR 0x80, CHR 0xA9], [CHR 0xE2, CHR 0x80, CHR 0xAF],
               [CHR 0xE2, CHR 0x81, CHR 0x9F], [CHR 0xE3, CHR 0x80, CHR 0x80]} then 3
          else if take 2 s = [CHR 0xE2, CHR 0x80] \<and> length s \<ge> 3 \<and>
               s ! 2 \<in> {CHR 0x80, CHR 0x81, CHR 0x82, CHR 0x83, CHR 0x84, CHR 0x85, CHR 0x86, CHR 0x87,
                 CHR 0x88, CHR 0x89, CHR 0x8A} then 3
          else 0)"

text \<open>\<open>acc\<close> is the field being read.\<close>

function fields_loop :: "string \<Rightarrow> string \<Rightarrow> string list" where
  "fields_loop acc [] = (if acc = [] then [] else [acc])"
| "fields_loop acc (c # cs) =
     (let k = space_at (c # cs)
      in if k = 0 then fields_loop (acc @ [c]) cs
         else (if acc = [] then [] else [acc]) @ fields_loop [] (drop k (c # cs)))"
  by pat_completeness auto
termination
  by (relation "measure (\<lambda>(acc, s). length s)") (auto simp: Let_def)

definition Fields :: "string \<Rightarrow> string list" where
  "Fields s = fields_loop [] s"

definition SSHKeyBody :: "(string \<Rightarrow> bytes \<Rightarrow> bool) \<Rightarrow> string \<Rightarrow> string option" where
  "SSHKeyBody on_curve s =
     (let fields = Fields s
      in if length fields < 2 \<or> length s > 16384 \<or> contains_any s [CHR 0x0D, CHR 0x0A] then None
         else
           case b64_decode True (fields ! 1) of
             None \<Rightarrow> None
           | Some blob \<Rightarrow>
               if \<not> sshPublicKeyBlob on_curve (fields ! 0) blob then None
               else Some (fields ! 0 @ '' '' @ fields ! 1))"

definition SameSSHKey :: "(string \<Rightarrow> bytes \<Rightarrow> bool) \<Rightarrow> string \<Rightarrow> string \<Rightarrow> bool" where
  "SameSSHKey on_curve a b =
     (case SSHKeyBody on_curve a of
        None \<Rightarrow> False
      | Some x \<Rightarrow> (case SSHKeyBody on_curve b of None \<Rightarrow> False | Some y \<Rightarrow> x = y))"

record lease_target =
  target_URL :: string
  target_SSH :: string
  RemoteCommand :: string
  RemoteSocket :: string
  HostKey :: string

definition LeaseTarget_Check ::
  "(string \<Rightarrow> url option) \<Rightarrow> (string \<Rightarrow> bytes \<Rightarrow> bool) \<Rightarrow> lease_target \<Rightarrow> target_error + unit" where
  "LeaseTarget_Check parse on_curve t =
     (if target_URL t = '''' \<and> target_SSH t = '''' then Inl NoTransport
      else
        bind_res (CheckPeerTransport parse (target_URL t) (target_SSH t) (RemoteCommand t) (RemoteSocket t)) (\<lambda>_.
          if HostKey t \<noteq> '''' then
            if target_SSH t = '''' then Inl HostKeyNeedsSSH
            else if SSHKeyBody on_curve (HostKey t) = None then Inl BadHostKey
            else Inr ()
          else Inr ()))"


subsection \<open>Normal forms of keys\<close>

definition plain_ascii :: "string \<Rightarrow> bool" where
  "plain_ascii s \<longleftrightarrow> list_all (\<lambda>c. byte_of c < (128 :: nat) \<and> \<not> ascii_space c) s"

lemma space_at_ascii:
  assumes "byte_of c < (128 :: nat)" "\<not> ascii_space c"
  shows "space_at (c # cs) = 0"
proof -
  have "c \<noteq> CHR 0xC2" "c \<noteq> CHR 0xE1" "c \<noteq> CHR 0xE2" "c \<noteq> CHR 0xE3" using assms(1) by auto
  with assms(2) show ?thesis by (auto simp: space_at_def)
qed

lemma fields_loop_plain:
  "plain_ascii a \<Longrightarrow> fields_loop acc (a @ s) = fields_loop (acc @ a) s"
proof (induction a arbitrary: acc)
  case (Cons c a)
  then have "space_at (c # a @ s) = 0" by (intro space_at_ascii) (simp_all add: plain_ascii_def)
  with Cons show ?case by (simp add: plain_ascii_def)
qed simp

lemma Fields_two:
  assumes "plain_ascii a" "plain_ascii b" "a \<noteq> []" "b \<noteq> []"
  shows "Fields (a @ '' '' @ b) = [a, b]"
proof -
  have "fields_loop a ('' '' @ b) = [a] @ fields_loop [] b" using assms(3) by (simp add: space_at_def ascii_space_def)
  moreover have "fields_loop [] b = [b]" using fields_loop_plain [OF assms(2), of "[]" "[]"] assms(4) by simp
  ultimately show ?thesis using fields_loop_plain [OF assms(1), of "[]" "'' '' @ b"] by (simp add: Fields_def)
qed

lemma fields_loop_chars: "f \<in> set (fields_loop acc s) \<Longrightarrow> set f \<subseteq> set acc \<union> set s"
proof (induction acc s rule: fields_loop.induct)
  case (2 acc c cs)
  let ?k = "space_at (c # cs)"
  show ?case
  proof (cases "?k = 0")
    case True
    then show ?thesis using 2(1) [OF refl True] 2(3) by auto
  next
    case False
    then have "f = acc \<or> f \<in> set (fields_loop [] (drop ?k (c # cs)))" using 2(3) by (auto simp: Let_def split: if_splits)
    then show ?thesis using 2(2) [OF refl False] set_drop_subset [of ?k "c # cs"] by fastforce
  qed
qed (auto split: if_splits)

lemma fields_loop_length:
  "sum_list (map (\<lambda>f. Suc (length f)) (fields_loop acc s)) \<le> Suc (length acc + length s)"
proof (induction acc s rule: fields_loop.induct)
  case (2 acc c cs)
  then show ?case by (auto simp: Let_def)
qed simp

lemma b64_encode_plain: "plain_ascii (b64_encode x)"
proof -
  have alpha: "list_all (\<lambda>c. byte_of c < (128 :: nat) \<and> \<not> ascii_space c) b64_alphabet" by code_simp
  have c: "byte_of (b64_char n) < (128 :: nat) \<and> \<not> ascii_space (b64_char n)" if "n < 64" for n
    using alpha that alphabet_length by (simp add: b64_char_def list_all_length)
  have pad: "byte_of CHR ''='' < (128 :: nat) \<and> \<not> ascii_space CHR ''=''" by code_simp
  show ?thesis unfolding plain_ascii_def
  proof (induction x rule: b64_encode.induct)
    case (2 a)
    then show ?case using c [OF byte_quad(1) [of a]] c [OF byte_quad(5) [of a]] pad by simp
  next
    case (3 a b)
    then show ?case using c [OF byte_quad(1) [of a]] c [OF byte_quad(2) [of a b]] c [OF byte_quad(6) [of b]] pad by simp
  next
    case (4 a b d xs)
    then show ?case
      using c [OF byte_quad(1) [of a]] c [OF byte_quad(2) [of a b]] c [OF byte_quad(3) [of b d]] c [OF byte_quad(4) [of d]] by simp
  qed simp
qed

lemma key_type_known:
  assumes "sshPublicKeyBlob on_curve keyType blob"
  shows "keyType \<in> {''ssh-ed25519'', ''ssh-rsa'', ''ecdsa-sha2-nistp256'', ''ecdsa-sha2-nistp384'', ''ecdsa-sha2-nistp521''}"
    "blob \<noteq> []"
proof -
  let ?types = "{''ssh-ed25519'', ''ssh-rsa'', ''ecdsa-sha2-nistp256'', ''ecdsa-sha2-nistp384'', ''ecdsa-sha2-nistp521''}"
  show "keyType \<in> ?types"
  proof (rule ccontr)
    assume "keyType \<notin> ?types"
    then have t: "\<not> keyType = ''ssh-ed25519''" "\<not> keyType = ''ssh-rsa''"
      "\<not> keyType \<in> {''ecdsa-sha2-nistp256'', ''ecdsa-sha2-nistp384'', ''ecdsa-sha2-nistp521''}" by (simp_all only: insert_iff empty_iff de_Morgan_disj simp_thms)
    show False
      using assms unfolding sshPublicKeyBlob_def Let_def if_not_P [OF t(1)] if_not_P [OF t(2)] if_not_P [OF t(3)]
      by (cases "sshRead blob") (auto split: if_splits)
  qed
  show "blob \<noteq> []" using assms by (auto simp: sshPublicKeyBlob_def sshRead_def)
qed

lemma key_type_plain:
  assumes "sshPublicKeyBlob on_curve keyType blob"
  shows "plain_ascii keyType \<and> keyType \<noteq> []"
proof -
  have "list_all (\<lambda>t. plain_ascii t \<and> t \<noteq> [])
      [''ssh-ed25519'', ''ssh-rsa'', ''ecdsa-sha2-nistp256'', ''ecdsa-sha2-nistp384'', ''ecdsa-sha2-nistp521'']"
    by code_simp
  then show ?thesis using key_type_known(1) [OF assms] by auto
qed

lemma b64_encode_inject: "b64_encode x = b64_encode y \<Longrightarrow> x = y"
  using b64_decode_encode by (metis option.inject)

lemma SSHKeyBody_iff:
  "SSHKeyBody on_curve s = Some body \<longleftrightarrow>
     length s \<le> 16384 \<and> CHR 0x0D \<notin> set s \<and> CHR 0x0A \<notin> set s \<and>
     (\<exists>keyType blob rest. Fields s = keyType # b64_encode blob # rest \<and> sshPublicKeyBlob on_curve keyType blob \<and>
        body = keyType @ '' '' @ b64_encode blob)"
proof -
  have dec: "b64_decode True f = Some blob \<longleftrightarrow> f = b64_encode blob"
    if "f \<in> set (Fields s)" "CHR 0x0D \<notin> set s" "CHR 0x0A \<notin> set s" for f blob
  proof -
    have "set f \<subseteq> set s" using fields_loop_chars [of f "[]" s] that(1) by (simp add: Fields_def)
    then show ?thesis using b64_decode_strict [of f blob] that(2,3) by auto
  qed
  have nl: "contains_any s [CHR 0x0D, CHR 0x0A] \<longleftrightarrow> CHR 0x0D \<in> set s \<or> CHR 0x0A \<in> set s"
    by (auto simp: contains_any_def list_ex_iff)
  show ?thesis
  proof (cases "Fields s")
    case (Cons a as)
    then show ?thesis
    proof (cases as)
      case inner: (Cons b bs)
      then show ?thesis
        using Cons dec [of b] b64_encode_inject by (auto simp: SSHKeyBody_def Let_def nl split: option.splits)
    qed (auto simp: SSHKeyBody_def)
  qed (simp add: SSHKeyBody_def)
qed

lemma SSHKeyBody_idem:
  assumes "SSHKeyBody on_curve s = Some body"
  shows "SSHKeyBody on_curve body = Some body"
proof -
  obtain keyType blob rest where s: "length s \<le> 16384" "CHR 0x0D \<notin> set s" "CHR 0x0A \<notin> set s"
    "Fields s = keyType # b64_encode blob # rest" "sshPublicKeyBlob on_curve keyType blob" "body = keyType @ '' '' @ b64_encode blob"
    using assms unfolding SSHKeyBody_iff by blast
  have len: "length body \<le> length s" using fields_loop_length [of "[]" s] s(4,6) by (simp add: Fields_def)
  have "b64_encode blob \<noteq> []" using key_type_known(2) [OF s(5)] by (cases blob rule: b64_encode.cases) auto
  then have f: "Fields body = [keyType, b64_encode blob]"
    using Fields_two [of keyType "b64_encode blob"] key_type_plain [OF s(5)] b64_encode_plain s(6) by simp
  have "set keyType \<subseteq> set s" "set (b64_encode blob) \<subseteq> set s"
    using fields_loop_chars [of _ "[]" s] s(4) by (auto simp: Fields_def)
  then have "CHR 0x0D \<notin> set body" "CHR 0x0A \<notin> set body" using s(2,3,6) by auto
  then show ?thesis using f len s(1,5,6) by (auto simp: SSHKeyBody_iff)
qed

text \<open>C29. The normal form of a host key is canonical: reading it again gives it back, and two
  lines have the same normal form exactly when they name the same key type and the same key
  bytes, whatever their spacing and comments.\<close>

theorem SSHKeyBody_canonical:
  assumes "SSHKeyBody on_curve a = Some x" "SSHKeyBody on_curve b = Some y"
  shows "SSHKeyBody on_curve x = Some x \<and>
     (x = y \<longleftrightarrow> Fields a ! 0 = Fields b ! 0 \<and> b64_decode True (Fields a ! 1) = b64_decode True (Fields b ! 1)) \<and>
     (SameSSHKey on_curve a b \<longleftrightarrow> x = y)"
proof -
  obtain k blob where a: "Fields a ! 0 = k" "Fields a ! 1 = b64_encode blob" "sshPublicKeyBlob on_curve k blob" "x = k @ '' '' @ b64_encode blob"
    using assms(1) unfolding SSHKeyBody_iff by auto
  obtain l blob' where b: "Fields b ! 0 = l" "Fields b ! 1 = b64_encode blob'" "sshPublicKeyBlob on_curve l blob'" "y = l @ '' '' @ b64_encode blob'"
    using assms(2) unfolding SSHKeyBody_iff by auto
  have split: "takeWhile (\<lambda>c. c \<noteq> CHR '' '') (t @ '' '' @ u) = t" if "plain_ascii t" for t u
    using that by (induction t) (auto simp: plain_ascii_def ascii_space_def)
  have "k = l \<and> blob = blob'" if "x = y"
  proof -
    have "k = l" using split [of k] split [of l] key_type_plain [OF a(3)] key_type_plain [OF b(3)] that a(4) b(4) by metis
    then have "b64_encode blob = b64_encode blob'" using that a(4) b(4) by simp
    then show ?thesis using \<open>k = l\<close> b64_decode_encode by (metis option.inject)
  qed
  then have "x = y \<longleftrightarrow> k = l \<and> blob = blob'" using a(4) b(4) by blast
  then show ?thesis using a(1,2) b(1,2) SSHKeyBody_idem [OF assms(1)] assms by (simp add: SameSSHKey_def)
qed

definition sample_key :: string where
  "sample_key = ''ssh-ed25519 '' @ b64_encode
     ([nul, nul, nul, CHR 0x0B] @ ''ssh-ed25519'' @ [nul, nul, nul, CHR 0x20] @ replicate 32 (CHR 0x07))"

lemma length_b64_encode: "length (b64_encode x) = 4 * ((length x + 2) div 3)"
proof (induction x rule: b64_encode.induct)
  case (4 a b c xs)
  have "(length xs + 5) div 3 = Suc ((length xs + 2) div 3)" by presburger
  with 4 show ?case by (simp add: add.commute)
qed simp_all

lemma sample_key_body:
  assumes "pre = '''' \<or> pre = '' ''" "post = '''' \<or> post = '' laptop''"
  shows "SSHKeyBody (\<lambda>_ _. False) (pre @ sample_key @ post) = Some sample_key"
proof -
  define blob where "blob = [nul, nul, nul, CHR 0x0B] @ ''ssh-ed25519'' @ [nul, nul, nul, CHR 0x20] @ replicate 32 (CHR 0x07)"
  have key: "sample_key = ''ssh-ed25519'' @ '' '' @ b64_encode blob" by (simp add: sample_key_def blob_def)
  have "length blob = 51" by (simp add: blob_def)
  then have enc_len: "length (b64_encode blob) = 68" by (simp add: length_b64_encode)
  then have len: "length sample_key = 80" by (simp add: key)
  have ok: "sshPublicKeyBlob (\<lambda>_ _. False) ''ssh-ed25519'' blob" unfolding blob_def by code_simp
  have enc: "plain_ascii (b64_encode blob)" "b64_encode blob \<noteq> []" "plain_ascii ''ssh-ed25519''"
    using b64_encode_plain [of blob] key_type_plain [OF ok] enc_len by auto
  have nl: "c \<notin> set (pre @ sample_key @ post)" if "c = CHR 0x0D \<or> c = CHR 0x0A" for c
    using b64_encode_no_newline [of c blob] assms that by (auto simp: key)
  have start: "fields_loop [] (pre @ u) = fields_loop [] u" for u using assms(1) by (auto simp: space_at_def ascii_space_def)
  have mid: "fields_loop [] (''ssh-ed25519'' @ '' '' @ u) = ''ssh-ed25519'' # fields_loop [] u" for u
    unfolding fields_loop_plain [OF enc(3)] by (simp add: space_at_def ascii_space_def)
  have tail: "fields_loop [] (b64_encode blob @ post) = b64_encode blob # (if post = '''' then [] else [''laptop''])"
  proof (cases "post = ''''")
    case False
    have lap: "plain_ascii ''laptop''" by code_simp
    have "fields_loop (b64_encode blob) ('' '' @ ''laptop'') = [b64_encode blob] @ fields_loop [] ''laptop''"
      using enc(2) by (simp add: space_at_def ascii_space_def)
    then show ?thesis
      using False assms(2) fields_loop_plain [OF enc(1), of "[]" post] fields_loop_plain [OF lap, of "[]" "[]"] by simp
  qed (use fields_loop_plain [OF enc(1), of "[]" "[]"] enc(2) in simp)
  have "Fields (pre @ sample_key @ post) = ''ssh-ed25519'' # b64_encode blob # (if post = '''' then [] else [''laptop''])"
    unfolding Fields_def key append_assoc start mid tail ..
  moreover have "length (pre @ sample_key @ post) \<le> 16384" using len assms by auto
  ultimately show ?thesis
    using ok nl key unfolding SSHKeyBody_iff by metis
qed

theorem SSHKeyBody_canonical_witness:
  "SSHKeyBody (\<lambda>_ _. False) (sample_key @ '' laptop'') = Some sample_key \<and>
   SSHKeyBody (\<lambda>_ _. False) ('' '' @ sample_key) = Some sample_key \<and>
   SameSSHKey (\<lambda>_ _. False) (sample_key @ '' laptop'') ('' '' @ sample_key)"
proof -
  have a: "SSHKeyBody (\<lambda>_ _. False) (sample_key @ '' laptop'') = Some sample_key"
    using sample_key_body [of "''''" "'' laptop''"] by simp
  have b: "SSHKeyBody (\<lambda>_ _. False) ('' '' @ sample_key) = Some sample_key"
    using sample_key_body [of "'' ''" "''''"] by simp
  show ?thesis using SSHKeyBody_canonical [OF a b] a b by simp
qed

subsection \<open>What a target may be\<close>

text \<open>The grammar of the comment on \<open>CheckPeerTransport\<close>: an ssh_config host or \<open>user@host\<close>, an
  absolute path or nothing, an http(s) base URL.\<close>

definition ssh_name :: "string \<Rightarrow> bool" where
  "ssh_name s \<longleftrightarrow> s \<noteq> '''' \<and> set s \<inter> set ('' :/?#@'' @ [CHR 0x09, CHR 0x0D, CHR 0x0A]) = {}"

definition ssh_destination :: "string \<Rightarrow> bool" where
  "ssh_destination s \<longleftrightarrow> ssh_name s \<or> (\<exists>user host. s = user @ ''@'' @ host \<and> ssh_name user \<and> ssh_name host)"

definition absolute_or_empty :: "string \<Rightarrow> bool" where
  "absolute_or_empty s \<longleftrightarrow> s = '''' \<or> prefix ''/'' s"

definition base_url :: "(string \<Rightarrow> url option) \<Rightarrow> string \<Rightarrow> bool" where
  "base_url parse s \<longleftrightarrow> (\<exists>u. parse s = Some u \<and> Host u \<noteq> '''' \<and> \<not> has_User u \<and> RawQuery u = '''' \<and> Fragment u = '''' \<and>
     Scheme u \<in> {''http'', ''https''})"

definition usable_target :: "(string \<Rightarrow> url option) \<Rightarrow> (string \<Rightarrow> bytes \<Rightarrow> bool) \<Rightarrow> lease_target \<Rightarrow> bool" where
  "usable_target parse on_curve t \<longleftrightarrow>
     (target_SSH t = '''' \<and> target_URL t \<noteq> '''' \<and> base_url parse (target_URL t) \<and>
        RemoteCommand t = '''' \<and> RemoteSocket t = '''' \<and> HostKey t = '''') \<or>
     (target_URL t = '''' \<and> ssh_destination (target_SSH t) \<and> absolute_or_empty (RemoteCommand t) \<and>
        absolute_or_empty (RemoteSocket t) \<and> (HostKey t = '''' \<or> SSHKeyBody on_curve (HostKey t) \<noteq> None))"

text \<open>The rule an error stands for is broken.\<close>

fun breaks_rule :: "(string \<Rightarrow> url option) \<Rightarrow> (string \<Rightarrow> bytes \<Rightarrow> bool) \<Rightarrow> lease_target \<Rightarrow> target_error \<Rightarrow> bool" where
  "breaks_rule parse on_curve t BothTransports \<longleftrightarrow> target_URL t \<noteq> '''' \<and> target_SSH t \<noteq> ''''"
| "breaks_rule parse on_curve t BadSSH \<longleftrightarrow> target_SSH t \<noteq> '''' \<and> \<not> ssh_destination (target_SSH t)"
| "breaks_rule parse on_curve t BadRemoteSocket \<longleftrightarrow> \<not> absolute_or_empty (RemoteSocket t)"
| "breaks_rule parse on_curve t BadRemoteCommand \<longleftrightarrow> \<not> absolute_or_empty (RemoteCommand t)"
| "breaks_rule parse on_curve t RemoteNeedsSSH \<longleftrightarrow> target_SSH t = '''' \<and> (RemoteCommand t \<noteq> '''' \<or> RemoteSocket t \<noteq> '''')"
| "breaks_rule parse on_curve t BadURL \<longleftrightarrow> target_URL t \<noteq> '''' \<and> \<not> base_url parse (target_URL t)"
| "breaks_rule parse on_curve t NoTransport \<longleftrightarrow> target_URL t = '''' \<and> target_SSH t = ''''"
| "breaks_rule parse on_curve t HostKeyNeedsSSH \<longleftrightarrow> target_SSH t = '''' \<and> HostKey t \<noteq> ''''"
| "breaks_rule parse on_curve t BadHostKey \<longleftrightarrow> HostKey t \<noteq> '''' \<and> SSHKeyBody on_curve (HostKey t) = None"

lemma at_parts:
  "length (filter (\<lambda>c. c = CHR ''@'') s) \<le> 1 \<longleftrightarrow>
     CHR ''@'' \<notin> set s \<or> (\<exists>a b. s = a @ ''@'' @ b \<and> CHR ''@'' \<notin> set a \<and> CHR ''@'' \<notin> set b)"
proof (cases "CHR ''@'' \<in> set s")
  case True
  then obtain a b where s: "s = a @ CHR ''@'' # b" "CHR ''@'' \<notin> set a" by (meson split_list_first)
  have "filter (\<lambda>c. c = CHR ''@'') a = []" using s(2) by (auto simp: filter_empty_conv)
  then have "length (filter (\<lambda>c. c = CHR ''@'') s) \<le> 1 \<longleftrightarrow> filter (\<lambda>c. c = CHR ''@'') b = []" by (simp add: s(1))
  also have "\<dots> \<longleftrightarrow> CHR ''@'' \<notin> set b" by (auto simp: filter_empty_conv)
  finally show ?thesis using s True
    by (metis (no_types, lifting) append_Cons append_Cons_eq_iff append_Nil)
next
  case False
  then have "filter (\<lambda>c. c = CHR ''@'') s = []" by (auto simp: filter_empty_conv)
  then show ?thesis using False by simp
qed

lemma ssh_guard:
  assumes "s \<noteq> ''''"
  shows "\<not> (contains_any s ('' :/?#'' @ [CHR 0x09, CHR 0x0D, CHR 0x0A]) \<or> has_prefix s ''@'' \<or> has_suffix s ''@'' \<or>
      length (filter (\<lambda>c. c = CHR ''@'') s) > 1) \<longleftrightarrow> ssh_destination s"
proof -
  let ?bad = "set ('' :/?#'' @ [CHR 0x09, CHR 0x0D, CHR 0x0A])"
  have name: "ssh_name x \<longleftrightarrow> x \<noteq> '''' \<and> set x \<inter> ?bad = {} \<and> CHR ''@'' \<notin> set x" for x by (auto simp: ssh_name_def)
  have any: "contains_any s ('' :/?#'' @ [CHR 0x09, CHR 0x0D, CHR 0x0A]) \<longleftrightarrow> set s \<inter> ?bad \<noteq> {}"
    by (auto simp: contains_any_def list_ex_iff)
  show ?thesis
  proof (cases "CHR ''@'' \<in> set s")
    case False
    then have "\<not> has_prefix s ''@''" "\<not> has_suffix s ''@''" by (auto simp: has_prefix_def has_suffix_def prefix_def suffix_def)
    moreover have "filter (\<lambda>c. c = CHR ''@'') s = []" using False by (auto simp: filter_empty_conv)
    moreover have "\<not> (\<exists>user host. s = user @ ''@'' @ host)" using False by auto
    ultimately show ?thesis using assms False unfolding any ssh_destination_def name by simp
  next
    case True
    have at: "CHR ''@'' \<notin> ?bad" by simp
    have "\<not> (set s \<inter> ?bad \<noteq> {} \<or> has_prefix s ''@'' \<or> has_suffix s ''@'' \<or> length (filter (\<lambda>c. c = CHR ''@'') s) > 1) \<longleftrightarrow>
        (\<exists>a b. s = a @ ''@'' @ b \<and> ssh_name a \<and> ssh_name b)" (is "?l \<longleftrightarrow> ?r")
    proof
      assume l: ?l
      then obtain a b where ab: "s = a @ ''@'' @ b" "CHR ''@'' \<notin> set a" "CHR ''@'' \<notin> set b"
        using at_parts [of s] True by auto
      have "a \<noteq> ''''" using l ab(1) by (auto simp: has_prefix_def)
      moreover have "b \<noteq> ''''" using l ab(1) by (auto simp: has_suffix_def suffix_def)
      ultimately show ?r using l ab by (auto simp: name)
    next
      assume ?r
      then obtain a b where ab: "s = a @ ''@'' @ b" "ssh_name a" "ssh_name b" by blast
      then have "\<not> has_prefix s ''@''" "\<not> has_suffix s ''@''"
        by (cases a; cases b rule: rev_cases; auto simp: name has_prefix_def has_suffix_def suffix_def)+
      moreover have "length (filter (\<lambda>c. c = CHR ''@'') s) \<le> 1" using ab unfolding at_parts name by blast
      moreover have "set s \<inter> ?bad = {}" using ab at by (auto simp: name)
      ultimately show ?l by simp
    qed
    then show ?thesis using True unfolding any ssh_destination_def by (auto simp: name)
  qed
qed

lemma CheckPeerTransport_spec:
  "CheckPeerTransport parse rawURL ssh cmd sock =
     (if rawURL \<noteq> '''' \<and> ssh \<noteq> '''' then Inl BothTransports
      else if ssh \<noteq> '''' then
        if \<not> ssh_destination ssh then Inl BadSSH
        else if \<not> absolute_or_empty sock then Inl BadRemoteSocket
        else if \<not> absolute_or_empty cmd then Inl BadRemoteCommand
        else Inr ()
      else if cmd \<noteq> '''' \<or> sock \<noteq> '''' then Inl RemoteNeedsSSH
      else if base_url parse rawURL then Inr () else Inl BadURL)"
proof (cases "ssh = ''''")
  case True
  then show ?thesis by (cases "parse rawURL") (auto simp: CheckPeerTransport_def base_url_def)
next
  case False
  have abs: "absolute_or_empty x \<longleftrightarrow> \<not> (x \<noteq> '''' \<and> \<not> has_prefix x ''/'')" for x
    by (auto simp: absolute_or_empty_def has_prefix_def)
  show ?thesis unfolding CheckPeerTransport_def abs ssh_guard [OF False, symmetric] using False by simp
qed

text \<open>C28. The check accepts exactly the targets the documentation allows: an http or https base URL
  without user, query or fragment and nothing else, or an SSH host or \<open>user@host\<close>, free of
  separators and white space, with absolute remote paths if any and a host key, if any, that
  parses. And an error always names a rule the target breaks.\<close>

theorem LeaseTarget_Check_exact:
  "(LeaseTarget_Check parse on_curve t = Inr () \<longleftrightarrow> usable_target parse on_curve t) \<and>
   (\<forall>e. LeaseTarget_Check parse on_curve t = Inl e \<longrightarrow> breaks_rule parse on_curve t e)"
proof -
  have "ssh_destination s \<Longrightarrow> s \<noteq> ''''" for s by (auto simp: ssh_destination_def ssh_name_def)
  then have "LeaseTarget_Check parse on_curve t = Inr () \<longleftrightarrow> usable_target parse on_curve t"
    by (auto simp: LeaseTarget_Check_def CheckPeerTransport_spec usable_target_def absolute_or_empty_def split: if_splits)
  moreover have "breaks_rule parse on_curve t e" if "LeaseTarget_Check parse on_curve t = Inl e" for e
    using that by (auto simp: LeaseTarget_Check_def CheckPeerTransport_spec split: if_splits)
  ultimately show ?thesis by blast
qed

theorem LeaseTarget_Check_exact_witness:
  "usable_target (\<lambda>_. None) (\<lambda>_ _. False)
     \<lparr>target_URL = '''', target_SSH = ''me@host'', RemoteCommand = ''/bin/errand'', RemoteSocket = '''', HostKey = sample_key\<rparr> \<and>
   breaks_rule (\<lambda>_. None) (\<lambda>_ _. False)
     \<lparr>target_URL = '''', target_SSH = ''a@b@c'', RemoteCommand = '''', RemoteSocket = '''', HostKey = ''''\<rparr> BadSSH"
proof -
  let ?t = "\<lparr>target_URL = '''', target_SSH = ''me@host'', RemoteCommand = ''/bin/errand'', RemoteSocket = '''', HostKey = sample_key\<rparr>"
  let ?u = "\<lparr>target_URL = '''', target_SSH = ''a@b@c'', RemoteCommand = '''', RemoteSocket = '''', HostKey = ''''\<rparr>"
  have key: "SSHKeyBody (\<lambda>_ _. False) sample_key = Some sample_key" using sample_key_body [of "''''" "''''"] by simp
  have "CheckPeerTransport (\<lambda>_. None) '''' ''me@host'' ''/bin/errand'' '''' = Inr ()" by code_simp
  then have "LeaseTarget_Check (\<lambda>_. None) (\<lambda>_ _. False) ?t = Inr ()" by (simp add: LeaseTarget_Check_def key)
  moreover have "LeaseTarget_Check (\<lambda>_. None) (\<lambda>_ _. False) ?u = Inl BadSSH" by code_simp
  ultimately show ?thesis
    using LeaseTarget_Check_exact [of "\<lambda>_. None" "\<lambda>_ _. False" ?t] LeaseTarget_Check_exact [of "\<lambda>_. None" "\<lambda>_ _. False" ?u] by blast
qed

end
