(* ===== verification/Placement.thy ===== *)
theory Placement
  imports Lease_Target Manifest_Json
begin

text \<open>
  \<open>internal/placement/requirements.go\<close>: what a job asks of a runner. A selector is parsed into
  requirements and matched against the facts a runner reports. The two ranking functions
  compare floating-point numbers and are not modelled. \<open>GiB\<close> rounds a \<open>float64\<close>, which is
  exact below $2^{53}$ MiB.
\<close>

subsection \<open>Strings and numbers\<close>

function trim_left_space :: "string \<Rightarrow> string" where
  "trim_left_space s = (if space_at s = 0 then s else trim_left_space (drop (space_at s) s))"
  by pat_completeness auto
termination
proof (relation "measure length")
  fix s :: string
  assume "space_at s \<noteq> 0"
  then have "s \<noteq> []" by (auto simp: space_at_def)
  with \<open>space_at s \<noteq> 0\<close> show "(drop (space_at s) s, s) \<in> measure length" by (cases s) auto
qed simp

declare trim_left_space.simps [simp del]

definition space_before :: "string \<Rightarrow> nat" where
  "space_before s =
     (case filter (\<lambda>k. k \<le> length s \<and> space_at (drop (length s - k) s) = k) [1, 2, 3] of [] \<Rightarrow> 0 | k # _ \<Rightarrow> k)"

function trim_right_space :: "string \<Rightarrow> string" where
  "trim_right_space s =
     (if space_before s = 0 then s else trim_right_space (take (length s - space_before s) s))"
  by pat_completeness auto
termination
proof (relation "measure length")
  fix s :: string
  assume k: "space_before s \<noteq> 0"
  have "space_before s \<le> length s"
    by (auto simp: space_before_def split: list.splits dest!: arg_cong [where f = set])
  with k show "(take (length s - space_before s) s, s) \<in> measure length" by (cases s) auto
qed simp

declare trim_right_space.simps [simp del]

definition TrimSpace :: "string \<Rightarrow> string" where
  "TrimSpace s = trim_right_space (trim_left_space s)"

definition digit_value :: "char \<Rightarrow> int" where
  "digit_value c = int (byte_of c) - 48"

definition Atoi :: "string \<Rightarrow> int option" where
  "Atoi s =
     (let neg = has_prefix s ''-'';
          digits = (if neg \<or> has_prefix s ''+'' then tl s else s);
          n = fold (\<lambda>c n. 10 * n + digit_value c) digits 0;
          v = (if neg then - n else n)
      in if digits = [] \<or> \<not> list_all is_digit digits \<or> v > MaxInt64 \<or> v < - MaxInt64 - 1 then None else Some v)"

text \<open>The width of the valid UTF-8 sequence at the front of a string; 0 if there is none.\<close>

definition cont :: "nat \<Rightarrow> nat \<Rightarrow> string \<Rightarrow> nat \<Rightarrow> bool" where
  "cont lo hi s i \<longleftrightarrow> i < length s \<and> lo \<le> byte_of (s ! i) \<and> byte_of (s ! i) \<le> hi"

definition rune_width :: "string \<Rightarrow> nat" where
  "rune_width s =
     (case s of
        [] \<Rightarrow> 0
      | c # _ \<Rightarrow>
          let b = byte_of c :: nat; any = cont 128 191 s in
          if b < 128 then 1
          else if 194 \<le> b \<and> b \<le> 223 \<and> any 1 then 2
          else if ((b = 224 \<and> cont 160 191 s 1) \<or> (225 \<le> b \<and> b \<le> 236 \<and> any 1) \<or> (b = 237 \<and> cont 128 159 s 1) \<or>
                   (238 \<le> b \<and> b \<le> 239 \<and> any 1)) \<and> any 2 then 3
          else if ((b = 240 \<and> cont 144 191 s 1) \<or> (241 \<le> b \<and> b \<le> 243 \<and> any 1) \<or> (b = 244 \<and> cont 128 143 s 1)) \<and>
                  any 2 \<and> any 3 then 4
          else 0)"

text \<open>\<open>strings.Map\<close> drops, folds or keeps a rune; a byte that is not part of a valid rune becomes
  the encoding of \<open>U+FFFD\<close>.\<close>

function normalizeGPUName :: "string \<Rightarrow> string" where
  "normalizeGPUName [] = []"
| "normalizeGPUName (c # cs) =
     (let w = rune_width (c # cs) in
      if w = 0 then [CHR 0xEF, CHR 0xBF, CHR 0xBD] @ normalizeGPUName cs
      else if c \<in> {CHR '' '', CHR ''-'', CHR ''_''} then normalizeGPUName cs
      else if CHR ''A'' \<le> c \<and> c \<le> CHR ''Z'' then char_of (byte_of c + 32 :: nat) # normalizeGPUName cs
      else take w (c # cs) @ normalizeGPUName (drop w (c # cs)))"
  by pat_completeness auto
termination
  by (relation "measure length") auto

subsection \<open>Requirements\<close>

record Requirements =
  req_OS :: string
  req_Arch :: string
  CPUs :: int
  KVM :: bool
  req_Tools :: "string list"
  req_GPU :: bool
  req_GPUs :: int
  GPUModel :: string
  VRAMGiB :: int

definition no_requirements :: Requirements where
  "no_requirements = \<lparr>req_OS = '''', req_Arch = '''', CPUs = 0, KVM = False, req_Tools = [], req_GPU = False,
     req_GPUs = 0, GPUModel = '''', VRAMGiB = 0\<rparr>"

definition Any :: "Requirements \<Rightarrow> bool" where
  "Any q \<longleftrightarrow> req_OS q = '''' \<and> req_Arch q = '''' \<and> CPUs q = 0 \<and> \<not> KVM q \<and> req_Tools q = [] \<and> \<not> req_GPU q"

datatype where_error =
    NoSelector
  | BadOS string
  | BadArch string
  | BadCPUs string
  | BadGPUCount string
  | BadGPUModel string
  | BadVRAM string
  | UnknownTerm string

definition known_tools :: "string list" where
  "known_tools = [''git'', ''nix'', ''docker'', ''podman'', ''python3'', ''go'', ''cargo'', ''node'']"

definition at_least :: "string \<Rightarrow> string \<Rightarrow> int \<Rightarrow> int \<Rightarrow> int option" where
  "at_least term prefx most old =
     (case Atoi (trim_prefix term prefx) of
        None \<Rightarrow> None
      | Some n \<Rightarrow> if n < 1 \<or> n > most \<or> old \<noteq> 0 then None else Some n)"

definition alnum :: string where
  "alnum = ''abcdefghijklmnopqrstuvwxyz0123456789''"

definition parse_term :: "string \<Rightarrow> Requirements \<Rightarrow> where_error + Requirements" where
  "parse_term term q =
     (if has_prefix term ''os='' then
        let v = trim_prefix term ''os=''
        in if req_OS q \<noteq> '''' \<or> (v \<noteq> ''linux'' \<and> v \<noteq> ''darwin'' \<and> v \<noteq> ''windows'') then Inl (BadOS term)
           else Inr (q\<lparr>req_OS := v\<rparr>)
      else if has_prefix term ''arch='' then
        let v = trim_prefix term ''arch=''
        in if req_Arch q \<noteq> '''' \<or> (v \<noteq> ''amd64'' \<and> v \<noteq> ''arm64'') then Inl (BadArch term)
           else Inr (q\<lparr>req_Arch := v\<rparr>)
      else if has_prefix term ''cpus>='' then
        (case at_least term ''cpus>='' 1048576 (CPUs q) of None \<Rightarrow> Inl (BadCPUs term) | Some n \<Rightarrow> Inr (q\<lparr>CPUs := n\<rparr>))
      else if term = ''kvm'' then Inr (q\<lparr>KVM := True\<rparr>)
      else if term = ''gpu'' then Inr (q\<lparr>req_GPU := True\<rparr>)
      else if has_prefix term ''gpus>='' then
        (case at_least term ''gpus>='' 1024 (req_GPUs q) of
           None \<Rightarrow> Inl (BadGPUCount term) | Some n \<Rightarrow> Inr (q\<lparr>req_GPU := True, req_GPUs := n\<rparr>))
      else if has_prefix term ''gpu='' then
        let v = normalizeGPUName (trim_prefix term ''gpu='')
        in if v = '''' \<or> length v > 64 \<or> GPUModel q \<noteq> '''' \<or> trim_right (trim_left v alnum) alnum \<noteq> ''''
           then Inl (BadGPUModel term)
           else Inr (q\<lparr>req_GPU := True, GPUModel := v\<rparr>)
      else if has_prefix term ''vram>='' then
        (case at_least term ''vram>='' 65536 (VRAMGiB q) of
           None \<Rightarrow> Inl (BadVRAM term) | Some n \<Rightarrow> Inr (q\<lparr>req_GPU := True, VRAMGiB := n\<rparr>))
      else if term \<in> set known_tools then Inr (q\<lparr>req_Tools := req_Tools q @ [term]\<rparr>)
      else Inl (UnknownTerm term))"

fun parse_terms :: "string set \<Rightarrow> Requirements \<Rightarrow> string list \<Rightarrow> where_error + Requirements" where
  "parse_terms seen q [] = Inr q"
| "parse_terms seen q (t # ts) =
     (let term = TrimSpace t
      in if term \<in> seen then parse_terms seen q ts
         else bind_res (parse_term term q) (\<lambda>q'. parse_terms (insert term seen) q' ts))"

definition Parse :: "string \<Rightarrow> where_error + Requirements" where
  "Parse s =
     (if s = ''*'' then Inr no_requirements
      else if length s = 0 \<or> length s > 1024 then Inl NoSelector
      else parse_terms {} no_requirements (split_on CHR '','' s))"

subsection \<open>Matching\<close>

record GPU =
  gpu_Name :: string
  MemoryMiB :: int

record Facts =
  fact_OS :: string
  fact_Arch :: string
  NumCPU :: int
  fact_KVM :: bool
  fact_Tools :: "string \<Rightarrow> string"
  ToolErrors :: "string \<Rightarrow> string"
  fact_GPUs :: "GPU list"

definition GiB :: "int \<Rightarrow> int" where
  "GiB mib = (if mib \<ge> 0 then (mib + 512) div 1024 else - ((512 - mib) div 1024))"

definition describe_gpu :: "GPU list \<Rightarrow> GPU \<Rightarrow> string" where
  "describe_gpu gpus g =
     decimal (length (filter (\<lambda>x. x = g) gpus)) @ ''x '' @ gpu_Name g @
     (if MemoryMiB g > 0 then '' ('' @ FormatInt (GiB (MemoryMiB g)) @ '' GiB)'' else '''')"

text \<open>\<open>join_words\<close> is \<open>strings.Join\<close>.\<close>

fun join_words :: "string \<Rightarrow> string list \<Rightarrow> string" where
  "join_words sep [] = ''''"
| "join_words sep [p] = p"
| "join_words sep (p # ps) = p @ sep @ join_words sep ps"

fun describe_new :: "GPU list \<Rightarrow> GPU set \<Rightarrow> GPU list \<Rightarrow> string list" where
  "describe_new gpus seen [] = []"
| "describe_new gpus seen (g # gs) =
     (if g \<in> seen then describe_new gpus seen gs
      else describe_gpu gpus g # describe_new gpus (insert g seen) gs)"

definition DescribeGPUs :: "GPU list \<Rightarrow> string" where
  "DescribeGPUs gpus = (if gpus = [] then ''none'' else join_words '', '' (describe_new gpus {} gpus))"

definition gpu_matches :: "Requirements \<Rightarrow> GPU \<Rightarrow> bool" where
  "gpu_matches q g \<longleftrightarrow>
     \<not> (GPUModel q \<noteq> '''' \<and> \<not> sublist (GPUModel q) (normalizeGPUName (gpu_Name g))) \<and>
     \<not> (VRAMGiB q > 0 \<and> GiB (MemoryMiB g) < VRAMGiB q)"

definition missingGPUs :: "Requirements \<Rightarrow> GPU list \<Rightarrow> string" where
  "missingGPUs q gpus =
     (let need = max (req_GPUs q) 1;
          matched = int (length (filter (gpu_matches q) gpus))
      in if matched \<ge> need then ''''
         else
           let want = FormatInt need @ '' GPU'' @ (if need \<noteq> 1 then ''s'' else '''') @
                 (if GPUModel q \<noteq> '''' then '' matching '' @ GPUModel q else '''') @
                 (if VRAMGiB q > 0 then '' with '' @ FormatInt (VRAMGiB q) @ '' GiB'' else '''')
           in ''requires '' @ want @ '' (has '' @ DescribeGPUs gpus @ '')'')"

definition Missing :: "Requirements \<Rightarrow> Facts \<Rightarrow> string list" where
  "Missing q f =
     (if req_OS q \<noteq> '''' \<and> req_OS q \<noteq> fact_OS f then [''requires os='' @ req_OS q] else []) @
     (if req_Arch q \<noteq> '''' \<and> req_Arch q \<noteq> fact_Arch f then [''requires arch='' @ req_Arch q] else []) @
     (if CPUs q > NumCPU f
      then [''requires cpus>='' @ FormatInt (CPUs q) @ '' (has '' @ FormatInt (NumCPU f) @ '')''] else []) @
     (if KVM q \<and> \<not> fact_KVM f then [''requires usable kvm''] else []) @
     (if req_GPU q \<and> missingGPUs q (fact_GPUs f) \<noteq> '''' then [missingGPUs q (fact_GPUs f)] else []) @
     map (\<lambda>tool. ''requires usable '' @ tool @
            (if ToolErrors f tool \<noteq> '''' then '': '' @ ToolErrors f tool else ''''))
       (filter (\<lambda>tool. fact_Tools f tool = '''') (req_Tools q))"

subsection \<open>What a selector means\<close>

text \<open>The reference meaning of a selector is given by its terms alone, in any order: each term
  about the machine holds of the facts by itself, and the GPU terms together ask for that many
  GPUs that each meet every model and memory term.\<close>

datatype where_term =
    TOS string
  | TArch string
  | TCPUs int
  | TKVM
  | TGPU
  | TGPUs int
  | TModel string
  | TVRAM int
  | TTool string

definition read_term :: "string \<Rightarrow> where_term option" where
  "read_term t =
     (if has_prefix t ''os='' then Some (TOS (drop 3 t))
      else if has_prefix t ''arch='' then Some (TArch (drop 5 t))
      else if has_prefix t ''cpus>='' then map_option TCPUs (Atoi (drop 6 t))
      else if t = ''kvm'' then Some TKVM
      else if t = ''gpu'' then Some TGPU
      else if has_prefix t ''gpus>='' then map_option TGPUs (Atoi (drop 6 t))
      else if has_prefix t ''gpu='' then Some (TModel (normalizeGPUName (drop 4 t)))
      else if has_prefix t ''vram>='' then map_option TVRAM (Atoi (drop 6 t))
      else if t \<in> set known_tools then Some (TTool t) else None)"

definition selector_terms :: "string \<Rightarrow> where_term set" where
  "selector_terms s = (if s = ''*'' then {} else {a. Some a \<in> (read_term \<circ> TrimSpace) ` set (split_on CHR '','' s)})"

fun machine_term_holds :: "Facts \<Rightarrow> where_term \<Rightarrow> bool" where
  "machine_term_holds f (TOS v) \<longleftrightarrow> fact_OS f = v"
| "machine_term_holds f (TArch v) \<longleftrightarrow> fact_Arch f = v"
| "machine_term_holds f (TCPUs n) \<longleftrightarrow> n \<le> NumCPU f"
| "machine_term_holds f TKVM \<longleftrightarrow> fact_KVM f"
| "machine_term_holds f (TTool t) \<longleftrightarrow> fact_Tools f t \<noteq> ''''"
| "machine_term_holds f _ \<longleftrightarrow> True"

fun gpu_term :: "where_term \<Rightarrow> bool" where
  "gpu_term TGPU \<longleftrightarrow> True"
| "gpu_term (TGPUs n) \<longleftrightarrow> True"
| "gpu_term (TModel m) \<longleftrightarrow> True"
| "gpu_term (TVRAM n) \<longleftrightarrow> True"
| "gpu_term _ \<longleftrightarrow> False"

fun gpu_term_holds :: "GPU \<Rightarrow> where_term \<Rightarrow> bool" where
  "gpu_term_holds g (TModel m) \<longleftrightarrow> sublist m (normalizeGPUName (gpu_Name g))"
| "gpu_term_holds g (TVRAM n) \<longleftrightarrow> n \<le> GiB (MemoryMiB g)"
| "gpu_term_holds g _ \<longleftrightarrow> True"

definition gpus_hold :: "where_term set \<Rightarrow> GPU list \<Rightarrow> bool" where
  "gpus_hold T gpus \<longleftrightarrow>
     (let good = int (length (filter (\<lambda>g. \<forall>a \<in> T. gpu_term_holds g a) gpus))
      in (\<forall>a \<in> T. gpu_term a \<longrightarrow> 1 \<le> good) \<and> (\<forall>n. TGPUs n \<in> T \<longrightarrow> n \<le> good))"

lemma has_prefix_iff: "has_prefix s p \<longleftrightarrow> (\<exists>v. s = p @ v)"
  by (auto simp: has_prefix_def prefix_def)

lemma at_least_Some:
  "at_least term p most old = Some n \<longleftrightarrow> Atoi (trim_prefix term p) = Some n \<and> 1 \<le> n \<and> n \<le> most \<and> old = 0"
  by (auto simp: at_least_def split: option.splits if_splits)

text \<open>One accepted term, by the branch of the switch that took it.\<close>

inductive term_adds :: "Requirements \<Rightarrow> where_term \<Rightarrow> Requirements \<Rightarrow> bool" where
  os: "v = ''linux'' \<or> v = ''darwin'' \<or> v = ''windows'' \<Longrightarrow> req_OS q = '''' \<Longrightarrow> term_adds q (TOS v) (q\<lparr>req_OS := v\<rparr>)"
| arch: "v = ''amd64'' \<or> v = ''arm64'' \<Longrightarrow> req_Arch q = '''' \<Longrightarrow> term_adds q (TArch v) (q\<lparr>req_Arch := v\<rparr>)"
| cpus: "1 \<le> n \<Longrightarrow> n \<le> 1048576 \<Longrightarrow> CPUs q = 0 \<Longrightarrow> term_adds q (TCPUs n) (q\<lparr>CPUs := n\<rparr>)"
| kvm: "term_adds q TKVM (q\<lparr>KVM := True\<rparr>)"
| gpu: "term_adds q TGPU (q\<lparr>req_GPU := True\<rparr>)"
| gpus: "1 \<le> n \<Longrightarrow> n \<le> 1024 \<Longrightarrow> req_GPUs q = 0 \<Longrightarrow> term_adds q (TGPUs n) (q\<lparr>req_GPU := True, req_GPUs := n\<rparr>)"
| model: "m \<noteq> '''' \<Longrightarrow> length m \<le> 64 \<Longrightarrow> GPUModel q = '''' \<Longrightarrow> term_adds q (TModel m) (q\<lparr>req_GPU := True, GPUModel := m\<rparr>)"
| vram: "1 \<le> n \<Longrightarrow> n \<le> 65536 \<Longrightarrow> VRAMGiB q = 0 \<Longrightarrow> term_adds q (TVRAM n) (q\<lparr>req_GPU := True, VRAMGiB := n\<rparr>)"
| tool: "t \<in> set known_tools \<Longrightarrow> term_adds q (TTool t) (q\<lparr>req_Tools := req_Tools q @ [t]\<rparr>)"

lemma parse_term_adds: "parse_term t q = Inr q' \<Longrightarrow> \<exists>a. read_term t = Some a \<and> term_adds q a q'"
  unfolding parse_term_def read_term_def Let_def
  by (auto simp: has_prefix_iff trim_prefix_def at_least_Some not_less split: if_splits option.splits
      intro: term_adds.intros)

lemma read_term_tool: "read_term t = Some (TTool u) \<Longrightarrow> t = u"
  by (auto simp: read_term_def split: if_splits)

text \<open>What the requirements record of the terms read so far.\<close>

definition records :: "where_term set \<Rightarrow> Requirements \<Rightarrow> bool" where
  "records T q \<longleftrightarrow>
     (\<forall>v. TOS v \<in> T \<longleftrightarrow> v = req_OS q \<and> req_OS q \<noteq> '''') \<and> (\<forall>v. TArch v \<in> T \<longleftrightarrow> v = req_Arch q \<and> req_Arch q \<noteq> '''') \<and>
     (\<forall>n. TCPUs n \<in> T \<longleftrightarrow> n = CPUs q \<and> CPUs q \<noteq> 0) \<and> (TKVM \<in> T \<longleftrightarrow> KVM q) \<and>
     ((\<exists>a \<in> T. gpu_term a) \<longleftrightarrow> req_GPU q) \<and> (\<forall>n. TGPUs n \<in> T \<longleftrightarrow> n = req_GPUs q \<and> req_GPUs q \<noteq> 0) \<and>
     (\<forall>m. TModel m \<in> T \<longleftrightarrow> m = GPUModel q \<and> GPUModel q \<noteq> '''') \<and> (\<forall>n. TVRAM n \<in> T \<longleftrightarrow> n = VRAMGiB q \<and> VRAMGiB q \<noteq> 0) \<and>
     (\<forall>t. TTool t \<in> T \<longleftrightarrow> t \<in> set (req_Tools q))"

definition within_limits :: "Requirements \<Rightarrow> bool" where
  "within_limits q \<longleftrightarrow>
     req_OS q \<in> {'''', ''linux'', ''darwin'', ''windows''} \<and> req_Arch q \<in> {'''', ''amd64'', ''arm64''} \<and>
     0 \<le> CPUs q \<and> CPUs q \<le> 1048576 \<and> 0 \<le> req_GPUs q \<and> req_GPUs q \<le> 1024 \<and>
     0 \<le> VRAMGiB q \<and> VRAMGiB q \<le> 65536 \<and> length (GPUModel q) \<le> 64 \<and>
     distinct (req_Tools q) \<and> set (req_Tools q) \<subseteq> set known_tools \<and>
     (\<not> req_GPU q \<longrightarrow> req_GPUs q = 0 \<and> GPUModel q = '''' \<and> VRAMGiB q = 0)"

lemma start_ok [simp]: "records {} no_requirements" "within_limits no_requirements"
  by (auto simp: records_def within_limits_def no_requirements_def)

lemma term_adds_records: "term_adds q a q' \<Longrightarrow> records T q \<Longrightarrow> records (insert a T) q'"
  by (erule term_adds.cases; (elim disjE)?; simp add: records_def)

lemma term_adds_limits:
  "term_adds q a q' \<Longrightarrow> within_limits q \<Longrightarrow> \<forall>t. a = TTool t \<longrightarrow> t \<notin> set (req_Tools q) \<Longrightarrow> within_limits q'"
  by (erule term_adds.cases) (auto simp: within_limits_def)

lemma term_adds_not_Any: "term_adds q a q' \<Longrightarrow> \<not> Any q'"
  by (erule term_adds.cases) (auto simp: Any_def)

abbreviation readings :: "string set \<Rightarrow> where_term set" where
  "readings S \<equiv> {a. Some a \<in> read_term ` S}"

lemma parse_terms_ok:
  "\<lbrakk>parse_terms S q ts = Inr q'; records (readings S) q; within_limits q\<rbrakk>
    \<Longrightarrow> records (readings (S \<union> TrimSpace ` set ts)) q' \<and> within_limits q' \<and> (Any q' \<longrightarrow> Any q \<and> TrimSpace ` set ts \<subseteq> S)"
proof (induction S q ts rule: parse_terms.induct)
  case (2 S q t ts)
  show ?case
  proof (cases "TrimSpace t \<in> S")
    case True
    then show ?thesis using 2 by (simp add: Let_def insert_absorb)
  next
    case False
    with 2 obtain q1 where p: "parse_term (TrimSpace t) q = Inr q1" "parse_terms (insert (TrimSpace t) S) q1 ts = Inr q'"
      by (auto simp: Let_def bind_res_Inr_iff)
    then obtain a where a: "read_term (TrimSpace t) = Some a" "term_adds q a q1" using parse_term_adds by blast
    have r: "readings (insert (TrimSpace t) S) = insert a (readings S)" using a(1) by auto
    have "u \<notin> set (req_Tools q)" if "a = TTool u" for u
    proof
      assume "u \<in> set (req_Tools q)"
      with 2(4) have "TTool u \<in> readings S" unfolding records_def by blast
      then obtain s where "s \<in> S" "read_term s = Some (TTool u)" by fastforce
      with that a(1) False show False using read_term_tool by metis
    qed
    with a(2) 2(5) have lim: "within_limits q1" by (blast intro: term_adds_limits)
    have "records (readings (insert (TrimSpace t) S)) q1"
      unfolding r using a(2) 2(4) by (rule term_adds_records)
    from 2(2) [OF refl False p(2) this lim] term_adds_not_Any [OF a(2)] show ?thesis by auto
  qed
qed simp

lemma all_terms: "(\<forall>a. P a) \<longleftrightarrow> (\<forall>v. P (TOS v)) \<and> (\<forall>v. P (TArch v)) \<and> (\<forall>n. P (TCPUs n)) \<and> P TKVM \<and> P TGPU \<and>
    (\<forall>n. P (TGPUs n)) \<and> (\<forall>m. P (TModel m)) \<and> (\<forall>n. P (TVRAM n)) \<and> (\<forall>t. P (TTool t))"
  by (metis where_term.exhaust)

lemma records_member:
  assumes "records T q"
  shows "TOS v \<in> T \<longleftrightarrow> v = req_OS q \<and> req_OS q \<noteq> ''''" "TArch v \<in> T \<longleftrightarrow> v = req_Arch q \<and> req_Arch q \<noteq> ''''"
    "TCPUs n \<in> T \<longleftrightarrow> n = CPUs q \<and> CPUs q \<noteq> 0" "TKVM \<in> T \<longleftrightarrow> KVM q"
    "(\<exists>a \<in> T. gpu_term a) \<longleftrightarrow> req_GPU q" "TGPUs n \<in> T \<longleftrightarrow> n = req_GPUs q \<and> req_GPUs q \<noteq> 0"
    "TModel v \<in> T \<longleftrightarrow> v = GPUModel q \<and> GPUModel q \<noteq> ''''" "TVRAM n \<in> T \<longleftrightarrow> n = VRAMGiB q \<and> VRAMGiB q \<noteq> 0"
    "TTool v \<in> T \<longleftrightarrow> v \<in> set (req_Tools q)"
  using assms unfolding records_def by blast+

lemma gpu_matches_terms:
  assumes "records T q" "within_limits q"
  shows "gpu_matches q g \<longleftrightarrow> (\<forall>a \<in> T. gpu_term_holds g a)"
  using assms(2) by (auto simp: gpu_matches_def Ball_def all_terms records_member [OF assms(1)] within_limits_def)

lemma missingGPUs_empty:
  assumes "records T q" "within_limits q" "req_GPU q"
  shows "missingGPUs q gpus = '''' \<longleftrightarrow> gpus_hold T gpus"
proof -
  have "\<exists>a \<in> T. gpu_term a" using records_member(5) [OF assms(1)] assms(3) by blast
  then show ?thesis
    using assms(2) unfolding missingGPUs_def gpus_hold_def Let_def gpu_matches_terms [OF assms(1,2), abs_def]
    by (auto simp: records_member [OF assms(1)] within_limits_def)
qed

lemma gpus_hold_trivial: "\<not> (\<exists>a \<in> T. gpu_term a) \<Longrightarrow> gpus_hold T gpus"
  by (auto simp: gpus_hold_def Let_def dest: bspec)

lemma Missing_empty:
  assumes "records T q" "within_limits q" "0 \<le> NumCPU f"
  shows "Missing q f = [] \<longleftrightarrow> (\<forall>a \<in> T. machine_term_holds f a) \<and> gpus_hold T (fact_GPUs f)"
proof -
  have "(req_GPU q \<longrightarrow> missingGPUs q (fact_GPUs f) = '''') \<longleftrightarrow> gpus_hold T (fact_GPUs f)"
  proof (cases "req_GPU q")
    case False
    then have "\<not> (\<exists>a \<in> T. gpu_term a)" using records_member(5) [OF assms(1)] by blast
    then show ?thesis using False by (simp add: gpus_hold_trivial)
  qed (use missingGPUs_empty assms in blast)
  moreover have "(\<forall>a \<in> T. machine_term_holds f a) \<longleftrightarrow>
      (req_OS q = '''' \<or> fact_OS f = req_OS q) \<and> (req_Arch q = '''' \<or> fact_Arch f = req_Arch q) \<and> CPUs q \<le> NumCPU f \<and>
      (KVM q \<longrightarrow> fact_KVM f) \<and> (\<forall>t \<in> set (req_Tools q). fact_Tools f t \<noteq> '''')"
    using assms(2,3) by (auto simp: Ball_def all_terms records_member [OF assms(1)])
  ultimately show ?thesis by (auto simp: Missing_def filter_empty_conv)
qed

lemma Parse_ok:
  assumes "Parse s = Inr q"
  shows "records (selector_terms s) q \<and> within_limits q \<and> (Any q \<longleftrightarrow> s = ''*'')"
proof (cases "s = ''*''")
  case True
  then have "q = no_requirements" using assms by (simp add: Parse_def)
  with True show ?thesis by (simp add: selector_terms_def) (simp add: Any_def no_requirements_def)
next
  case False
  with assms have "parse_terms {} no_requirements (split_on CHR '','' s) = Inr q"
    by (simp add: Parse_def split: if_splits)
  from parse_terms_ok [OF this] False show ?thesis by (simp add: selector_terms_def image_comp)
qed

subsection \<open>Properties\<close>

text \<open>The bare wildcard, which accepts every runner and must never cause capacity to be
  rented, is the only selector whose requirements are \<open>Any\<close>: no spelling of a list of terms
  parses into it, and every accepted selector is within the documented limits.\<close>
theorem Parse_wildcard:
  assumes "Parse s = Inr q"
  shows "(Any q \<longleftrightarrow> s = ''*'') \<and> within_limits q"
  using Parse_ok [OF assms] by blast

theorem Parse_wildcard_witness:
  "\<not> Any (no_requirements\<lparr>req_OS := ''linux'', CPUs := 8, req_GPU := True, GPUModel := ''rtx4090''\<rparr>)"
proof -
  have "Parse ''os=linux, gpu=RTX-4090,cpus>=8'' =
      Inr (no_requirements\<lparr>req_OS := ''linux'', CPUs := 8, req_GPU := True, GPUModel := ''rtx4090''\<rparr>)"
    by code_simp
  from Parse_wildcard [OF this] show ?thesis by simp
qed

text \<open>C27. A runner is missing nothing for an accepted selector exactly when the terms of the
  selector, read one by one and in any order, hold of its facts.\<close>
theorem Missing_meets_selector:
  assumes "Parse s = Inr q" "0 \<le> NumCPU f"
  shows "Missing q f = [] \<longleftrightarrow>
    (\<forall>a \<in> selector_terms s. machine_term_holds f a) \<and> gpus_hold (selector_terms s) (fact_GPUs f)"
  using Missing_empty Parse_ok assms by blast

definition gpu_runner :: Facts where
  "gpu_runner = \<lparr>fact_OS = ''linux'', fact_Arch = ''amd64'', NumCPU = 16, fact_KVM = False,
     fact_Tools = (\<lambda>t. if t = ''go'' then ''1.24'' else ''''), ToolErrors = (\<lambda>_. ''''),
     fact_GPUs = [\<lparr>gpu_Name = ''NVIDIA RTX 4090'', MemoryMiB = 24564\<rparr>]\<rparr>"

theorem Missing_meets_selector_witness:
  "gpus_hold (selector_terms ''go,gpu=rtx_4090, vram>=24'') (fact_GPUs gpu_runner)"
proof -
  let ?q = "no_requirements\<lparr>req_Tools := [''go''], req_GPU := True, GPUModel := ''rtx4090'', VRAMGiB := 24\<rparr>"
  have p: "Parse ''go,gpu=rtx_4090, vram>=24'' = Inr ?q" by code_simp
  have "Missing ?q gpu_runner = []" by code_simp
  with Missing_meets_selector [OF p, of gpu_runner] show ?thesis by (simp add: gpu_runner_def)
qed

end
