(* ===== verification/Logio.thy ===== *)
theory Logio
  imports Base64 Manifest_Json
begin

text \<open>
  \<open>internal/logio/logio.go\<close>, the writer of a job's log. Writes of the two output streams are cut
  into frames, numbered in the order the runner saw them, and appended to the log file as
  lines of JSON. Every append holds the writer's lock, so concurrent streams interleave append
  by append. The clock reading and the outcome of the file write are arguments: a failed write
  leaves a proper prefix of the line behind (\<open>os.File.Write\<close> reports an error exactly when it
  wrote less than it was given). \<open>json.Marshal\<close> of a string that needs escaping is the parameter
  \<open>marshal\<close>, as for manifests.
\<close>

abbreviation newline :: char where "newline \<equiv> CHR 0x0A"

definition int64 :: "int \<Rightarrow> bool" where
  "int64 v \<longleftrightarrow> - (2 ^ 63) \<le> v \<and> v < 2 ^ 63"

definition wrap64 :: "int \<Rightarrow> int" where
  "wrap64 v = (v + 2 ^ 63) mod 2 ^ 64 - 2 ^ 63"

record LogFrame =
  Seq :: int
  Stream :: string
  DataB64 :: string
  TUnixMS :: int

definition marshal_frame :: "(string \<Rightarrow> string) \<Rightarrow> LogFrame \<Rightarrow> string" where
  "marshal_frame marshal f =
     json_key CHR ''{'' ''seq'' @ FormatInt (Seq f) @
     json_key CHR '','' ''stream'' @ json_string marshal (Stream f) @
     json_key CHR '','' ''data_b64'' @ json_string marshal (DataB64 f) @
     json_key CHR '','' ''t_unix_ms'' @ FormatInt (TUnixMS f) @ ''}''"

definition maxFrameData :: nat where
  "maxFrameData = 32 * 1024"

subsection \<open>The writer\<close>

text \<open>\<open>failures\<close> counts how often \<open>onFailure\<close> was started.\<close>

record Writer =
  log_file :: string
  log_seq :: int
  log_total :: int
  log_max :: int
  limitHit :: bool
  writeErr :: "string option"
  log_closed :: bool
  failures :: nat

datatype log_error = ErrExist | ErrClosedPipe | IOError string

definition NewWriter :: "bool \<Rightarrow> int \<Rightarrow> log_error + Writer" where
  "NewWriter exists maxBytes =
     (if exists then Inl ErrExist
      else Inr \<lparr>log_file = [], log_seq = 0, log_total = 0, log_max = maxBytes, limitHit = False, writeErr = None,
        log_closed = False, failures = 0\<rparr>)"

definition new_frame :: "Writer \<Rightarrow> string \<Rightarrow> bytes \<Rightarrow> int \<Rightarrow> LogFrame" where
  "new_frame w stream data now =
     \<lparr>Seq = wrap64 (log_seq w + 1), Stream = stream, DataB64 = b64_encode data, TUnixMS = now\<rparr>"

definition append_log ::
  "(string \<Rightarrow> string) \<Rightarrow> string \<Rightarrow> bytes \<Rightarrow> int \<Rightarrow> (nat \<times> string) option \<Rightarrow> Writer \<Rightarrow> log_error option \<times> Writer" where
  "append_log marshal stream data now fate w =
     (if log_closed w \<or> limitHit w \<or> writeErr w \<noteq> None then (Some ErrClosedPipe, w)
      else if wrap64 (log_total w + int (length data)) > log_max w
      then (Some ErrClosedPipe, w\<lparr>limitHit := True, failures := Suc (failures w)\<rparr>)
      else
        let frame = new_frame w stream data now;
            line = marshal_frame marshal frame @ [newline]
        in (case fate of
              Some (n, err) \<Rightarrow>
                (Some (IOError err),
                 w\<lparr>log_file := log_file w @ take n (butlast line), writeErr := Some err, failures := Suc (failures w)\<rparr>)
            | None \<Rightarrow>
                (None,
                 w\<lparr>log_file := log_file w @ line, log_seq := Seq frame,
                   log_total := wrap64 (log_total w + int (length data))\<rparr>)))"

text \<open>\<open>env off\<close> is the clock reading and the outcome of the file write for the chunk at \<open>off\<close>.\<close>

function stream_chunks ::
  "(string \<Rightarrow> string) \<Rightarrow> (nat \<Rightarrow> int \<times> (nat \<times> string) option) \<Rightarrow> string \<Rightarrow> bytes \<Rightarrow> nat \<Rightarrow> Writer \<Rightarrow> Writer" where
  "stream_chunks marshal env stream p off w =
     (if off < length p then
        let last_byte = min (off + maxFrameData) (length p)
        in (case append_log marshal stream (take (last_byte - off) (drop off p)) (fst (env off)) (snd (env off)) w of
              (Some _, w') \<Rightarrow> w'
            | (None, w') \<Rightarrow> stream_chunks marshal env stream p (off + maxFrameData) w')
      else w)"
  by pat_completeness auto
termination
  by (relation "measure (\<lambda>(_, _, _, p, off, _). length p - off)") (auto simp: maxFrameData_def)

declare stream_chunks.simps [simp del]

definition stream_Write ::
  "(string \<Rightarrow> string) \<Rightarrow> (nat \<Rightarrow> int \<times> (nat \<times> string) option) \<Rightarrow> string \<Rightarrow> bytes \<Rightarrow> Writer \<Rightarrow> nat \<times> Writer" where
  "stream_Write marshal env stream p w = (length p, stream_chunks marshal env stream p 0 w)"

definition LimitHit :: "Writer \<Rightarrow> bool" where
  "LimitHit w = limitHit w"

definition Complete :: "Writer \<Rightarrow> bool" where
  "Complete w \<longleftrightarrow> \<not> limitHit w \<and> writeErr w = None"

definition Err :: "Writer \<Rightarrow> string option" where
  "Err w = writeErr w"

definition Close :: "string option \<Rightarrow> Writer \<Rightarrow> string option \<times> Writer" where
  "Close err w =
     (if log_closed w then (None, w)
      else (err, w\<lparr>log_closed := True, writeErr := (if err \<noteq> None \<and> writeErr w = None then err else writeErr w)\<rparr>))"

definition isClosed :: "Writer \<Rightarrow> bool" where
  "isClosed w = log_closed w"

text \<open>The outcome of \<open>waitChange\<close> when the writer is in this state; \<open>None\<close> is to go on waiting.\<close>

definition waitChange :: "string option \<Rightarrow> int \<Rightarrow> Writer \<Rightarrow> (string + bool) option" where
  "waitChange ctx_err cur w =
     (case ctx_err of
        Some e \<Rightarrow> Some (Inl e)
      | None \<Rightarrow>
          if log_seq w \<le> cur \<and> \<not> log_closed w then None
          else Some (Inr (log_closed w \<and> log_seq w \<le> cur)))"

subsection \<open>Runs of the writer\<close>

text \<open>A run interleaves appends of both streams, which come in the chunks \<open>stream_Write\<close> cuts,
  with \<open>Close\<close>. \<open>sent\<close> lists the chunks offered before the log was closed, \<open>fs\<close> the frames
  that were written.\<close>

inductive log_run :: "(string \<Rightarrow> string) \<Rightarrow> int \<Rightarrow> Writer \<Rightarrow> (string \<times> bytes) list \<Rightarrow> LogFrame list \<Rightarrow> bool"
  for marshal mx where
  start: "NewWriter False mx = Inr w \<Longrightarrow> log_run marshal mx w [] []"
| append: "\<lbrakk>log_run marshal mx w sent fs; plain_string stream; data \<noteq> []; length data \<le> maxFrameData; int64 now;
    append_log marshal stream data now fate w = (err, w')\<rbrakk>
    \<Longrightarrow> log_run marshal mx w' (if log_closed w then sent else sent @ [(stream, data)])
          (if err = None then fs @ [new_frame w stream data now] else fs)"
| close: "\<lbrakk>log_run marshal mx w sent fs; Close close_err w = (err, w')\<rbrakk> \<Longrightarrow> log_run marshal mx w' sent fs"

definition log_line :: "(string \<Rightarrow> string) \<Rightarrow> LogFrame \<Rightarrow> string" where
  "log_line marshal f = marshal_frame marshal f @ [newline]"

definition frame_ok :: "LogFrame \<Rightarrow> bool" where
  "frame_ok f \<longleftrightarrow> int64 (Seq f) \<and> int64 (TUnixMS f) \<and> plain_string (Stream f) \<and> plain_string (DataB64 f)"

definition frame_data :: "LogFrame \<Rightarrow> string \<times> bytes option" where
  "frame_data f = (Stream f, b64_decode False (DataB64 f))"

definition log_content :: "(string \<Rightarrow> string) \<Rightarrow> Writer \<Rightarrow> LogFrame list \<Rightarrow> bool" where
  "log_content marshal w fs \<longleftrightarrow>
     (\<exists>torn. log_file w = concat (map (log_line marshal) fs) @ torn \<and> newline \<notin> set torn \<and>
        (torn \<noteq> [] \<longrightarrow> writeErr w \<noteq> None)) \<and>
     map Seq fs = map int [1..<Suc (length fs)] \<and> (\<forall>f \<in> set fs. frame_ok f) \<and> log_seq w = int (length fs)"

definition log_account :: "int \<Rightarrow> Writer \<Rightarrow> (string \<times> bytes) list \<Rightarrow> LogFrame list \<Rightarrow> bool" where
  "log_account mx w sent fs \<longleftrightarrow>
     map frame_data fs = map (apsnd Some) (take (length fs) sent) \<and> length fs \<le> length sent \<and>
     (Complete w \<longrightarrow> length fs = length sent) \<and>
     log_total w = (\<Sum>(_, d) \<leftarrow> take (length fs) sent. int (length d)) \<and>
     log_max w = mx \<and> int (length fs) \<le> log_total w \<and> log_total w \<le> mx \<and>
     failures w \<le> 1 \<and> (failures w = 1 \<longrightarrow> \<not> Complete w)"

lemma wrap64_id [simp]: "int64 v \<Longrightarrow> wrap64 v = v"
  by (simp add: wrap64_def int64_def)

lemma b64_char_json: "n < 64 \<Longrightarrow> jsonPlain (b64_char n)"
proof -
  assume n: "n < 64"
  have "list_all jsonPlain b64_alphabet" by code_simp
  then show ?thesis using n by (simp add: b64_char_def list_all_length alphabet_length)
qed

lemma b64_encode_json [simp]: "plain_string (b64_encode x)"
proof -
  have pad: "jsonPlain CHR ''=''" by code_simp
  show ?thesis unfolding plain_string_def
  proof (induction x rule: b64_encode.induct)
    case (2 a)
    then show ?case using b64_char_json [OF byte_quad(1) [of a]] b64_char_json [OF byte_quad(5) [of a]] pad by simp
  next
    case (3 a b)
    then show ?case
      using b64_char_json [OF byte_quad(1) [of a]] b64_char_json [OF byte_quad(2) [of a b]]
        b64_char_json [OF byte_quad(6) [of b]] pad by simp
  next
    case (4 a b d xs)
    then show ?case
      using b64_char_json [OF byte_quad(1) [of a]] b64_char_json [OF byte_quad(2) [of a b]]
        b64_char_json [OF byte_quad(3) [of b d]] b64_char_json [OF byte_quad(4) [of d]] by simp
  qed simp
qed

lemma plain_no_newline: "plain_string s \<Longrightarrow> newline \<notin> set s"
proof -
  have "\<not> jsonPlain newline" by code_simp
  then show "plain_string s \<Longrightarrow> newline \<notin> set s" by (auto simp: plain_string_def list_all_iff)
qed

lemma decimal_no_newline: "newline \<notin> set (decimal n)"
proof
  assume "newline \<in> set (decimal n)"
  then have "is_digit newline" by (rule decimal_digits)
  moreover have "\<not> is_digit newline" by code_simp
  ultimately show False by blast
qed

lemma FormatInt_no_newline: "newline \<notin> set (FormatInt v)"
  by (simp add: FormatInt_def decimal_no_newline)

lemma marshal_no_newline:
  assumes "frame_ok f"
  shows "newline \<notin> set (marshal_frame marshal f)"
proof -
  have p: "plain_string (Stream f)" "plain_string (DataB64 f)" using assms by (simp_all add: frame_ok_def)
  note q = plain_no_newline [OF p(1)] plain_no_newline [OF p(2)]
  show ?thesis
    unfolding marshal_frame_def json_string_plain [OF p(1)] json_string_plain [OF p(2)] json_key_def
    by (simp add: q FormatInt_no_newline)
qed

lemma append_cases:
  assumes "append_log marshal stream data now fate w = (err, w')"
  obtains
    (refused) "\<not> Complete w \<or> log_closed w" "err \<noteq> None" "w' = w"
  | (full) "Complete w" "\<not> log_closed w" "log_max w < wrap64 (log_total w + int (length data))" "err \<noteq> None"
      "w' = w\<lparr>limitHit := True, failures := Suc (failures w)\<rparr>"
  | (torn) n e where "Complete w" "\<not> log_closed w" "wrap64 (log_total w + int (length data)) \<le> log_max w" "err \<noteq> None"
      "w' = w\<lparr>log_file := log_file w @ take n (marshal_frame marshal (new_frame w stream data now)),
          writeErr := Some e, failures := Suc (failures w)\<rparr>"
  | (written) "Complete w" "\<not> log_closed w" "wrap64 (log_total w + int (length data)) \<le> log_max w" "err = None"
      "w' = w\<lparr>log_file := log_file w @ log_line marshal (new_frame w stream data now),
          log_seq := wrap64 (log_seq w + 1), log_total := wrap64 (log_total w + int (length data))\<rparr>"
proof (cases "log_closed w \<or> limitHit w \<or> writeErr w \<noteq> None")
  case True
  then show ?thesis using assms by (intro refused) (auto simp: append_log_def Complete_def)
next
  case False
  then have ok: "Complete w" "\<not> log_closed w" by (simp_all add: Complete_def)
  let ?line = "marshal_frame marshal (new_frame w stream data now) @ [newline]"
  show ?thesis
  proof (cases "log_max w < wrap64 (log_total w + int (length data))")
    case True
    then show ?thesis using assms False ok by (intro full) (auto simp: append_log_def)
  next
    case within: False
    show ?thesis
    proof (cases fate)
      case None
      then show ?thesis using assms False within ok
        by (intro written) (simp_all add: append_log_def Let_def log_line_def new_frame_def)
    next
      case (Some x)
      obtain n e where x: "x = (n, e)" by (cases x)
      show ?thesis using assms False within ok Some x
        by (intro torn [of e n]) (auto simp: append_log_def Let_def)
    qed
  qed
qed

abbreviation log_limit :: "int \<Rightarrow> bool" where
  "log_limit mx \<equiv> 0 \<le> mx \<and> int64 (mx + int maxFrameData)"

lemma seq_step:
  assumes "log_limit mx" "log_account mx w sent fs"
  shows "int64 (int (length fs) + 1)" "length data \<le> maxFrameData \<Longrightarrow> int64 (log_total w + int (length data))"
  using assms by (auto simp: log_account_def int64_def maxFrameData_def)

lemma log_content_append:
  assumes c: "log_content marshal w fs" and a: "log_account mx w sent fs" and lim: "log_limit mx"
    and p: "plain_string stream" "int64 now" and ap: "append_log marshal stream data now fate w = (err, w')"
  shows "log_content marshal w' (if err = None then fs @ [new_frame w stream data now] else fs)"
proof -
  let ?f = "new_frame w stream data now"
  have seq: "log_seq w = int (length fs)" using c by (simp add: log_content_def)
  have next_seq: "wrap64 (int (length fs) + 1) = int (length fs) + 1" using seq_step(1) [OF lim a] by simp
  have f: "frame_ok ?f" "Seq ?f = int (length fs) + 1"
    using p seq_step(1) [OF lim a] by (simp_all add: frame_ok_def new_frame_def seq)
  have no_nl: "newline \<notin> set (take n (marshal_frame marshal ?f))" for n
    using marshal_no_newline [OF f(1)] by (meson in_set_takeD)
  have whole: "log_file w = concat (map (log_line marshal) fs)" if "Complete w"
    using c that by (auto simp: log_content_def Complete_def)
  from ap show ?thesis
  proof (cases rule: append_cases)
    case written
    then show ?thesis using c f whole next_seq by (simp add: log_content_def seq)
  next
    case torn
    then show ?thesis using c whole no_nl by (auto simp: log_content_def)
  qed (use c in \<open>auto simp: log_content_def\<close>)
qed

lemma log_account_append:
  assumes a: "log_account mx w sent fs" and lim: "log_limit mx" and d: "data \<noteq> []" "length data \<le> maxFrameData"
    and ap: "append_log marshal stream data now fate w = (err, w')"
  shows "log_account mx w' (if log_closed w then sent else sent @ [(stream, data)])
    (if err = None then fs @ [new_frame w stream data now] else fs)"
proof -
  have wrap: "wrap64 (log_total w + int (length data)) = log_total w + int (length data)"
    using seq_step(2) [OF lim a d(2)] by simp
  have len: "int (length data) \<ge> 1" using d(1) by (cases data) auto
  from ap show ?thesis
  proof (cases rule: append_cases)
    case written
    then have "length fs = length sent" using a by (simp add: log_account_def)
    then show ?thesis using a written wrap len
      by (simp add: log_account_def frame_data_def new_frame_def Complete_def)
  next
    case torn
    then show ?thesis using a by (auto simp: log_account_def Complete_def)
  next
    case full
    then show ?thesis using a by (auto simp: log_account_def Complete_def)
  qed (use a in \<open>auto simp: log_account_def\<close>)
qed

lemma log_close:
  assumes "Close close_err w = (err, w')"
  shows "log_content marshal w fs \<Longrightarrow> log_content marshal w' fs"
    "log_account mx w sent fs \<Longrightarrow> log_account mx w' sent fs"
  using assms by (auto simp: Close_def log_content_def log_account_def Complete_def split: if_splits)

lemma log_run_ok:
  assumes "log_run marshal mx w sent fs" "log_limit mx"
  shows "log_content marshal w fs \<and> log_account mx w sent fs"
  using assms
proof (induction rule: log_run.induct)
  case (start w)
  then show ?case by (auto simp: NewWriter_def log_content_def log_account_def Complete_def)
next
  case (append w sent fs stream data now fate err w')
  then show ?case by (blast intro: log_content_append log_account_append)
next
  case (close w sent fs close_err err w')
  then show ?case by (blast intro: log_close)
qed

text \<open>A call of \<open>stream_Write\<close> is a sequence of such appends, and if the log is still complete
  after it, the chunks are all of the data.\<close>

definition chunks_sent :: "Writer \<Rightarrow> string \<Rightarrow> bytes \<Rightarrow> (string \<times> bytes) list \<Rightarrow> bool" where
  "chunks_sent w stream p cs \<longleftrightarrow>
     (\<forall>(s, d) \<in> set cs. s = stream) \<and> prefix (concat (map snd cs)) p \<and> (Complete w \<longrightarrow> concat (map snd cs) = p)"

lemma chunks_sent_Cons: "chunks_sent w s q cs \<Longrightarrow> chunks_sent w s (d @ q) ((s, d) # cs)"
  by (auto simp: chunks_sent_def)

lemma append_open: "append_log marshal stream data now fate w = (err, w') \<Longrightarrow> log_closed w' = log_closed w"
  by (erule append_cases) auto

lemma append_failed:
  "append_log marshal stream data now fate w = (err, w') \<Longrightarrow> err \<noteq> None \<Longrightarrow> \<not> log_closed w \<Longrightarrow> \<not> Complete w'"
  by (erule append_cases) (auto simp: Complete_def)

lemma stream_chunks_complete: "Complete (stream_chunks marshal env stream p off w) \<Longrightarrow> Complete w"
proof (induction marshal env stream p off w rule: stream_chunks.induct)
  case (1 marshal env stream p off w)
  have *: "Complete w" if "append_log marshal stream d now fate w = (err, w')" "Complete w'" for d now fate err w'
    using that by (elim append_cases) (auto simp: Complete_def)
  from 1 show ?case
    by (subst (asm) (2) stream_chunks.simps) (auto simp: Let_def split: if_splits prod.splits option.splits intro: *)
qed

lemma stream_chunks_run:
  assumes "log_run marshal mx w sent fs" "plain_string stream" "\<forall>i. int64 (fst (env i))" "\<not> log_closed w"
  shows "\<exists>cs fs'. log_run marshal mx (stream_chunks marshal env stream p off w) (sent @ cs) (fs @ fs') \<and>
    chunks_sent (stream_chunks marshal env stream p off w) stream (drop off p) cs"
  using assms
proof (induction marshal env stream p off w arbitrary: sent fs rule: stream_chunks.induct)
  case (1 marshal env stream p off w)
  show ?case
  proof (cases "off < length p")
    case True
    let ?n = "min (off + maxFrameData) (length p)"
    let ?data = "take (?n - off) (drop off p)"
    let ?sent = "sent @ [(stream, ?data)]"
    obtain err w' where ap: "append_log marshal stream ?data (fst (env off)) (snd (env off)) w = (err, w')" by fastforce
    have "?data \<noteq> []" "length ?data \<le> maxFrameData" using True by (auto simp: maxFrameData_def)
    from log_run.append [OF "1.prems"(1,2) this _ ap] "1.prems"(3,4)
    have "log_run marshal mx w' ?sent (fs @ (if err = None then [new_frame w stream ?data (fst (env off))] else []))"
      by (cases err) simp_all
    then obtain f2 where run: "log_run marshal mx w' ?sent (fs @ f2)" by blast
    have cut: "drop off p = ?data @ drop (off + maxFrameData) p"
      by (cases "off + maxFrameData \<le> length p") (simp_all add: min_def append_take_drop_id [symmetric] add.commute flip: drop_drop)
    show ?thesis
    proof (cases err)
      case None
      have "\<not> log_closed w'" using append_open [OF ap] "1.prems"(4) by simp
      from 1(1) [OF True refl ap [symmetric] None run "1.prems"(2,3) this]
      obtain cs f3 where *: "log_run marshal mx (stream_chunks marshal env stream p (off + maxFrameData) w') (?sent @ cs) ((fs @ f2) @ f3)"
        "chunks_sent (stream_chunks marshal env stream p (off + maxFrameData) w') stream (drop (off + maxFrameData) p) cs"
        by blast
      have "stream_chunks marshal env stream p off w = stream_chunks marshal env stream p (off + maxFrameData) w'"
        using True ap None by (subst stream_chunks.simps) (simp add: Let_def)
      moreover have "chunks_sent w'' stream (drop off p) ((stream, ?data) # cs)"
        if "chunks_sent w'' stream (drop (off + maxFrameData) p) cs" for w''
        using chunks_sent_Cons [OF that, of ?data] unfolding cut [symmetric] .
      ultimately show ?thesis using * by (intro exI [of _ "(stream, ?data) # cs"] exI [of _ "f2 @ f3"]) simp
    next
      case (Some e)
      have "stream_chunks marshal env stream p off w = w'"
        using True ap Some by (subst stream_chunks.simps) (simp add: Let_def)
      moreover have "chunks_sent w' stream (drop off p) [(stream, ?data)]"
        using append_failed [OF ap] Some "1.prems"(4) cut by (auto simp: chunks_sent_def intro: take_is_prefix)
      ultimately show ?thesis using run by (intro exI [of _ "[(stream, ?data)]"] exI [of _ f2]) simp
    qed
  next
    case False
    then have "stream_chunks marshal env stream p off w = w" by (subst stream_chunks.simps) simp
    with False show ?thesis using "1.prems"(1)
      by (intro exI [of _ "[]"] exI [of _ "[]"]) (simp add: chunks_sent_def)
  qed
qed

subsection \<open>Properties\<close>

text \<open>C23. However the appends of the two streams interleave, wherever a write of the file
  fails and whenever the log is closed: the file is the lines of the frames $1, 2, \ldots$ in order,
  followed by part of a line only after a write error; the frames hold the chunks in the order
  they were offered, all of them as long as the log is complete; the cap on the bytes is kept
  and the failure handler is started at most once.\<close>
theorem log_writer_invariant:
  assumes "log_run marshal mx w sent fs" "log_limit mx"
  shows "log_content marshal w fs \<and> log_account mx w sent fs"
  using assms by (rule log_run_ok)

definition fresh_log :: Writer where
  "fresh_log = \<lparr>log_file = [], log_seq = 0, log_total = 0, log_max = 1000, limitHit = False, writeErr = None,
     log_closed = False, failures = 0\<rparr>"

lemma fresh_run: "log_run marshal 1000 fresh_log [] []"
  by (rule log_run.start) (simp add: NewWriter_def fresh_log_def)

lemma sample_limit: "log_limit 1000" "plain_string ''stdout''"
  by (simp_all add: int64_def maxFrameData_def) code_simp

theorem log_writer_invariant_witness:
  "log_content id (snd (append_log id ''stdout'' ''ok'' 5 (Some (3, ''disk full'')) fresh_log)) []"
proof -
  obtain err w where w: "append_log id ''stdout'' ''ok'' 5 (Some (3, ''disk full'')) fresh_log = (err, w)" by fastforce
  have err: "err \<noteq> None" using w by (auto simp: append_log_def fresh_log_def Let_def split: if_splits)
  have "log_run id 1000 w [(''stdout'', ''ok'')] []"
    using log_run.append [OF fresh_run sample_limit(2) _ _ _ w] err
    by (simp add: fresh_log_def maxFrameData_def int64_def)
  from log_writer_invariant [OF this sample_limit(1)] show ?thesis unfolding w by simp
qed

text \<open>C39. A write to an open log always reports that everything was taken, so that the pipe of
  the process keeps draining; if the log is still complete afterwards, the frames it added decode
  to exactly the data written.\<close>
theorem stream_Write_roundtrip:
  assumes "log_run marshal mx w sent fs" "log_limit mx" "plain_string stream" "\<forall>i. int64 (fst (env i))"
    and "\<not> log_closed w" "stream_Write marshal env stream p w = (n, w')"
  shows "n = length p \<and>
    (Complete w' \<longrightarrow> (\<exists>sent' new. log_run marshal mx w' sent' (fs @ new) \<and>
       (\<exists>ds. map frame_data new = map (\<lambda>d. (stream, Some d)) ds \<and> concat ds = p)))"
proof -
  have w': "w' = stream_chunks marshal env stream p 0 w" and n: "n = length p"
    using assms(6) by (simp_all add: stream_Write_def)
  obtain cs new where run: "log_run marshal mx w' (sent @ cs) (fs @ new)" and cs: "chunks_sent w' stream p cs"
    using stream_chunks_run [OF assms(1,3,4,5), of p 0] unfolding w' by auto
  have "\<exists>ds. map frame_data new = map (\<lambda>d. (stream, Some d)) ds \<and> concat ds = p" if "Complete w'"
  proof -
    note old = log_run_ok [OF assms(1,2), unfolded log_account_def]
    note now = log_run_ok [OF run assms(2), unfolded log_account_def]
    have "Complete w" using that stream_chunks_complete w' by blast
    then have "length fs = length sent" "length (fs @ new) = length (sent @ cs)" using old now that by auto
    then have "map frame_data new = map (apsnd Some) cs" using old now by auto
    also have "\<dots> = map (\<lambda>d. (stream, Some d)) (map snd cs)" using cs by (auto simp: chunks_sent_def)
    finally show ?thesis using cs that unfolding chunks_sent_def by blast
  qed
  with n run show ?thesis by blast
qed

theorem stream_Write_roundtrip_witness:
  "fst (stream_Write id (\<lambda>_. (5, None)) ''stdout'' ''ok'' fresh_log) = 2"
proof -
  let ?env = "\<lambda>_ :: nat. (5 :: int, None :: (nat \<times> string) option)"
  have pre: "\<forall>i. int64 (fst (?env i))" "\<not> log_closed fresh_log" by (simp_all add: int64_def fresh_log_def)
  obtain n w where w: "stream_Write id ?env ''stdout'' ''ok'' fresh_log = (n, w)" by fastforce
  have "n = length ''ok''" using stream_Write_roundtrip [OF fresh_run sample_limit pre w] by (rule conjunct1)
  then show ?thesis using w by simp
qed

end
