(* ===== verification/Log_Follow.thy ===== *)
theory Log_Follow
  imports Logio
begin

text \<open>
  \<open>internal/logio/logio.go\<close>, the readers of a job's log: \<open>Follow\<close> reads the file in chunks, cuts it
  into lines, checks that the frames are numbered without gaps and hands those after \<open>from\<close> to
  the callback. Each turn of its loop is a step on one event: a chunk of the file, the end of
  the file with the outcome of \<open>waitChange\<close>, a failed read or a cancelled context.
  \<open>json.Unmarshal\<close> into a frame is the parameter \<open>unmarshal\<close>, and \<open>fn\<close> the callback, which may
  return an error.
\<close>

datatype follow_error =
    OpenError
  | BadJSON
  | WrongSeq int int
  | UnexpectedEOF
  | CallbackError string
  | ReadError string
  | CtxError string

definition IsIntegrityError :: "follow_error \<Rightarrow> bool" where
  "IsIntegrityError e \<longleftrightarrow> (case e of BadJSON \<Rightarrow> True | WrongSeq _ _ \<Rightarrow> True | UnexpectedEOF \<Rightarrow> True | _ \<Rightarrow> False)"

record follow_state =
  fol_last :: int
  fol_expected :: int
  fol_buf :: string
  delivered :: "LogFrame list"

text \<open>The inner loop: take complete lines off the buffer.\<close>

function drain ::
  "(string \<Rightarrow> LogFrame option) \<Rightarrow> (LogFrame \<Rightarrow> string option) \<Rightarrow> follow_state \<Rightarrow> follow_error option \<times> follow_state" where
  "drain unmarshal fn st =
     (if newline \<notin> set (fol_buf st) then (None, st)
      else
        let line = takeWhile (\<lambda>c. c \<noteq> newline) (fol_buf st);
            st1 = st\<lparr>fol_buf := drop (Suc (length line)) (fol_buf st)\<rparr>
        in (case unmarshal line of
              None \<Rightarrow> (Some BadJSON, st1)
            | Some frame \<Rightarrow>
                if Seq frame \<noteq> fol_expected st then (Some (WrongSeq (Seq frame) (fol_expected st)), st1)
                else
                  let st2 = st1\<lparr>fol_expected := fol_expected st + 1\<rparr>
                  in if Seq frame > fol_last st then
                       let st3 = st2\<lparr>fol_last := Seq frame, delivered := delivered st @ [frame]\<rparr>
                       in (case fn frame of Some e \<Rightarrow> (Some (CallbackError e), st3) | None \<Rightarrow> drain unmarshal fn st3)
                     else drain unmarshal fn st2))"
  by pat_completeness auto
termination
  by (relation "measure (\<lambda>(_, _, st). length (fol_buf st))") (auto dest: length_pos_if_in_set)

declare drain.simps [simp del]

datatype follow_event =
    CtxDone string
  | Chunk string
  | AtEOF "string + bool"
  | ReadFailed string

text \<open>One turn of the outer loop: \<open>None\<close> is to go round again, \<open>Some r\<close> to return \<open>r\<close>.\<close>

definition follow_step ::
  "(string \<Rightarrow> LogFrame option) \<Rightarrow> (LogFrame \<Rightarrow> string option) \<Rightarrow> bool \<Rightarrow> follow_event \<Rightarrow> follow_state \<Rightarrow>
    follow_error option option \<times> follow_state" where
  "follow_step unmarshal fn live ev st =
     (let finish = (if fol_buf st \<noteq> [] then Some UnexpectedEOF else None)
      in case ev of
           CtxDone e \<Rightarrow> (Some (Some (CtxError e)), st)
         | ReadFailed e \<Rightarrow> (Some (Some (ReadError e)), st)
         | Chunk c \<Rightarrow>
             (case drain unmarshal fn (st\<lparr>fol_buf := fol_buf st @ c\<rparr>) of
                (Some e, st') \<Rightarrow> (Some (Some e), st')
              | (None, st') \<Rightarrow> (None, st'))
         | AtEOF wait \<Rightarrow>
             if \<not> live then (Some finish, st)
             else (case wait of
                     Inl e \<Rightarrow> (Some (Some (CtxError e)), st)
                   | Inr closed \<Rightarrow> if closed then (Some finish, st) else (None, st)))"

fun follow_loop ::
  "(string \<Rightarrow> LogFrame option) \<Rightarrow> (LogFrame \<Rightarrow> string option) \<Rightarrow> bool \<Rightarrow> follow_event list \<Rightarrow> follow_state \<Rightarrow>
    follow_error option option \<times> follow_state" where
  "follow_loop unmarshal fn live [] st = (None, st)"
| "follow_loop unmarshal fn live (ev # evs) st =
     (case follow_step unmarshal fn live ev st of
        (Some r, st') \<Rightarrow> (Some r, st')
      | (None, st') \<Rightarrow> follow_loop unmarshal fn live evs st')"

definition follow_start :: "int \<Rightarrow> follow_state" where
  "follow_start from = \<lparr>fol_last = from, fol_expected = 1, fol_buf = [], delivered = []\<rparr>"

definition Follow ::
  "(string \<Rightarrow> LogFrame option) \<Rightarrow> bool \<Rightarrow> int \<Rightarrow> bool \<Rightarrow> (LogFrame \<Rightarrow> string option) \<Rightarrow> follow_event list \<Rightarrow>
    follow_error option option \<times> LogFrame list" where
  "Follow unmarshal opened from live fn evs =
     (if \<not> opened then (Some (Some OpenError), [])
      else apsnd delivered (follow_loop unmarshal fn live evs (follow_start from)))"

subsection \<open>The chunks do not matter\<close>

abbreviation add_buf :: "follow_state \<Rightarrow> string \<Rightarrow> follow_state" where
  "add_buf st c \<equiv> st\<lparr>fol_buf := fol_buf st @ c\<rparr>"

lemma first_line_append:
  assumes "newline \<in> set b"
  shows "takeWhile (\<lambda>c. c \<noteq> newline) (b @ c) = takeWhile (\<lambda>c. c \<noteq> newline) b"
    "drop (Suc (length (takeWhile (\<lambda>c. c \<noteq> newline) b))) (b @ c) = drop (Suc (length (takeWhile (\<lambda>c. c \<noteq> newline) b))) b @ c"
proof -
  show "takeWhile (\<lambda>c. c \<noteq> newline) (b @ c) = takeWhile (\<lambda>c. c \<noteq> newline) b"
    using assms by (intro takeWhile_append1) auto
  have "length (takeWhile (\<lambda>c. c \<noteq> newline) b) < length b" using assms by (induction b) auto
  then show "drop (Suc (length (takeWhile (\<lambda>c. c \<noteq> newline) b))) (b @ c) =
      drop (Suc (length (takeWhile (\<lambda>c. c \<noteq> newline) b))) b @ c" by simp
qed

lemma drain_append:
  "drain unmarshal fn (add_buf st c) =
     (case drain unmarshal fn st of (None, st') \<Rightarrow> drain unmarshal fn (add_buf st' c) | (Some e, st') \<Rightarrow> (Some e, add_buf st' c))"
proof (induction unmarshal fn st rule: drain.induct)
  case (1 unmarshal fn st)
  show ?case
  proof (cases "newline \<in> set (fol_buf st)")
    case False
    then show ?thesis by (simp add: drain.simps [of unmarshal fn st])
  next
    case True
    note line = first_line_append [OF True, of c]
    let ?line = "takeWhile (\<lambda>c. c \<noteq> newline) (fol_buf st)"
    note eq = drain.simps [of unmarshal fn st] drain.simps [of unmarshal fn "add_buf st c"]
    show ?thesis
    proof (cases "unmarshal ?line")
      case None
      then show ?thesis using True unfolding eq by (simp add: line Let_def del: drop_append)
    next
      case (Some frame)
      show ?thesis
      proof (cases "Seq frame = fol_expected st")
        case False
        then show ?thesis using True Some unfolding eq by (simp add: line Let_def del: drop_append)
      next
        case seq: True
        note IH = 1 [OF _ refl refl Some _ refl]
        show ?thesis
          using True Some seq IH line unfolding eq by (cases st; cases "Seq frame > fol_last st"; cases "fn frame") (simp_all add: Let_def del: drop_append)
      qed
    qed
  qed
qed

lemma drain_done: "drain unmarshal fn st = (None, st') \<Longrightarrow> newline \<notin> set (fol_buf st')"
proof (induction unmarshal fn st rule: drain.induct)
  case (1 unmarshal fn st)
  show ?case
  proof (cases "newline \<in> set (fol_buf st)")
    case False
    then show ?thesis using "1.prems" by (simp add: drain.simps [of unmarshal fn st])
  next
    case True
    then show ?thesis using "1.prems" "1.IH"
      unfolding drain.simps [of unmarshal fn st] by (auto simp: Let_def split: option.splits if_splits)
  qed
qed

definition follow_outcome :: "follow_error option \<times> follow_state \<Rightarrow> follow_error option option \<times> LogFrame list" where
  "follow_outcome r =
     (case r of
        (Some e, st) \<Rightarrow> (Some (Some e), delivered st)
      | (None, st) \<Rightarrow> (Some (if fol_buf st \<noteq> [] then Some UnexpectedEOF else None), delivered st))"

lemma follow_chunks:
  "newline \<notin> set (fol_buf st) \<Longrightarrow>
     apsnd delivered (follow_loop unmarshal fn False (map Chunk cs @ [AtEOF x]) st) =
       follow_outcome (drain unmarshal fn (add_buf st (concat cs)))"
proof (induction cs arbitrary: st)
  case Nil
  then show ?case by (simp add: drain.simps follow_step_def follow_outcome_def)
next
  case (Cons c cs)
  have "drain unmarshal fn (add_buf st (concat (c # cs))) = drain unmarshal fn (add_buf (add_buf st c) (concat cs))" by simp
  also note drain_append
  finally have split: "drain unmarshal fn (add_buf st (concat (c # cs))) =
    (case drain unmarshal fn (add_buf st c) of
       (None, st') \<Rightarrow> drain unmarshal fn (add_buf st' (concat cs)) | (Some e, st') \<Rightarrow> (Some e, add_buf st' (concat cs)))" .
  obtain r st' where r: "drain unmarshal fn (add_buf st c) = (r, st')" by fastforce
  show ?case
  proof (cases r)
    case None
    from Cons.IH [OF drain_done [OF r [unfolded None]]] show ?thesis unfolding split r None
      by (simp add: follow_step_def r None)
  next
    case (Some e)
    then show ?thesis unfolding split r by (simp add: follow_step_def r follow_outcome_def)
  qed
qed

lemma Follow_file:
  "Follow unmarshal True from False fn (map Chunk cs @ [AtEOF x]) =
     follow_outcome (drain unmarshal fn (add_buf (follow_start from) (concat cs)))"
  using follow_chunks [of "follow_start from"] by (simp add: Follow_def follow_start_def)

subsection \<open>Lines of frames\<close>

text \<open>What the log file promises its readers: a record of a frame is a line, and reads back.\<close>

locale line_codec =
  fixes enc :: "'f \<Rightarrow> string" and dec :: "string \<Rightarrow> 'f option" and ok :: "'f \<Rightarrow> bool"
  assumes enc_line: "ok f \<Longrightarrow> newline \<notin> set (enc f)"
    and dec_enc: "ok f \<Longrightarrow> dec (enc f) = Some f"
begin

definition file_of :: "'f list \<Rightarrow> string" where
  "file_of fs = concat (map (\<lambda>f. enc f @ [newline]) fs)"

lemma file_of_simps [simp]:
  "file_of [] = []" "file_of (f # fs) = enc f @ newline # file_of fs" "file_of (fs @ gs) = file_of fs @ file_of gs"
  by (simp_all add: file_of_def)

lemma first_record:
  assumes "ok f"
  shows "takeWhile (\<lambda>c. c \<noteq> newline) (enc f @ newline # s) = enc f" "drop (Suc (length (enc f))) (enc f @ newline # s) = s"
    "dec (enc f) = Some f"
  using enc_line [OF assms] dec_enc [OF assms] by (simp_all add: takeWhile_tail, metis takeWhile_append2 takeWhile.simps(2) append_Nil2)

lemma count_file_of: "\<forall>f \<in> set fs. ok f \<Longrightarrow> count_list (file_of fs) newline = length fs"
  by (induction fs) (auto simp: enc_line)

lemma read_prefix:
  assumes "prefix p (file_of fs @ torn)" "\<forall>f \<in> set fs. ok f" "newline \<notin> set torn"
  shows "\<exists>r. p = file_of (take (count_list p newline) fs) @ r \<and> newline \<notin> set r \<and> count_list p newline \<le> length fs"
  using assms
proof (induction fs arbitrary: p)
  case Nil
  then have "newline \<notin> set p" by (auto dest: set_mono_prefix)
  then show ?case by (simp add: count_notin)
next
  case (Cons f fs)
  have nl: "newline \<notin> set (enc f)" using Cons.prems(2) enc_line by simp
  show ?case
  proof (cases "prefix p (enc f)")
    case True
    then have "newline \<notin> set p" using nl by (auto dest: set_mono_prefix)
    then show ?thesis by (simp add: count_notin)
  next
    case False
    then obtain q where q: "p = enc f @ newline # q" "prefix q (file_of fs @ torn)"
      using Cons.prems(1) by (auto simp: prefix_append prefix_Cons)
    from Cons.IH [OF q(2)] Cons.prems(2,3) obtain r where
      "q = file_of (take (count_list q newline) fs) @ r" "newline \<notin> set r" "count_list q newline \<le> length fs" by auto
    then show ?thesis using q(1) nl by (auto simp: count_notin)
  qed
qed

end

text \<open>A reader of exactly the records the writer produces. \<open>json.Unmarshal\<close> accepts more; on these
  records both return the frame.\<close>

definition expect :: "string \<Rightarrow> string \<Rightarrow> string option" where
  "expect p s = (if prefix p s then Some (drop (length p) s) else None)"

definition take_int :: "string \<Rightarrow> int \<times> string" where
  "take_int s =
     (let neg = prefix ''-'' s; t = (if neg then tl s else s); v = int (digits_value 0 (takeWhile is_digit t))
      in (if neg then - v else v, dropWhile is_digit t))"

definition take_quoted :: "string \<Rightarrow> string \<times> string" where
  "take_quoted s = (takeWhile (\<lambda>c. c \<noteq> quote) s, drop 1 (dropWhile (\<lambda>c. c \<noteq> quote) s))"

definition read_frame :: "string \<Rightarrow> LogFrame option" where
  "read_frame s =
     Option.bind (expect (json_key CHR ''{'' ''seq'') s) (\<lambda>s.
     let (seq, s) = take_int s in
     Option.bind (expect (json_key CHR '','' ''stream'' @ [quote]) s) (\<lambda>s.
     let (stream, s) = take_quoted s in
     Option.bind (expect (json_key CHR '','' ''data_b64'' @ [quote]) s) (\<lambda>s.
     let (data, s) = take_quoted s in
     Option.bind (expect (json_key CHR '','' ''t_unix_ms'') s) (\<lambda>s.
     let (t, s) = take_int s in
     if s = ''}'' then Some \<lparr>Seq = seq, Stream = stream, DataB64 = data, TUnixMS = t\<rparr> else None))))"

lemma expect_append [simp]: "expect p (p @ s) = Some s"
  by (simp add: expect_def)

lemma take_int_FormatInt:
  assumes "\<not> is_digit c"
  shows "take_int (FormatInt v @ c # s) = (v, c # s)"
proof -
  have d: "takeWhile is_digit (decimal n @ c # s) = decimal n" "dropWhile is_digit (decimal n @ c # s) = c # s" for n
    using assms decimal_digits by (auto simp: takeWhile_append2 dropWhile_append2)
  have "\<not> prefix ''-'' (decimal n @ c # s)" for n
  proof -
    have "hd (decimal n) \<noteq> CHR ''-''" using FormatInt_hd [of "int n" "[]"] by (simp add: FormatInt_def)
    then show ?thesis using decimal_nonempty [of n] by (cases "decimal n") auto
  qed
  then show ?thesis by (simp add: take_int_def FormatInt_def Let_def d digits_value_decimal)
qed

lemma take_quoted_plain:
  assumes "plain_string v"
  shows "take_quoted (v @ quote # s) = (v, s)"
proof -
  have "quote \<notin> set v" using assms by (rule plain_no_quote)
  then show ?thesis unfolding take_quoted_def by (induction v) auto
qed

lemma read_marshal_frame:
  assumes "frame_ok f"
  shows "read_frame (marshal_frame marshal f) = Some f"
proof -
  define k1 k2 k3 k4 where "k1 = json_key CHR ''{'' ''seq''" and k2: "k2 = json_key CHR '','' ''stream'' @ [quote]"
    and "k3 = json_key CHR '','' ''data_b64'' @ [quote]" and k4: "k4 = json_key CHR '','' ''t_unix_ms''"
  note keys = this
  have p: "plain_string (Stream f)" "plain_string (DataB64 f)" using assms by (simp_all add: frame_ok_def)
  have nd: "\<not> is_digit CHR '',''" "\<not> is_digit CHR ''}''" by (code_simp, code_simp)
  have n: "take_int (FormatInt v @ k2 @ s) = (v, k2 @ s)" "take_int (FormatInt v @ ''}'') = (v, ''}'')" for v s
    unfolding k2 json_key_def by (simp_all add: take_int_FormatInt nd)
  have m: "marshal_frame marshal f =
      k1 @ FormatInt (Seq f) @ k2 @ Stream f @ quote # k3 @ DataB64 f @ quote # k4 @ FormatInt (TUnixMS f) @ ''}''"
    unfolding marshal_frame_def json_string_plain [OF p(1)] json_string_plain [OF p(2)] keys by simp
  show ?thesis
    unfolding read_frame_def keys [symmetric] m by (simp add: n take_quoted_plain [OF p(1)] take_quoted_plain [OF p(2)])
qed

interpretation frames: line_codec "marshal_frame marshal" read_frame frame_ok for marshal
  by unfold_locales (simp_all add: marshal_no_newline read_marshal_frame)

text \<open>\<open>decodes\<close> is what the readers rely on of \<open>json.Unmarshal\<close>: a record the writer produced from
  plain strings and 64-bit integers reads back as the same frame.\<close>

definition decodes :: "(string \<Rightarrow> string) \<Rightarrow> (string \<Rightarrow> LogFrame option) \<Rightarrow> bool" where
  "decodes marshal unmarshal \<longleftrightarrow> (\<forall>f. frame_ok f \<longrightarrow> unmarshal (marshal_frame marshal f) = Some f)"

lemma decodes_read_frame: "decodes marshal read_frame"
  by (simp add: decodes_def read_marshal_frame)

lemma decodes_codec: "decodes marshal unmarshal \<Longrightarrow> line_codec (marshal_frame marshal) unmarshal frame_ok"
  by unfold_locales (simp_all add: decodes_def marshal_no_newline)

lemma file_of_lines: "frames.file_of marshal fs = concat (map (log_line marshal) fs)"
  by (simp add: frames.file_of_def log_line_def [abs_def])

definition numbered :: "nat \<Rightarrow> LogFrame list \<Rightarrow> bool" where
  "numbered k fs \<longleftrightarrow> map Seq fs = map int [k + 1..<k + 1 + length fs] \<and> (\<forall>f \<in> set fs. frame_ok f)"

lemma numbered_simps [simp]:
  "numbered k []" "numbered k (f # fs) \<longleftrightarrow> Seq f = int k + 1 \<and> frame_ok f \<and> numbered (Suc k) fs"
  by (auto simp: numbered_def upt_rec [of "Suc k"] simp del: upt_Suc)

lemma numbered_above: "numbered k fs \<Longrightarrow> f \<in> set fs \<Longrightarrow> Seq f > int k"
  by (induction fs arbitrary: k) force+

text \<open>Reading whole records: all of them are consumed, those after \<open>fol_last\<close> delivered.\<close>

lemma drain_frames:
  assumes "decodes marshal unmarshal" "\<forall>f. fn f = None" "numbered k fs" "newline \<notin> set torn"
    and "fol_buf st = frames.file_of marshal fs @ torn" "fol_expected st = int k + 1" "int k \<le> fol_last st"
  shows "drain unmarshal fn st =
    (None, \<lparr>fol_last = max (fol_last st) (int (k + length fs)), fol_expected = int (k + length fs) + 1, fol_buf = torn,
       delivered = delivered st @ filter (\<lambda>f. Seq f > fol_last st) fs\<rparr>)"
  using assms(3-)
proof (induction fs arbitrary: k st)
  case Nil
  then show ?case by (cases st) (simp add: drain.simps)
next
  case (Cons f fs)
  have f: "frame_ok f" "Seq f = int k + 1" "numbered (Suc k) fs" using Cons.prems(1) by auto
  note first = line_codec.first_record [OF decodes_codec [OF assms(1)] f(1)]
  have buf: "fol_buf st = marshal_frame marshal f @ newline # (frames.file_of marshal fs @ torn)" using Cons.prems(3) by simp
  let ?st = "st\<lparr>fol_buf := frames.file_of marshal fs @ torn, fol_expected := fol_expected st + 1\<rparr>"
  let ?st' = "if Seq f > fol_last st then ?st\<lparr>fol_last := Seq f, delivered := delivered st @ [f]\<rparr> else ?st"
  have step: "drain unmarshal fn st = drain unmarshal fn ?st'"
    using Cons.prems(4) f(2) assms(2) unfolding drain.simps [of unmarshal fn st] buf first
    by (simp add: first(3) Let_def)
  have st': "fol_buf ?st' = frames.file_of marshal fs @ torn" "fol_expected ?st' = int (Suc k) + 1" "int (Suc k) \<le> fol_last ?st'"
    using Cons.prems(4,5) f(2) by auto
  have "filter (\<lambda>g. Seq g > fol_last ?st') fs = filter (\<lambda>g. Seq g > fol_last st) fs"
    using numbered_above [OF f(3)] f(2) by (intro filter_cong) (auto, fastforce)
  then show ?case unfolding step using Cons.IH [OF f(3) Cons.prems(2) st'] f(2) by (auto simp: max_def)
qed

lemma content_numbered:
  assumes "log_content marshal w fs"
  obtains torn where "numbered 0 fs" "log_file w = frames.file_of marshal fs @ torn"
    "newline \<notin> set torn" "torn \<noteq> [] \<longrightarrow> writeErr w \<noteq> None"
  using assms by (auto simp: log_content_def numbered_def file_of_lines simp del: upt_Suc)

subsection \<open>Properties\<close>

text \<open>How the file is cut into reads does not matter: on any contents, well formed or not, and
  with any callback, \<open>Follow\<close> of a finished log delivers the same frames and returns the same
  result for every way to split the bytes into chunks.\<close>
theorem Follow_chunking:
  assumes "concat cs = concat ds"
  shows "Follow unmarshal True from False fn (map Chunk cs @ [AtEOF x]) =
    Follow unmarshal True from False fn (map Chunk ds @ [AtEOF y])"
  unfolding Follow_file assms ..

theorem Follow_chunking_witness:
  "Follow read_frame True 0 False (\<lambda>_. None) (map Chunk [''{a'', ''b}''] @ [AtEOF (Inr True)]) =
   Follow read_frame True 0 False (\<lambda>_. None) (map Chunk [''{'', ''ab'', ''}''] @ [AtEOF (Inr True)])"
  by (rule Follow_chunking) simp

text \<open>C26. Following the log of a run from any position delivers exactly the frames written after
  that position, in order, and their data is what the streams were given; it ends without an
  error unless a write of the log failed, and then with the integrity error for a torn record.\<close>
theorem Follow_replays_log:
  assumes "log_run marshal mx w sent fs" "log_limit mx" "decodes marshal unmarshal"
    and "\<forall>f. fn f = None" "0 \<le> from" "concat cs = log_file w"
  shows "\<exists>err. Follow unmarshal True from False fn (map Chunk cs @ [AtEOF x]) = (Some err, filter (\<lambda>f. Seq f > from) fs) \<and>
    map frame_data fs = map (apsnd Some) (take (length fs) sent) \<and>
    (err = None \<or> err = Some UnexpectedEOF \<and> writeErr w \<noteq> None)"
proof -
  have ok: "log_content marshal w fs" "log_account mx w sent fs" using log_run_ok [OF assms(1,2)] by auto
  obtain torn where t: "numbered 0 fs" "log_file w = frames.file_of marshal fs @ torn" "newline \<notin> set torn"
    "torn \<noteq> [] \<longrightarrow> writeErr w \<noteq> None" using content_numbered [OF ok(1)] .
  have st: "fol_buf (add_buf (follow_start from) (concat cs)) = frames.file_of marshal fs @ torn"
    "fol_expected (add_buf (follow_start from) (concat cs)) = int 0 + 1"
    "int 0 \<le> fol_last (add_buf (follow_start from) (concat cs))"
    unfolding assms(6) t(2) using assms(5) by (simp_all add: follow_start_def)
  have "drain unmarshal fn (add_buf (follow_start from) (concat cs)) =
      (None, \<lparr>fol_last = max from (int (length fs)), fol_expected = int (length fs) + 1, fol_buf = torn,
        delivered = filter (\<lambda>f. Seq f > from) fs\<rparr>)"
    unfolding drain_frames [OF assms(3,4) t(1,3) st] by (simp add: follow_start_def)
  then show ?thesis
    using t(4) ok(2) unfolding Follow_file by (auto simp: follow_outcome_def log_account_def)
qed

definition short_log :: Writer where
  "short_log = snd (append_log id ''stdout'' ''ok'' 5 None fresh_log)"

lemma short_run: "log_run id 1000 short_log [(''stdout'', ''ok'')] [new_frame fresh_log ''stdout'' ''ok'' 5]"
proof -
  have ap: "append_log id ''stdout'' ''ok'' 5 None fresh_log = (None, short_log)"
    by (simp add: short_log_def append_log_def fresh_log_def Let_def wrap64_def)
  show ?thesis using log_run.append [OF fresh_run sample_limit(2) _ _ _ ap]
    by (simp add: fresh_log_def maxFrameData_def int64_def)
qed

theorem Follow_replays_log_witness:
  "\<exists>err. Follow read_frame True 0 False (\<lambda>_. None) (map Chunk [log_file short_log] @ [AtEOF (Inr True)]) =
     (Some err, [new_frame fresh_log ''stdout'' ''ok'' 5])"
proof -
  have one: "Seq (new_frame fresh_log ''stdout'' ''ok'' 5) > 0" by (simp add: new_frame_def fresh_log_def wrap64_def)
  have "concat [log_file short_log] = log_file short_log" by simp
  from Follow_replays_log [OF short_run sample_limit(1) decodes_read_frame _ _ this, of "\<lambda>_. None" 0 "Inr True"] one
  show ?thesis by auto
qed

end
