(* ===== verification/Log_Live.thy ===== *)
theory Log_Live
  imports Log_Follow
begin

text \<open>
  A follower of a log that is still being written (\<open>Follow\<close> with a \<open>live\<close> writer). The writer holds
  its mutex while it appends, but the follower reads the file without it: the bytes of a record
  show up one after the other before the record is counted, and a failed write leaves what was
  shown. \<open>waitChange\<close> takes the mutex, so it never sees an append half done. The steps of the two
  interleave in any way; between finding the end of the file and \<open>waitChange\<close> the writer may
  append or close. Reads may fail and the context may be cancelled.
\<close>

subsection \<open>The system\<close>

type_synonym log_state = "Writer \<times> (string \<times> bytes) list \<times> LogFrame list"

inductive log_step :: "(string \<Rightarrow> string) \<Rightarrow> log_state \<Rightarrow> log_state \<Rightarrow> bool" for marshal where
  append: "\<lbrakk>plain_string stream; data \<noteq> []; length data \<le> maxFrameData; int64 now;
    append_log marshal stream data now fate w = (err, w')\<rbrakk>
    \<Longrightarrow> log_step marshal (w, sent, fs)
          (w', if log_closed w then sent else sent @ [(stream, data)],
           if err = None then fs @ [new_frame w stream data now] else fs)"
| close: "Close close_err w = (err, w') \<Longrightarrow> log_step marshal (w, sent, fs) (w', sent, fs)"

text \<open>\<open>lwrite\<close> is the append the writer is in, \<open>lshown\<close> what the file already shows of its record;
  \<open>lbegan\<close> is how many frames the log had when the follower opened it.\<close>

record live =
  lw :: Writer
  lsent :: "(string \<times> bytes) list"
  lfs :: "LogFrame list"
  lwrite :: "(string \<times> bytes \<times> int) option"
  lshown :: string
  lbegan :: nat
  lpos :: nat
  lst :: follow_state
  at_eof :: bool
  lres :: "follow_error option option"

definition visible :: "live \<Rightarrow> string" where
  "visible s = log_file (lw s) @ lshown s"

text \<open>The frame of the append in progress.\<close>

definition pending :: "live \<Rightarrow> LogFrame list" where
  "pending s = (case lwrite s of None \<Rightarrow> [] | Some (stream, data, now) \<Rightarrow> [new_frame (lw s) stream data now])"

text \<open>A step of the writer: a whole call, or a part of an append that reaches the file.\<close>

inductive writer_step :: "(string \<Rightarrow> string) \<Rightarrow> live \<Rightarrow> live \<Rightarrow> bool" for marshal where
  call: "\<lbrakk>lwrite s = None; log_step marshal (lw s, lsent s, lfs s) (w, sent, fs)\<rbrakk>
    \<Longrightarrow> writer_step marshal s (s\<lparr>lw := w, lsent := sent, lfs := fs\<rparr>)"
| write_begin: "\<lbrakk>lwrite s = None; plain_string stream; data \<noteq> []; length data \<le> maxFrameData; int64 now;
    fst (append_log marshal stream data now None (lw s)) = None\<rbrakk>
    \<Longrightarrow> writer_step marshal s (s\<lparr>lwrite := Some (stream, data, now)\<rparr>)"
| write_some: "\<lbrakk>lwrite s = Some (stream, data, now);
    prefix (lshown s @ part) (log_line marshal (new_frame (lw s) stream data now))\<rbrakk>
    \<Longrightarrow> writer_step marshal s (s\<lparr>lshown := lshown s @ part\<rparr>)"
| write_end: "\<lbrakk>lwrite s = Some (stream, data, now); append_log marshal stream data now fate (lw s) = (err, w');
    prefix (visible s) (log_file w')\<rbrakk>
    \<Longrightarrow> writer_step marshal s
          (s\<lparr>lw := w', lsent := lsent s @ [(stream, data)],
             lfs := (if err = None then lfs s @ [new_frame (lw s) stream data now] else lfs s), lwrite := None, lshown := []\<rparr>)"

inductive reader_step :: "(string \<Rightarrow> LogFrame option) \<Rightarrow> (LogFrame \<Rightarrow> string option) \<Rightarrow> live \<Rightarrow> live \<Rightarrow> bool"
  for unmarshal fn where
  read: "\<lbrakk>lres s = None; \<not> at_eof s; 0 < n; n \<le> 32 * 1024; lpos s + n \<le> length (visible s);
    follow_step unmarshal fn True (Chunk (take n (drop (lpos s) (visible s)))) (lst s) = (r, st')\<rbrakk>
    \<Longrightarrow> reader_step unmarshal fn s (s\<lparr>lpos := lpos s + n, lst := st', lres := r\<rparr>)"
| eof: "\<lbrakk>lres s = None; \<not> at_eof s; lpos s = length (visible s)\<rbrakk>
    \<Longrightarrow> reader_step unmarshal fn s (s\<lparr>at_eof := True\<rparr>)"
| wait: "\<lbrakk>lres s = None; at_eof s; lwrite s = None; waitChange ctx_err (fol_last (lst s)) (lw s) = Some outcome;
    follow_step unmarshal fn True (AtEOF outcome) (lst s) = (r, st')\<rbrakk>
    \<Longrightarrow> reader_step unmarshal fn s (s\<lparr>lst := st', at_eof := False, lres := r\<rparr>)"
| fail: "\<lbrakk>lres s = None; \<not> at_eof s; ev = CtxDone e \<or> ev = ReadFailed e; follow_step unmarshal fn True ev (lst s) = (r, st')\<rbrakk>
    \<Longrightarrow> reader_step unmarshal fn s (s\<lparr>lst := st', lres := r\<rparr>)"

inductive live_run ::
  "(string \<Rightarrow> string) \<Rightarrow> (string \<Rightarrow> LogFrame option) \<Rightarrow> (LogFrame \<Rightarrow> string option) \<Rightarrow> int \<Rightarrow> int \<Rightarrow> live \<Rightarrow> bool"
  for marshal unmarshal fn mx start_at where
  begin_follow: "log_run marshal mx w sent fs
    \<Longrightarrow> live_run marshal unmarshal fn mx start_at
          \<lparr>lw = w, lsent = sent, lfs = fs, lwrite = None, lshown = [], lbegan = length fs, lpos = 0,
           lst = follow_start start_at, at_eof = False, lres = None\<rparr>"
| writes: "\<lbrakk>live_run marshal unmarshal fn mx start_at s; writer_step marshal s s'\<rbrakk>
    \<Longrightarrow> live_run marshal unmarshal fn mx start_at s'"
| reads: "\<lbrakk>live_run marshal unmarshal fn mx start_at s; reader_step unmarshal fn s s'\<rbrakk>
    \<Longrightarrow> live_run marshal unmarshal fn mx start_at s'"

subsection \<open>The invariant\<close>

text \<open>\<open>consumed\<close> is what the follower has read; \<open>k\<close> complete records are in it.\<close>

definition follower_ok :: "(string \<Rightarrow> string) \<Rightarrow> int \<Rightarrow> LogFrame list \<Rightarrow> string \<Rightarrow> follow_state \<Rightarrow> bool" where
  "follower_ok marshal start_at fs consumed st \<longleftrightarrow>
     (let k = count_list consumed newline
      in consumed = frames.file_of marshal (take k fs) @ fol_buf st \<and> newline \<notin> set (fol_buf st) \<and> k \<le> length fs \<and>
         fol_expected st = int k + 1 \<and> fol_last st = max start_at (int k) \<and>
         delivered st = filter (\<lambda>f. Seq f > start_at) (take k fs))"

definition stopped :: "follow_error option option \<Rightarrow> bool" where
  "stopped r \<longleftrightarrow> (\<exists>e. r = Some (Some (CtxError e)) \<or> r = Some (Some (ReadError e)))"

definition result_ok :: "live \<Rightarrow> bool" where
  "result_ok s \<longleftrightarrow>
     lres s = None \<or> stopped (lres s) \<or>
     log_closed (lw s) \<and> log_seq (lw s) \<le> fol_last (lst s) \<and>
     lbegan s \<le> count_list (take (lpos s) (visible s)) newline \<and>
     lres s = Some (if fol_buf (lst s) \<noteq> [] then Some UnexpectedEOF else None)"

definition write_ok :: "(string \<Rightarrow> string) \<Rightarrow> live \<Rightarrow> bool" where
  "write_ok marshal s \<longleftrightarrow>
     (case lwrite s of
        None \<Rightarrow> lshown s = []
      | Some (stream, data, now) \<Rightarrow>
          plain_string stream \<and> data \<noteq> [] \<and> length data \<le> maxFrameData \<and> int64 now \<and>
          fst (append_log marshal stream data now None (lw s)) = None \<and>
          prefix (lshown s) (log_line marshal (new_frame (lw s) stream data now)))"

definition live_inv :: "(string \<Rightarrow> string) \<Rightarrow> int \<Rightarrow> int \<Rightarrow> live \<Rightarrow> bool" where
  "live_inv marshal mx start_at s \<longleftrightarrow>
     log_run marshal mx (lw s) (lsent s) (lfs s) \<and> write_ok marshal s \<and> lbegan s \<le> length (lfs s) \<and>
     lpos s \<le> length (visible s) \<and>
     follower_ok marshal start_at (lfs s @ pending s) (take (lpos s) (visible s)) (lst s) \<and>
     (at_eof s \<longrightarrow> lbegan s \<le> count_list (take (lpos s) (visible s)) newline) \<and> result_ok s"

text \<open>The reader's fields do not matter for what the file shows.\<close>

lemma reader_fields [simp]:
  "visible (s\<lparr>lpos := p\<rparr>) = visible s" "visible (s\<lparr>lst := st\<rparr>) = visible s"
  "visible (s\<lparr>at_eof := b\<rparr>) = visible s" "visible (s\<lparr>lres := r\<rparr>) = visible s"
  "pending (s\<lparr>lpos := p\<rparr>) = pending s" "pending (s\<lparr>lst := st\<rparr>) = pending s"
  "pending (s\<lparr>at_eof := b\<rparr>) = pending s" "pending (s\<lparr>lres := r\<rparr>) = pending s"
  "write_ok marshal (s\<lparr>lpos := p\<rparr>) = write_ok marshal s" "write_ok marshal (s\<lparr>lst := st\<rparr>) = write_ok marshal s"
  "write_ok marshal (s\<lparr>at_eof := b\<rparr>) = write_ok marshal s" "write_ok marshal (s\<lparr>lres := r\<rparr>) = write_ok marshal s"
  by (simp_all add: visible_def pending_def write_ok_def cong: option.case_cong)

lemma log_step_run:
  assumes "log_run marshal mx w sent fs" "log_step marshal (w, sent, fs) (w', sent', fs')"
  shows "log_run marshal mx w' sent' fs'"
  using assms(2)
proof cases
  case (append stream data now fate err)
  show ?thesis unfolding append(1,2) by (rule log_run.append [OF assms(1) append(3-7)])
next
  case (close close_err err)
  show ?thesis unfolding close(1,2) by (rule log_run.close [OF assms(1) close(3)])
qed

lemma log_step_extends:
  assumes "log_step marshal (w, sent, fs) (w', sent', fs')"
  shows "prefix (log_file w) (log_file w') \<and> prefix fs fs' \<and> (log_closed w \<longrightarrow> log_closed w' \<and> log_seq w' = log_seq w) \<and>
    (writeErr w \<noteq> None \<longrightarrow> writeErr w' \<noteq> None)"
  using assms
proof cases
  case (append stream data now fate err)
  from append(7) show ?thesis by (cases rule: append_cases) (auto simp: append(2))
next
  case close
  then show ?thesis by (auto simp: Close_def split: if_splits)
qed

lemma numbered_below: "numbered k fs \<Longrightarrow> f \<in> set fs \<Longrightarrow> Seq f \<le> int (k + length fs)"
  by (induction fs arbitrary: k) force+

lemma numbered_take: "numbered k fs \<Longrightarrow> numbered k (take n fs)"
  by (induction fs arbitrary: k n) (auto simp: take_Cons split: nat.splits)

lemma numbered_drop: "numbered k fs \<Longrightarrow> numbered (k + n) (drop n fs)"
proof (induction fs arbitrary: k n)
  case (Cons f fs)
  then show ?case using Cons.IH [of "Suc k" "n - 1"] by (cases n) auto
qed simp

text \<open>One more chunk of the file.\<close>

lemma follower_reads:
  assumes f: "follower_ok marshal start_at fs p st" and c: "prefix (p @ c) (frames.file_of marshal fs @ torn)"
    and fs: "numbered 0 fs" and torn: "newline \<notin> set torn" and dec: "decodes marshal unmarshal" "\<forall>f. fn f = None"
  shows "\<exists>st'. follow_step unmarshal fn True (Chunk c) st = (None, st') \<and> follower_ok marshal start_at fs (p @ c) st'"
proof -
  let ?k = "count_list p newline" and ?k' = "count_list (p @ c) newline"
  have all_ok: "\<forall>f \<in> set fs. frame_ok f" using fs by (simp add: numbered_def)
  obtain r where r: "p @ c = frames.file_of marshal (take ?k' fs) @ r" "newline \<notin> set r" "?k' \<le> length fs"
    using frames.read_prefix [OF c all_ok torn] by blast
  note st = f [unfolded follower_ok_def Let_def]
  let ?new = "drop ?k (take ?k' fs)"
  have "min ?k ?k' = ?k" by simp
  then have cut: "take ?k' fs = take ?k fs @ ?new"
    using append_take_drop_id [of ?k "take ?k' fs", symmetric] unfolding take_take by simp
  then have split: "fol_buf st @ c = frames.file_of marshal ?new @ r"
    using r(1) st by (metis append_assoc append_same_eq frames.file_of_simps(3) same_append_eq)
  have new: "numbered ?k ?new" using numbered_drop [OF numbered_take [OF fs], of ?k] by simp
  let ?st = "add_buf st c"
  have pre: "fol_buf ?st = frames.file_of marshal ?new @ r" "fol_expected ?st = int ?k + 1" "int ?k \<le> fol_last ?st"
    using split st by simp_all
  have len: "?k + length ?new = ?k'" using r(3) by simp
  have filt: "filter (\<lambda>f. Seq f > fol_last ?st) ?new = filter (\<lambda>f. Seq f > start_at) ?new"
    using numbered_above [OF new] st by (intro filter_cong) auto
  have d: "drain unmarshal fn ?st = (None, \<lparr>fol_last = max (fol_last ?st) (int ?k'), fol_expected = int ?k' + 1,
      fol_buf = r, delivered = delivered ?st @ filter (\<lambda>f. Seq f > start_at) ?new\<rparr>)"
    using drain_frames [OF dec new r(2) pre] unfolding len filt .
  have deliv: "delivered ?st @ filter (\<lambda>f. Seq f > start_at) ?new = filter (\<lambda>f. Seq f > start_at) (take ?k' fs)"
    using st arg_cong [OF cut, of "filter (\<lambda>f. Seq f > start_at)"] unfolding filter_append by simp
  have high: "max (fol_last ?st) (int ?k') = max start_at (int ?k')" using st by simp
  have "follower_ok marshal start_at fs (p @ c) (snd (drain unmarshal fn ?st))"
    unfolding d deliv high follower_ok_def Let_def snd_conv follow_state.select_convs using r by (intro conjI refl)
  then show ?thesis by (simp add: follow_step_def d)
qed

lemma follower_writes:
  assumes "follower_ok marshal start_at fs p st" "prefix fs fs'"
  shows "follower_ok marshal start_at fs' p st"
proof -
  have "count_list p newline \<le> length fs" using assms(1) by (simp add: follower_ok_def Let_def)
  then have "take (count_list p newline) fs' = take (count_list p newline) fs" "count_list p newline \<le> length fs'"
    using assms(2) by (auto simp: prefix_def)
  with assms(1) show ?thesis by (simp add: follower_ok_def Let_def)
qed

text \<open>An append whose write fails: the frame is not there after all.\<close>

lemma follower_fails:
  assumes "follower_ok marshal start_at (fs @ gone) p st" "prefix p (frames.file_of marshal fs @ torn)"
    and "newline \<notin> set torn" "numbered 0 fs"
  shows "follower_ok marshal start_at fs p st"
proof -
  have "\<forall>f \<in> set fs. frame_ok f" using assms(4) by (simp add: numbered_def)
  from frames.read_prefix [OF assms(2) this assms(3)] have "count_list p newline \<le> length fs" by blast
  then show ?thesis using assms(1) by (simp add: follower_ok_def Let_def)
qed

text \<open>An append in progress could succeed.\<close>

lemma append_could:
  assumes "log_run marshal mx w sent fs" "plain_string stream" "data \<noteq> []" "length data \<le> maxFrameData" "int64 now"
    and "fst (append_log marshal stream data now None w) = None"
  shows "\<exists>w'. log_run marshal mx w' (sent @ [(stream, data)]) (fs @ [new_frame w stream data now]) \<and>
    log_file w' = log_file w @ log_line marshal (new_frame w stream data now) \<and> Complete w \<and> \<not> log_closed w \<and> writeErr w' = None"
proof -
  obtain w' where ap: "append_log marshal stream data now None w = (None, w')" using assms(6) by (metis prod.collapse)
  from ap show ?thesis
  proof (cases rule: append_cases)
    case written
    then show ?thesis using log_run.append [OF assms(1-5) ap] by (auto simp: Complete_def)
  qed auto
qed

lemma visible_frames:
  assumes "log_run marshal mx (lw s) (lsent s) (lfs s)" "write_ok marshal s" "log_limit mx"
  obtains torn where "numbered 0 (lfs s @ pending s)" "prefix (visible s) (frames.file_of marshal (lfs s @ pending s) @ torn)"
    "newline \<notin> set torn" "torn \<noteq> [] \<longrightarrow> writeErr (lw s) \<noteq> None" "prefix (frames.file_of marshal (lfs s)) (visible s)"
    "numbered 0 (lfs s)" "log_seq (lw s) = int (length (lfs s))" "log_closed (lw s) \<longrightarrow> lwrite s = None"
proof -
  have c: "log_content marshal (lw s) (lfs s)" using assms(1,3) log_run_ok by blast
  obtain torn where t: "numbered 0 (lfs s)" "log_file (lw s) = frames.file_of marshal (lfs s) @ torn" "newline \<notin> set torn"
    "torn \<noteq> [] \<longrightarrow> writeErr (lw s) \<noteq> None" using content_numbered [OF c] .
  have seq: "log_seq (lw s) = int (length (lfs s))" using c by (simp add: log_content_def)
  have pre: "prefix (frames.file_of marshal (lfs s)) (visible s)" by (simp add: visible_def t(2))
  show ?thesis
  proof (cases "lwrite s")
    case None
    then show ?thesis using that [of torn] t seq pre assms(2) by (simp add: pending_def visible_def write_ok_def)
  next
    case (Some x)
    obtain stream data now where x: "x = (stream, data, now)" by (cases x)
    let ?f = "new_frame (lw s) stream data now"
    have wr: "plain_string stream" "data \<noteq> []" "length data \<le> maxFrameData" "int64 now"
      "fst (append_log marshal stream data now None (lw s)) = None" "prefix (lshown s) (log_line marshal ?f)"
      using assms(2) Some x by (simp_all add: write_ok_def)
    obtain w' where w': "log_run marshal mx w' (lsent s @ [(stream, data)]) (lfs s @ [?f])"
      "log_file w' = log_file (lw s) @ log_line marshal ?f" "Complete (lw s)" "\<not> log_closed (lw s)" "writeErr w' = None"
      using append_could [OF assms(1) wr(1-5)] by blast
    have c': "log_content marshal w' (lfs s @ [?f])" using w'(1) assms(3) log_run_ok by blast
    obtain torn' where t': "numbered 0 (lfs s @ [?f])" "log_file w' = frames.file_of marshal (lfs s @ [?f]) @ torn'"
      "torn' \<noteq> [] \<longrightarrow> writeErr w' \<noteq> None" using content_numbered [OF c'] by metis
    have "prefix (visible s) (log_file w')" using wr(6) by (simp add: visible_def w'(2))
    moreover have "torn' = []" using t'(3) w'(5) by blast
    moreover have "pending s = [?f]" using Some x by (simp add: pending_def)
    ultimately show ?thesis using that [of "[]"] t'(1,2) t(1) seq pre w'(4) by simp
  qed
qed

lemma live_parts:
  assumes "live_inv marshal mx start_at s" "log_limit mx"
  obtains k torn where "numbered 0 (lfs s @ pending s)" "prefix (visible s) (frames.file_of marshal (lfs s @ pending s) @ torn)"
    "newline \<notin> set torn" "torn \<noteq> [] \<longrightarrow> writeErr (lw s) \<noteq> None" "prefix (frames.file_of marshal (lfs s)) (visible s)"
    "numbered 0 (lfs s)" "log_seq (lw s) = int (length (lfs s))" "log_closed (lw s) \<longrightarrow> lwrite s = None"
    "k = count_list (take (lpos s) (visible s)) newline" "k \<le> length (lfs s @ pending s)"
    "take (lpos s) (visible s) = frames.file_of marshal (take k (lfs s @ pending s)) @ fol_buf (lst s)"
    "delivered (lst s) = filter (\<lambda>f. Seq f > start_at) (take k (lfs s @ pending s))" "fol_last (lst s) = max start_at (int k)"
proof -
  have i: "log_run marshal mx (lw s) (lsent s) (lfs s)" "write_ok marshal s"
    "follower_ok marshal start_at (lfs s @ pending s) (take (lpos s) (visible s)) (lst s)"
    using assms(1) by (simp_all add: live_inv_def)
  obtain torn where t: "numbered 0 (lfs s @ pending s)" "prefix (visible s) (frames.file_of marshal (lfs s @ pending s) @ torn)"
    "newline \<notin> set torn" "torn \<noteq> [] \<longrightarrow> writeErr (lw s) \<noteq> None" "prefix (frames.file_of marshal (lfs s)) (visible s)"
    "numbered 0 (lfs s)" "log_seq (lw s) = int (length (lfs s))" "log_closed (lw s) \<longrightarrow> lwrite s = None"
    using visible_frames [OF i(1,2) assms(2)] .
  note st = i(3) [unfolded follower_ok_def Let_def]
  from st show ?thesis by (elim conjE) (rule that [OF t refl], assumption+)
qed

text \<open>At the end of the file all frames the log has were read.\<close>

lemma read_all:
  assumes "live_inv marshal mx start_at s" "log_limit mx" "lpos s = length (visible s)"
  shows "length (lfs s) \<le> count_list (take (lpos s) (visible s)) newline" "log_seq (lw s) \<le> fol_last (lst s)"
proof -
  obtain k where k: "prefix (frames.file_of marshal (lfs s)) (visible s)" "numbered 0 (lfs s)" "log_seq (lw s) = int (length (lfs s))"
    "k = count_list (take (lpos s) (visible s)) newline" "fol_last (lst s) = max start_at (int k)"
    using live_parts [OF assms(1,2)] by metis
  have "count_list (frames.file_of marshal (lfs s)) newline = length (lfs s)"
    using frames.count_file_of k(2) by (simp add: numbered_def)
  then show "length (lfs s) \<le> count_list (take (lpos s) (visible s)) newline"
    using k(1) assms(3) by (auto simp: prefix_def)
  then show "log_seq (lw s) \<le> fol_last (lst s)" using k(3-5) by simp
qed

text \<open>What is left in the buffer begins a frame that is there, or is torn.\<close>

lemma partial_record:
  assumes "live_inv marshal mx start_at s" "log_limit mx" "fol_buf (lst s) \<noteq> []"
  shows "writeErr (lw s) \<noteq> None \<or> count_list (take (lpos s) (visible s)) newline < length (lfs s @ pending s)"
proof -
  obtain k torn where k: "prefix (visible s) (frames.file_of marshal (lfs s @ pending s) @ torn)" "torn \<noteq> [] \<longrightarrow> writeErr (lw s) \<noteq> None"
    "k = count_list (take (lpos s) (visible s)) newline" "k \<le> length (lfs s @ pending s)"
    "take (lpos s) (visible s) = frames.file_of marshal (take k (lfs s @ pending s)) @ fol_buf (lst s)"
    using live_parts [OF assms(1,2)] by metis
  have "prefix (take (lpos s) (visible s)) (frames.file_of marshal (lfs s @ pending s) @ torn)"
    using k(1) prefix_order.trans take_is_prefix by blast
  then have "torn \<noteq> []" if "k = length (lfs s @ pending s)" using that k(5) assms(3) by (auto simp: prefix_def)
  then show ?thesis using k(2-4) by (cases "k = length (lfs s @ pending s)") auto
qed

lemma waitChange_cases:
  assumes "waitChange ctx_err cur w = Some outcome"
  shows "(\<exists>e. outcome = Inl e) \<or> outcome = Inr (log_closed w \<and> log_seq w \<le> cur) \<and> (log_closed w \<or> cur < log_seq w)"
  using assms by (auto simp: waitChange_def split: if_splits option.splits)

lemma reader_step_inv:
  assumes inv: "live_inv marshal mx start_at s" and lim: "log_limit mx"
    and dec: "decodes marshal unmarshal" "\<forall>f. fn f = None" and step: "reader_step unmarshal fn s s'"
  shows "live_inv marshal mx start_at s'"
  using step
proof cases
  case (read n r st')
  obtain torn where t: "numbered 0 (lfs s @ pending s)" "prefix (visible s) (frames.file_of marshal (lfs s @ pending s) @ torn)"
    "newline \<notin> set torn" using live_parts [OF inv lim] by metis
  let ?p = "take (lpos s) (visible s)" and ?c = "take n (drop (lpos s) (visible s))"
  have "?p @ ?c = take (lpos s + n) (visible s)" by (simp add: take_add)
  moreover have "prefix (take (lpos s + n) (visible s)) (frames.file_of marshal (lfs s @ pending s) @ torn)"
    using t(2) prefix_order.trans take_is_prefix by blast
  moreover have "follower_ok marshal start_at (lfs s @ pending s) ?p (lst s)" using inv by (simp add: live_inv_def)
  ultimately obtain st'' where "follow_step unmarshal fn True (Chunk ?c) (lst s) = (None, st'')"
      "follower_ok marshal start_at (lfs s @ pending s) (take (lpos s + n) (visible s)) st''"
    using follower_reads [OF _ _ t(1,3) dec, of start_at ?p "lst s" ?c] by metis
  then have "r = None" "follower_ok marshal start_at (lfs s @ pending s) (take (lpos s + n) (visible s)) st'"
    using read(7) by simp_all
  then show ?thesis using inv read by (simp add: live_inv_def result_ok_def)
next
  case eof
  have "lbegan s \<le> count_list (take (lpos s) (visible s)) newline"
    using inv read_all(1) [OF inv lim eof(4)] by (simp add: live_inv_def)
  then show ?thesis using inv eof by (simp add: live_inv_def result_ok_def)
next
  case (wait ctx_err outcome r st')
  have "st' = lst s" "r = None \<or> stopped r \<or> log_closed (lw s) \<and> log_seq (lw s) \<le> fol_last (lst s) \<and>
      r = Some (if fol_buf (lst s) \<noteq> [] then Some UnexpectedEOF else None)"
    using wait(6) waitChange_cases [OF wait(5)] by (auto simp: follow_step_def stopped_def split: sum.splits if_splits)
  then show ?thesis using inv wait by (auto simp: live_inv_def result_ok_def)
next
  case (fail ev e r st')
  then have "st' = lst s" "stopped r" by (auto simp: follow_step_def stopped_def)
  then show ?thesis using inv fail by (simp add: live_inv_def result_ok_def)
qed

lemma live_inv_grows:
  assumes inv: "live_inv marshal mx start_at s"
    and run: "log_run marshal mx (lw s') (lsent s') (lfs s')" "write_ok marshal s'" "length (lfs s) \<le> length (lfs s')"
    and same: "lpos s' = lpos s" "lst s' = lst s" "at_eof s' = at_eof s" "lres s' = lres s" "lbegan s' = lbegan s"
    and grow: "prefix (visible s) (visible s')"
    and fol: "follower_ok marshal start_at (lfs s' @ pending s') (take (lpos s) (visible s)) (lst s)"
    and closed: "log_closed (lw s) \<longrightarrow> log_closed (lw s') \<and> log_seq (lw s') = log_seq (lw s)"
  shows "live_inv marshal mx start_at s'"
proof -
  have "take (lpos s) (visible s') = take (lpos s) (visible s)" "lpos s \<le> length (visible s')"
    using inv grow by (auto simp: live_inv_def prefix_def)
  then show ?thesis using inv run same fol closed by (auto simp: live_inv_def result_ok_def)
qed

lemma follower_prefix:
  assumes "live_inv marshal mx start_at s" "prefix (lfs s @ pending s) fs"
  shows "follower_ok marshal start_at fs (take (lpos s) (visible s)) (lst s)"
  using assms follower_writes by (auto simp: live_inv_def)

lemma writer_step_inv:
  assumes inv: "live_inv marshal mx start_at s" and lim: "log_limit mx" and step: "writer_step marshal s s'"
  shows "live_inv marshal mx start_at s'"
  using step
proof cases
  case (call w sent fs)
  note ext = log_step_extends [OF call(3)]
  have shown: "lshown s = []" "pending s = []" "pending s' = []"
    using inv call(1,2) by (simp_all add: live_inv_def write_ok_def pending_def)
  have "log_run marshal mx w sent fs" using log_step_run [OF _ call(3)] inv by (simp add: live_inv_def)
  then show ?thesis
    using call(1,2) shown ext follower_prefix [OF inv, of fs] prefix_length_le [of "lfs s" fs]
    by (intro live_inv_grows [OF inv]) (simp_all add: write_ok_def visible_def)
next
  case (write_begin stream data now)
  have shown: "lshown s = []" "pending s = []" using inv write_begin(2) by (simp_all add: live_inv_def write_ok_def pending_def)
  then show ?thesis
    using write_begin inv follower_prefix [OF inv, of "lfs s @ pending s'"]
    by (intro live_inv_grows [OF inv]) (simp_all add: write_ok_def visible_def live_inv_def)
next
  case (write_some stream data now part)
  have "pending s' = pending s" by (simp add: write_some(1) pending_def cong: option.case_cong)
  then show ?thesis
    using write_some inv by (intro live_inv_grows [OF inv]) (simp_all add: write_ok_def visible_def live_inv_def)
next
  case (write_end stream data now fate err w')
  let ?f = "new_frame (lw s) stream data now"
  have wr: "plain_string stream" "data \<noteq> []" "length data \<le> maxFrameData" "int64 now"
      "fst (append_log marshal stream data now None (lw s)) = None" and run: "log_run marshal mx (lw s) (lsent s) (lfs s)"
    using inv write_end(2) by (simp_all add: live_inv_def write_ok_def)
  have open_log: "\<not> log_closed (lw s)" using append_could [OF run wr] by blast
  have run': "log_run marshal mx w' (lsent s @ [(stream, data)]) (if err = None then lfs s @ [?f] else lfs s)"
    using log_run.append [OF run wr(1-4) write_end(3)] open_log by simp
  have vis: "visible s' = log_file w'" "pending s' = []" by (simp_all add: write_end(1) visible_def pending_def)
  have pend: "pending s = [?f]" using write_end(2) by (simp add: pending_def)
  have fol: "follower_ok marshal start_at (if err = None then lfs s @ [?f] else lfs s) (take (lpos s) (visible s)) (lst s)"
  proof (cases "err = None")
    case True
    then show ?thesis using inv pend by (simp add: live_inv_def)
  next
    case False
    have "log_content marshal w' (lfs s)" using run' False lim log_run_ok by auto
    then obtain torn where t: "numbered 0 (lfs s)" "log_file w' = frames.file_of marshal (lfs s) @ torn" "newline \<notin> set torn"
      using content_numbered by metis
    have "prefix (take (lpos s) (visible s)) (frames.file_of marshal (lfs s) @ torn)"
      using write_end(4) prefix_order.trans take_is_prefix unfolding t(2) by blast
    moreover have "follower_ok marshal start_at (lfs s @ [?f]) (take (lpos s) (visible s)) (lst s)"
      using inv pend by (simp add: live_inv_def)
    ultimately have "follower_ok marshal start_at (lfs s) (take (lpos s) (visible s)) (lst s)"
      using follower_fails t(1,3) by blast
    then show ?thesis using False by auto
  qed
  show ?thesis
    using write_end(1,4) run' fol vis open_log
    by (intro live_inv_grows [OF inv]) (simp_all add: write_ok_def)
qed

lemma live_run_inv:
  assumes "live_run marshal unmarshal fn mx start_at s" "log_limit mx" "0 \<le> start_at"
    and "decodes marshal unmarshal" "\<forall>f. fn f = None"
  shows "live_inv marshal mx start_at s"
  using assms(1)
proof (induction rule: live_run.induct)
  case (begin_follow w sent fs)
  then show ?case using assms(3)
    by (simp add: live_inv_def follower_ok_def result_ok_def follow_start_def write_ok_def pending_def visible_def)
next
  case (writes s s')
  then show ?case using writer_step_inv assms(2) by blast
next
  case (reads s s')
  then show ?case using reader_step_inv assms(2,4,5) by blast
qed

subsection \<open>Properties\<close>

text \<open>C21. However a follower interleaves with the writer, and however the bytes of a record reach the
  file: what it has delivered is always the beginning of the frames written after its start,
  the one being written included. It returns an error of its context or of reading the file, or
  else only when the log is closed and everything written after the start was delivered: without
  an error, or with the one for a torn record. That one means that a write failed, or that the
  follower was asked to start after a frame the log did not have yet when it was opened.\<close>
theorem live_follow_complete:
  assumes "live_run marshal unmarshal fn mx start_at s" "log_limit mx" "0 \<le> start_at"
    and "decodes marshal unmarshal" "\<forall>f. fn f = None"
  shows "prefix (delivered (lst s)) (filter (\<lambda>f. Seq f > start_at) (lfs s @ pending s)) \<and>
    (lres s = None \<or> stopped (lres s) \<or>
     log_closed (lw s) \<and> delivered (lst s) = filter (\<lambda>f. Seq f > start_at) (lfs s) \<and>
     (lres s = Some None \<or>
      lres s = Some (Some UnexpectedEOF) \<and> (writeErr (lw s) \<noteq> None \<or> int (lbegan s) < start_at)))"
proof -
  have inv: "live_inv marshal mx start_at s" using live_run_inv assms by blast
  let ?f = "\<lambda>f. Seq f > start_at"
  obtain k where k: "numbered 0 (lfs s)" "log_seq (lw s) = int (length (lfs s))" "log_closed (lw s) \<longrightarrow> lwrite s = None"
    "k = count_list (take (lpos s) (visible s)) newline" "k \<le> length (lfs s @ pending s)"
    "delivered (lst s) = filter ?f (take k (lfs s @ pending s))" "fol_last (lst s) = max start_at (int k)"
    using live_parts [OF inv assms(2)] by metis
  have split: "filter ?f (lfs s @ pending s) = delivered (lst s) @ filter ?f (drop k (lfs s @ pending s))"
    unfolding k(6) filter_append [symmetric] append_take_drop_id ..
  have all: "filter ?f (drop k (lfs s)) = []" if "log_seq (lw s) \<le> fol_last (lst s)"
  proof (cases "length (lfs s) \<le> k")
    case False
    then have "Seq f \<le> start_at" if "f \<in> set (lfs s)" for f
      using that \<open>log_seq (lw s) \<le> fol_last (lst s)\<close> k numbered_below [OF k(1)] by fastforce
    then show ?thesis unfolding filter_empty_conv by (meson in_set_dropD not_le)
  qed simp
  have "lres s = None \<or> stopped (lres s) \<or>
     log_closed (lw s) \<and> delivered (lst s) = filter ?f (lfs s) \<and>
     (lres s = Some None \<or> lres s = Some (Some UnexpectedEOF) \<and> (writeErr (lw s) \<noteq> None \<or> int (lbegan s) < start_at))"
  proof (cases "lres s = None \<or> stopped (lres s)")
    case False
    then have r: "log_closed (lw s)" "log_seq (lw s) \<le> fol_last (lst s)" "lbegan s \<le> k"
      "lres s = Some (if fol_buf (lst s) \<noteq> [] then Some UnexpectedEOF else None)"
      using inv k(4) by (auto simp: live_inv_def result_ok_def)
    then have p: "pending s = []" using k(3) by (simp add: pending_def)
    have "delivered (lst s) = filter ?f (lfs s)" using split all [OF r(2)] p by simp
    moreover have "writeErr (lw s) \<noteq> None \<or> int (lbegan s) < start_at" if "fol_buf (lst s) \<noteq> []"
      using partial_record [OF inv assms(2) that] r(2,3) k(2,4,7) p by auto
    ultimately show ?thesis using r by auto
  qed blast
  then show ?thesis using split by auto
qed

text \<open>What is left to do for the follower of a closed log.\<close>

definition reader_work :: "live \<Rightarrow> nat" where
  "reader_work s = 2 * (length (visible s) - lpos s) +
     (if at_eof s then if log_seq (lw s) \<le> fol_last (lst s) then 0 else 2 else 1)"

text \<open>C22. Once the log is closed, a follower returns: until it has, it can always make a step, and
  every step either returns or leaves less to do. In particular it never spins on wake-ups that
  bring no new data.\<close>
theorem live_follow_returns:
  assumes "live_run marshal unmarshal fn mx start_at s" "log_limit mx" "0 \<le> start_at"
    and "decodes marshal unmarshal" "\<forall>f. fn f = None" "log_closed (lw s)" "lres s = None"
  shows "(\<exists>s'. reader_step unmarshal fn s s') \<and>
    (\<forall>s'. reader_step unmarshal fn s s' \<longrightarrow> lres s' \<noteq> None \<or> reader_work s' < reader_work s)"
proof -
  have inv: "live_inv marshal mx start_at s" using live_run_inv assms(1-5) by blast
  have pos: "lpos s \<le> length (visible s)" using inv by (simp add: live_inv_def)
  have "\<exists>s'. reader_step unmarshal fn s s'"
  proof (cases "at_eof s")
    case True
    have "lwrite s = None" using live_parts [OF inv assms(2)] assms(6) by metis
    moreover have "waitChange None (fol_last (lst s)) (lw s) = Some (Inr (log_closed (lw s) \<and> log_seq (lw s) \<le> fol_last (lst s)))"
      using assms(6) by (simp add: waitChange_def)
    ultimately show ?thesis using reader_step.wait [OF assms(7) True _ _ prod.collapse [symmetric]] by blast
  next
    case False
    show ?thesis
    proof (cases "lpos s = length (visible s)")
      case True
      from reader_step.eof [OF assms(7) False this] show ?thesis by blast
    next
      case more: False
      with pos have "lpos s + 1 \<le> length (visible s)" by simp
      from reader_step.read [OF assms(7) False _ _ this prod.collapse [symmetric]] show ?thesis by fastforce
    qed
  qed
  moreover have "lres s' \<noteq> None \<or> reader_work s' < reader_work s" if "reader_step unmarshal fn s s'" for s'
    using that
  proof cases
    case (read n r st')
    then show ?thesis by (simp add: reader_work_def visible_def) linarith
  next
    case eof
    then show ?thesis using read_all(2) [OF inv assms(2)] by (simp add: reader_work_def visible_def)
  next
    case (wait ctx_err outcome r st')
    then show ?thesis using waitChange_cases [OF wait(5)] assms(6)
      by (auto simp: follow_step_def reader_work_def visible_def split: if_splits)
  next
    case (fail ev e r st')
    then show ?thesis by (auto simp: follow_step_def)
  qed
  ultimately show ?thesis by blast
qed

definition short_live :: live where
  "short_live = \<lparr>lw = snd (Close None short_log), lsent = [(''stdout'', ''ok'')], lfs = [new_frame fresh_log ''stdout'' ''ok'' 5],
     lwrite = None, lshown = [], lbegan = 1, lpos = 0, lst = follow_start 0, at_eof = False, lres = None\<rparr>"

lemma short_live_run: "live_run id read_frame (\<lambda>_. None) 1000 0 short_live"
proof -
  have "log_run id 1000 (snd (Close None short_log)) [(''stdout'', ''ok'')] [new_frame fresh_log ''stdout'' ''ok'' 5]"
    by (rule log_run.close [OF short_run, of None "fst (Close None short_log)"]) simp
  from live_run.begin_follow [OF this] show ?thesis by (simp add: short_live_def)
qed

lemma short_live_closed: "log_closed (lw short_live)" "lres short_live = None"
  by (simp_all add: short_live_def Close_def short_log_def append_log_def fresh_log_def Let_def wrap64_def)

text \<open>The follower of the short log: it reads the file in one chunk, finds its end and returns.\<close>

definition short_read :: follow_state where
  "short_read = snd (follow_step read_frame (\<lambda>_. None) True (Chunk (visible short_live)) (follow_start 0))"

definition short_done :: live where
  "short_done = short_live\<lparr>lpos := length (visible short_live), lst := short_read, at_eof := False, lres := Some None\<rparr>"

lemma short_done_run: "live_run id read_frame (\<lambda>_. None) 1000 0 short_done"
proof -
  let ?n = "length (visible short_live)"
  have r: "fst (follow_step read_frame (\<lambda>_. None) True (Chunk (visible short_live)) (follow_start 0)) = None" and
    n: "0 < ?n" "?n \<le> 32 * 1024" and fin: "fol_last short_read = 1" "fol_buf short_read = []" and seq: "log_seq (lw short_live) = 1"
    by code_simp+
  have st: "lpos short_live = 0" "\<not> at_eof short_live" "lst short_live = follow_start 0" "lwrite short_live = None"
    by (simp_all add: short_live_def)
  have "follow_step read_frame (\<lambda>_. None) True (Chunk (take ?n (drop (lpos short_live) (visible short_live)))) (lst short_live) =
      (None, short_read)" using r st by (simp add: short_read_def prod_eq_iff)
  from live_run.reads [OF short_live_run reader_step.read [OF short_live_closed(2) st(2) n _ this]]
  have one: "live_run id read_frame (\<lambda>_. None) 1000 0 (short_live\<lparr>lpos := ?n, lst := short_read, lres := None\<rparr>)" (is "live_run _ _ _ _ _ ?s")
    using st(1) by simp
  have "reader_step read_frame (\<lambda>_. None) ?s (?s\<lparr>at_eof := True\<rparr>)"
    using st(2) by (intro reader_step.eof) (simp_all add: visible_def)
  with one have two: "live_run id read_frame (\<lambda>_. None) 1000 0 (?s\<lparr>at_eof := True\<rparr>)" (is "live_run _ _ _ _ _ ?t") by (rule live_run.reads)
  have "waitChange None (fol_last (lst ?t)) (lw ?t) = Some (Inr True)"
    using short_live_closed(1) seq fin(1) by (simp add: waitChange_def)
  moreover have "follow_step read_frame (\<lambda>_. None) True (AtEOF (Inr True)) (lst ?t) = (Some None, short_read)"
    using fin(2) by (simp add: follow_step_def)
  ultimately have "reader_step read_frame (\<lambda>_. None) ?t (?t\<lparr>lst := short_read, at_eof := False, lres := Some None\<rparr>)"
    using st(4) by (intro reader_step.wait) simp_all
  with two have "live_run id read_frame (\<lambda>_. None) 1000 0 (?t\<lparr>lst := short_read, at_eof := False, lres := Some None\<rparr>)"
    by (rule live_run.reads)
  then show ?thesis by (simp add: short_done_def)
qed

theorem live_follow_complete_witness:
  "lres short_done = Some None \<and> delivered (lst short_done) = [new_frame fresh_log ''stdout'' ''ok'' 5]"
proof -
  have one: "Seq (new_frame fresh_log ''stdout'' ''ok'' 5) > 0" by (simp add: new_frame_def fresh_log_def wrap64_def)
  have "lres short_done = Some None" "lfs short_done = [new_frame fresh_log ''stdout'' ''ok'' 5]"
    by (simp_all add: short_done_def short_live_def)
  with live_follow_complete [OF short_done_run sample_limit(1) _ decodes_read_frame] one
  show ?thesis by (auto simp: stopped_def)
qed

text \<open>The last case of the property does occur: a follower asked to start after frame 5 of an empty log
  reads half of the first record and finds the end of the file; by the time it looks at the log, the record is complete
  and the log is closed. No write failed, yet it reports a torn record.\<close>

definition ahead :: live where
  "ahead = \<lparr>lw = fresh_log, lsent = [], lfs = [], lwrite = None, lshown = [], lbegan = 0, lpos = 0,
     lst = follow_start 5, at_eof = False, lres = None\<rparr>"

definition half_read :: live where
  "half_read = ahead\<lparr>lwrite := Some (''stdout'', ''ok'', 5), lshown := ''{'', lpos := 1,
     lst := (follow_start 5)\<lparr>fol_buf := ''{''\<rparr>, at_eof := True\<rparr>"

definition overtaken :: live where
  "overtaken = half_read\<lparr>lw := snd (Close None short_log), lsent := [(''stdout'', ''ok'')],
     lfs := [new_frame fresh_log ''stdout'' ''ok'' 5], lwrite := None, lshown := []\<rparr>"

lemma half_read_run: "live_run id read_frame (\<lambda>_. None) 1000 5 half_read"
proof -
  let ?run = "live_run id read_frame (\<lambda>_. None) 1000 5"
  let ?a = "ahead\<lparr>lwrite := Some (''stdout'', ''ok'', 5)\<rparr>" and ?st = "(follow_start 5)\<lparr>fol_buf := ''{''\<rparr>"
  let ?b = "?a\<lparr>lshown := ''{''\<rparr>" and ?c = "?a\<lparr>lshown := ''{'', lpos := 1, lst := ?st\<rparr>"
  have "?run ahead" using live_run.begin_follow [OF fresh_run] by (simp add: ahead_def)
  moreover have "writer_step id ahead ?a"
    using sample_limit(2)
    by (intro writer_step.write_begin)
      (simp_all add: ahead_def append_log_def fresh_log_def Let_def wrap64_def maxFrameData_def int64_def)
  ultimately have a: "?run ?a" by (rule live_run.writes)
  have "prefix (lshown ?a @ ''{'') (log_line id (new_frame (lw ?a) ''stdout'' ''ok'' 5))" by code_simp
  from live_run.writes [OF a writer_step.write_some [OF _ this]] have b: "?run ?b" by (simp add: ahead_def)
  have "follow_step read_frame (\<lambda>_. None) True (Chunk (take 1 (drop (lpos ?b) (visible ?b)))) (lst ?b) = (None, ?st)" by code_simp
  from live_run.reads [OF b reader_step.read [OF _ _ _ _ _ this]] have c: "?run ?c"
    by (simp add: ahead_def visible_def fresh_log_def)
  have "reader_step read_frame (\<lambda>_. None) ?c (?c\<lparr>at_eof := True\<rparr>)"
    by (intro reader_step.eof) (simp_all add: ahead_def visible_def fresh_log_def)
  from live_run.reads [OF c this] show ?thesis by (simp add: half_read_def)
qed

lemma overtaken_run: "live_run id read_frame (\<lambda>_. None) 1000 5 overtaken"
proof -
  let ?run = "live_run id read_frame (\<lambda>_. None) 1000 5"
  let ?d = "half_read\<lparr>lw := short_log, lsent := [(''stdout'', ''ok'')],
      lfs := [new_frame fresh_log ''stdout'' ''ok'' 5], lwrite := None, lshown := []\<rparr>"
  have "append_log id ''stdout'' ''ok'' 5 None (lw half_read) = (None, short_log)" "prefix (visible half_read) (log_file short_log)"
    by code_simp+
  from live_run.writes [OF half_read_run writer_step.write_end [OF _ this]] have d: "?run ?d"
    by (simp add: half_read_def ahead_def)
  have "log_step id (lw ?d, lsent ?d, lfs ?d) (snd (Close None short_log), lsent ?d, lfs ?d)"
    by (rule log_step.close [where err = "fst (Close None short_log)"]) simp
  from live_run.writes [OF d writer_step.call [OF _ this]] show ?thesis by (simp add: overtaken_def half_read_def ahead_def)
qed

lemma ahead_follower_misled:
  "\<exists>s. live_run id read_frame (\<lambda>_. None) 1000 5 s \<and> lres s = Some (Some UnexpectedEOF) \<and> writeErr (lw s) = None"
proof -
  let ?s = "overtaken\<lparr>lst := lst overtaken, at_eof := False, lres := Some (Some UnexpectedEOF)\<rparr>"
  have "lres overtaken = None" "at_eof overtaken" "lwrite overtaken = None"
    by (simp_all add: overtaken_def half_read_def ahead_def)
  moreover have "waitChange None (fol_last (lst overtaken)) (lw overtaken) = Some (Inr True)"
    "follow_step read_frame (\<lambda>_. None) True (AtEOF (Inr True)) (lst overtaken) = (Some (Some UnexpectedEOF), lst overtaken)"
    by code_simp+
  ultimately have "live_run id read_frame (\<lambda>_. None) 1000 5 ?s"
    using live_run.reads [OF overtaken_run reader_step.wait] by blast
  moreover have "writeErr (lw overtaken) = None" by code_simp
  ultimately show ?thesis by force
qed

theorem live_follow_returns_witness:
  "\<exists>s'. reader_step read_frame (\<lambda>_. None) short_live s'"
  using live_follow_returns [OF short_live_run sample_limit(1) _ decodes_read_frame _ short_live_closed] by simp

end
