(* ===== verification/Log_Window.thy ===== *)
theory Log_Window
  imports Log_Live
begin

text \<open>
  \<open>internal/logio/window.go\<close>: where a bounded replay of a log begins. \<open>scanFrames\<close> runs a callback
  with a state over the complete records of a file; the file's contents, and whether reading
  them ends with an error instead of the end of the file, are arguments. \<open>FindWindow\<close> reads the
  file twice, and a live log may have grown in between.
\<close>

record Window =
  Start :: int
  Cut :: nat
  Last :: int

datatype window_error =
    WOpen
  | WRead
  | WUnexpectedEOF
  | WBadJSON
  | WWrongSeq int int
  | WBadBase64
  | WShortFrame int
  | ErrFound

type_synonym 's frame_fn = "LogFrame \<Rightarrow> 's \<Rightarrow> window_error option \<times> 's"

function scan_records ::
  "(string \<Rightarrow> LogFrame option) \<Rightarrow> int \<Rightarrow> bool \<Rightarrow> bool \<Rightarrow> 's frame_fn \<Rightarrow> string \<Rightarrow> int \<Rightarrow> 's \<Rightarrow>
    window_error option \<times> int \<times> 's" where
  "scan_records unmarshal stop complete read_err fn s seq st =
     (if \<not> (stop < 0 \<or> seq < stop) then (None, seq, st)
      else if newline \<notin> set s then
        (if read_err then (Some WRead, seq, st)
         else if complete \<and> s \<noteq> [] then (Some WUnexpectedEOF, seq, st) else (None, seq, st))
      else
        let line = takeWhile (\<lambda>c. c \<noteq> newline) s; rest = drop (Suc (length line)) s
        in (case unmarshal (line @ [newline]) of
              None \<Rightarrow> (Some WBadJSON, seq, st)
            | Some frame \<Rightarrow>
                if Seq frame \<noteq> seq + 1 then (Some (WWrongSeq (Seq frame) (seq + 1)), seq, st)
                else (case fn frame st of
                        (Some e, st') \<Rightarrow> (Some e, Seq frame, st')
                      | (None, st') \<Rightarrow> scan_records unmarshal stop complete read_err fn rest (Seq frame) st')))"
  by pat_completeness auto
termination
  by (relation "measure (\<lambda>(_, _, _, _, _, s, _). length s)") (auto dest: length_pos_if_in_set)

declare scan_records.simps [simp del]

text \<open>\<open>log\<close> is \<open>None\<close> when the file cannot be opened.\<close>

definition scanFrames ::
  "(string \<Rightarrow> LogFrame option) \<Rightarrow> (string \<times> bool) option \<Rightarrow> int \<Rightarrow> bool \<Rightarrow> 's frame_fn \<Rightarrow> 's \<Rightarrow>
    window_error option \<times> int \<times> 's" where
  "scanFrames unmarshal log stop complete fn st =
     (case log of
        None \<Rightarrow> (Some WOpen, 0, st)
      | Some (contents, read_err) \<Rightarrow> scan_records unmarshal stop complete read_err fn contents 0 st)"

text \<open>The first pass: the first frame that counts, the newlines from there on and whether the
  output ends with one.\<close>

definition count_frame :: "int \<Rightarrow> int \<Rightarrow> (int \<times> int \<times> bool) frame_fn" where
  "count_frame sinceMS tail frame st =
     (case st of (start, lines, endsWithNL) \<Rightarrow>
        if start < 0 \<and> TUnixMS frame < sinceMS then (None, st)
        else
          let start' = (if start < 0 then Seq frame else start)
          in if tail \<le> 0 then (None, (start', lines, endsWithNL))
             else (case b64_decode False (DataB64 frame) of
                     None \<Rightarrow> (Some WBadBase64, (start', lines, endsWithNL))
                   | Some data \<Rightarrow>
                       (None,
                        if length data > 0
                        then (start', lines + int (count_list data newline), data ! (length data - 1) = newline)
                        else (start', lines, endsWithNL))))"

text \<open>The second pass: the newline with number \<open>target\<close>.\<close>

fun find_newline :: "int \<Rightarrow> int \<Rightarrow> nat \<Rightarrow> bytes \<Rightarrow> int \<times> nat option" where
  "find_newline target seen i [] = (seen, None)"
| "find_newline target seen i (c # cs) =
     (if c \<noteq> newline then find_newline target seen (Suc i) cs
      else if seen + 1 < target then find_newline target (seen + 1) (Suc i) cs
      else (seen + 1, Some i))"

definition locate_frame :: "int \<Rightarrow> int \<Rightarrow> (int \<times> Window) frame_fn" where
  "locate_frame start target frame st =
     (case st of (seen, found) \<Rightarrow>
        if Seq frame < start then (None, st)
        else (case b64_decode False (DataB64 frame) of
                None \<Rightarrow> (Some WBadBase64, st)
              | Some data \<Rightarrow>
                  (case find_newline target seen 0 data of
                     (seen', None) \<Rightarrow> (None, (seen', found))
                   | (seen', Some i) \<Rightarrow>
                       (Some ErrFound,
                        (seen',
                         if i + 1 < length data then found\<lparr>Start := Seq frame, Cut := i + 1\<rparr>
                         else found\<lparr>Start := Seq frame + 1\<rparr>)))))"

definition FindWindow ::
  "(string \<Rightarrow> LogFrame option) \<Rightarrow> (string \<times> bool) option \<Rightarrow> (string \<times> bool) option \<Rightarrow> int \<Rightarrow> int \<Rightarrow> Writer option \<Rightarrow>
    window_error + Window" where
  "FindWindow unmarshal log log' sinceMS tail live =
     (let complete = (case live of None \<Rightarrow> True | Some w \<Rightarrow> isClosed w)
      in case scanFrames unmarshal log (- 1) complete (count_frame sinceMS tail) (- 1, 0, False) of
           (Some e, _) \<Rightarrow> Inl e
         | (None, seq, (start, lines, endsWithNL)) \<Rightarrow>
             if start < 0 \<or> tail = 0 then Inr \<lparr>Start = seq + 1, Cut = 0, Last = seq\<rparr>
             else if tail < 0 then Inr \<lparr>Start = start, Cut = 0, Last = seq\<rparr>
             else
               let extra = (if endsWithNL then 1 else 0)
               in if lines - extra < tail then Inr \<lparr>Start = start, Cut = 0, Last = seq\<rparr>
                  else
                    let target = lines - extra - tail + 1
                    in (case scanFrames unmarshal log' seq complete (locate_frame start target)
                               (0, \<lparr>Start = seq + 1, Cut = 0, Last = seq\<rparr>) of
                          (err, _, (_, found)) \<Rightarrow>
                            (case err of
                               None \<Rightarrow> Inr found
                             | Some e \<Rightarrow> if e = ErrFound then Inr found else Inl e)))"

definition TrimFrame :: "LogFrame \<Rightarrow> nat \<Rightarrow> window_error + LogFrame" where
  "TrimFrame frame n =
     (if n = 0 then Inr frame
      else (case b64_decode False (DataB64 frame) of
              None \<Rightarrow> Inl WBadBase64
            | Some data \<Rightarrow>
                if n > length data then Inl (WShortFrame (Seq frame))
                else Inr (frame\<lparr>DataB64 := b64_encode (drop n data)\<rparr>)))"

subsection \<open>The last lines of a text\<close>

fun lines_of :: "bytes \<Rightarrow> bytes list" where
  "lines_of [] = []"
| "lines_of (c # cs) =
     (if c = newline then [c] # lines_of cs
      else (case lines_of cs of [] \<Rightarrow> [[c]] | l # ls \<Rightarrow> (c # l) # ls))"

definition last_lines :: "nat \<Rightarrow> bytes \<Rightarrow> bytes" where
  "last_lines n s = concat (drop (length (lines_of s) - n) (lines_of s))"

fun after_newline :: "nat \<Rightarrow> bytes \<Rightarrow> bytes" where
  "after_newline 0 s = s"
| "after_newline (Suc n) [] = []"
| "after_newline (Suc n) (c # cs) = (if c = newline then after_newline n cs else after_newline (Suc n) cs)"

lemma concat_lines_of [simp]: "concat (lines_of s) = s"
  by (induction s) (auto split: list.splits)

lemma lines_of_Nil [simp]: "lines_of s = [] \<longleftrightarrow> s = []"
  by (cases s) (auto split: list.splits)

lemma length_lines_of:
  "length (lines_of s) = count_list s newline + (if s = [] \<or> last s = newline then 0 else 1)"
proof (induction s)
  case (Cons c s)
  show ?case
  proof (cases "lines_of s")
    case Nil
    then show ?thesis by simp
  next
    case (Cons l ls)
    then show ?thesis using Cons.IH by (auto split: if_splits)
  qed
qed simp

lemma drop_lines_of: "n \<le> count_list s newline \<Longrightarrow> concat (drop n (lines_of s)) = after_newline n s"
proof (induction n s rule: after_newline.induct)
  case (3 n c cs)
  show ?case
  proof (cases "c = newline")
    case True
    then show ?thesis using 3 by simp
  next
    case False
    then have "Suc n \<le> count_list cs newline" using 3(3) by simp
    moreover from this have "cs \<noteq> []" by auto
    then obtain l ls where "lines_of cs = l # ls" by (cases "lines_of cs") auto
    ultimately show ?thesis using 3(2) [OF False] False by simp
  qed
qed auto

lemma after_newline_append:
  "after_newline n (a @ b) =
     (if n \<le> count_list a newline then after_newline n a @ b else after_newline (n - count_list a newline) b)"
  by (induction n a rule: after_newline.induct) auto

text \<open>The newline the second pass looks for.\<close>

lemma find_newline_None:
  "seen + int (count_list s newline) < target \<Longrightarrow> find_newline target seen i s = (seen + int (count_list s newline), None)"
  by (induction s arbitrary: seen i) auto

lemma find_newline_Some:
  assumes "seen < target" "target \<le> seen + int (count_list s newline)"
  shows "\<exists>j < length s. find_newline target seen i s = (target, Some (i + j)) \<and> drop (Suc j) s = after_newline (nat (target - seen)) s"
  using assms
proof (induction s arbitrary: seen i)
  case (Cons c s)
  show ?case
  proof (cases "c = newline \<and> target \<le> seen + 1")
    case True
    then have "nat (target - seen) = 1" "target = seen + 1" using Cons.prems(1) by auto
    with True show ?thesis by (intro exI [of _ 0]) simp
  next
    case False
    let ?seen = "if c = newline then seen + 1 else seen"
    have "?seen < target" "target \<le> ?seen + int (count_list s newline)" using False Cons.prems by auto
    from Cons.IH [OF this, of "Suc i"] obtain j where j: "j < length s"
      "find_newline target ?seen (Suc i) s = (target, Some (Suc i + j))" "drop (Suc j) s = after_newline (nat (target - ?seen)) s"
      by blast
    have "nat (target - seen) = Suc (nat (target - seen - 1))" using Cons.prems(1) by simp
    then have "after_newline (nat (target - seen)) (c # s) = after_newline (nat (target - ?seen)) s"
      by (simp add: algebra_simps)
    with j False show ?thesis by (intro exI [of _ "Suc j"]) auto
  qed
qed simp

subsection \<open>A pass over the records of a log\<close>

fun run_fn :: "'s frame_fn \<Rightarrow> int \<Rightarrow> LogFrame list \<Rightarrow> 's \<Rightarrow> window_error option \<times> int \<times> 's" where
  "run_fn fn seq [] st = (None, seq, st)"
| "run_fn fn seq (f # fs) st =
     (case fn f st of (Some e, st') \<Rightarrow> (Some e, Seq f, st') | (None, st') \<Rightarrow> run_fn fn (Seq f) fs st')"

lemma scan_records_frames:
  assumes "decodes marshal (\<lambda>l. unmarshal (l @ [newline]))" "numbered k fs" "stop < 0 \<or> int (k + length fs) \<le> stop"
  shows "scan_records unmarshal stop complete read_err fn (frames.file_of marshal fs @ rest) (int k) st =
    (case run_fn fn (int k) fs st of
       (Some e, q, st') \<Rightarrow> (Some e, q, st')
     | (None, q, st') \<Rightarrow> scan_records unmarshal stop complete read_err fn rest (int (k + length fs)) st')"
  using assms(2,3)
proof (induction fs arbitrary: k st)
  case (Cons f fs)
  have f: "frame_ok f" "Seq f = int (Suc k)" "numbered (Suc k) fs" "stop < 0 \<or> int (Suc k + length fs) \<le> stop"
    using Cons.prems by auto
  note first = line_codec.first_record [OF decodes_codec [OF assms(1)] f(1)]
  have buf: "frames.file_of marshal (f # fs) @ rest = marshal_frame marshal f @ newline # (frames.file_of marshal fs @ rest)"
    by simp
  have go: "stop < 0 \<or> int k < stop" using Cons.prems(2) by auto
  show ?case
    unfolding buf by (subst scan_records.simps)
      (use Cons.IH [OF f(3,4)] f(2) go in \<open>simp add: first Let_def split: prod.splits option.splits\<close>)
qed simp

definition frame_bytes :: "LogFrame \<Rightarrow> bytes" where
  "frame_bytes f = (case b64_decode False (DataB64 f) of Some d \<Rightarrow> d | None \<Rightarrow> [])"

definition payload :: "LogFrame list \<Rightarrow> bytes" where
  "payload fs = concat (map frame_bytes fs)"

abbreviation readable :: "LogFrame list \<Rightarrow> bool" where
  "readable fs \<equiv> \<forall>f \<in> set fs. b64_decode False (DataB64 f) \<noteq> None"

lemma payload_simps [simp]:
  "payload [] = []" "payload (f # fs) = frame_bytes f @ payload fs" "payload (fs @ gs) = payload fs @ payload gs"
  by (simp_all add: payload_def)

definition text_count :: "int \<Rightarrow> bytes \<Rightarrow> int \<times> bool \<Rightarrow> int \<times> bool" where
  "text_count tail s c =
     (if tail \<le> 0 then c
      else (fst c + int (count_list s newline), if s = [] then snd c else last s = newline))"

lemma text_count_append: "text_count tail (d @ s) c = text_count tail s (text_count tail d c)"
  by (simp add: text_count_def)

lemma count_pass:
  "0 \<le> start \<Longrightarrow> readable fs \<Longrightarrow>
     \<exists>q. run_fn (count_frame sinceMS tail) seq fs (start, lines, nl) = (None, q, start, text_count tail (payload fs) (lines, nl))"
proof (induction fs arbitrary: seq lines nl)
  case (Cons f fs)
  obtain d where d: "b64_decode False (DataB64 f) = Some d" using Cons.prems(2) by auto
  have step: "count_frame sinceMS tail f (start, lines, nl) = (None, start, text_count tail d (lines, nl))"
    using Cons.prems(1) d by (simp add: count_frame_def text_count_def last_conv_nth Let_def)
  obtain lines' nl' where c: "text_count tail d (lines, nl) = (lines', nl')" by fastforce
  have "text_count tail (payload (f # fs)) (lines, nl) = text_count tail (payload fs) (lines', nl')"
    using text_count_append [of tail d "payload fs" "(lines, nl)"] d c by (simp add: frame_bytes_def)
  with Cons.IH [of "Seq f" lines' nl'] Cons.prems step c show ?case by simp
qed (simp add: text_count_def)

abbreviation since :: "int \<Rightarrow> LogFrame list \<Rightarrow> LogFrame list" where
  "since sinceMS fs \<equiv> dropWhile (\<lambda>f. TUnixMS f < sinceMS) fs"

lemma first_pass:
  assumes "numbered k fs" "readable fs"
  shows "\<exists>q. run_fn (count_frame sinceMS tail) seq fs (- 1, 0, False) =
    (None, q, if since sinceMS fs = [] then (- 1, 0, False)
       else (Seq (hd (since sinceMS fs)), text_count tail (payload (since sinceMS fs)) (0, False)))"
  using assms
proof (induction fs arbitrary: k seq)
  case (Cons f fs)
  show ?case
  proof (cases "TUnixMS f < sinceMS")
    case True
    then have "count_frame sinceMS tail f (- 1, 0, False) = (None, - 1, 0, False)" by (simp add: count_frame_def)
    then show ?thesis using Cons.IH [of "Suc k" "Seq f"] Cons.prems True by (auto split: if_splits)
  next
    case False
    have pos: "Seq f \<ge> 0" using Cons.prems(1) by simp
    have "count_frame sinceMS tail f (- 1, 0, False) = count_frame sinceMS tail f (Seq f, 0, False)"
      using False pos by (simp add: count_frame_def Let_def)
    then have "run_fn (count_frame sinceMS tail) seq (f # fs) (- 1, 0, False) =
        run_fn (count_frame sinceMS tail) seq (f # fs) (Seq f, 0, False)" by simp
    with count_pass [OF pos Cons.prems(2), of sinceMS tail seq 0 False] False show ?thesis by simp
  qed
qed simp

subsection \<open>The replay\<close>

text \<open>What a replay of a window prints: the data of the frames from \<open>Start\<close> on, without the first
  \<open>Cut\<close> bytes.\<close>

definition replay :: "Window \<Rightarrow> LogFrame list \<Rightarrow> bytes" where
  "replay W fs = drop (Cut W) (payload (filter (\<lambda>f. Start W \<le> Seq f) fs))"

definition cut_ok :: "Window \<Rightarrow> LogFrame list \<Rightarrow> bool" where
  "cut_ok W fs \<longleftrightarrow> Cut W = 0 \<or> (\<exists>f \<in> set fs. Seq f = Start W \<and> Cut W < length (frame_bytes f))"

lemma numbered_all_from: "numbered k fs \<Longrightarrow> n \<le> int k + 1 \<Longrightarrow> filter (\<lambda>f. n \<le> Seq f) fs = fs"
  by (rule filter_True) (auto dest: numbered_above)

lemma locate_pass:
  assumes "numbered k fs" "readable fs" "start \<le> int k + 1" "seen < target"
    and "target \<le> seen + int (count_list (payload fs) newline)" "Cut found = 0"
  shows "\<exists>q W. run_fn (locate_frame start target) seq fs (seen, found) = (Some ErrFound, q, target, W) \<and>
    Last W = Last found \<and> int k + 1 \<le> Start W \<and> cut_ok W fs \<and>
    replay W fs = after_newline (nat (target - seen)) (payload fs)"
  using assms
proof (induction fs arbitrary: k seen seq)
  case (Cons f fs)
  obtain d where d: "b64_decode False (DataB64 f) = Some d" "frame_bytes f = d"
    using Cons.prems(2) by (auto simp: frame_bytes_def)
  have f: "Seq f = int k + 1" "numbered (Suc k) fs" using Cons.prems(1) by auto
  let ?n = "int (count_list d newline)"
  show ?case
  proof (cases "seen + ?n < target")
    case True
    have step: "locate_frame start target f (seen, found) = (None, seen + ?n, found)"
      using Cons.prems(3) f(1) d find_newline_None [OF True, of 0] by (simp add: locate_frame_def)
    have "start \<le> int (Suc k) + 1" "target \<le> seen + ?n + int (count_list (payload fs) newline)"
      using Cons.prems(3,5) d(2) by auto
    from Cons.IH [OF f(2) _ this(1) True this(2) Cons.prems(6), of "Seq f"] Cons.prems(2) obtain q W where
      W: "run_fn (locate_frame start target) (Seq f) fs (seen + ?n, found) = (Some ErrFound, q, target, W)" "Last W = Last found"
        "int (Suc k) + 1 \<le> Start W" "cut_ok W fs" "replay W fs = after_newline (nat (target - (seen + ?n))) (payload fs)"
      by auto
    have "\<not> nat (target - seen) \<le> count_list d newline" "nat (target - (seen + ?n)) = nat (target - seen) - count_list d newline"
      using True by auto
    then show ?thesis using W step d(2) f(1) by (auto simp: replay_def cut_ok_def after_newline_append)
  next
    case False
    then obtain j where j: "j < length d" "find_newline target seen 0 d = (target, Some j)"
        "drop (Suc j) d = after_newline (nat (target - seen)) d"
      using find_newline_Some [OF Cons.prems(4), of d 0] by fastforce
    let ?W = "if j + 1 < length d then found\<lparr>Start := Seq f, Cut := j + 1\<rparr> else found\<lparr>Start := Seq f + 1\<rparr>"
    have step: "locate_frame start target f (seen, found) = (Some ErrFound, target, ?W)"
      using Cons.prems(3) f(1) d(1) j(2) by (simp add: locate_frame_def)
    have "nat (target - seen) \<le> count_list d newline" using False by simp
    then have "replay ?W (f # fs) = after_newline (nat (target - seen)) (payload (f # fs))"
      using j(1,3) d(2) f Cons.prems(6) numbered_all_from [OF f(2)]
      by (auto simp: replay_def after_newline_append)
    moreover have "cut_ok ?W (f # fs)" using d(2) Cons.prems(6) by (simp add: cut_ok_def)
    ultimately show ?thesis using step f(1) by (intro exI [of _ "Seq f"] exI [of _ ?W]) simp
  qed
qed simp

lemma skip_pass:
  assumes "\<forall>f \<in> set fs. Seq f < start"
  shows "\<exists>q. run_fn (locate_frame start target) seq (fs @ gs) st = run_fn (locate_frame start target) q gs st"
  using assms
proof (induction fs arbitrary: seq)
  case (Cons f fs)
  then have "locate_frame start target f st = (None, st)" by (simp add: locate_frame_def split: prod.splits)
  then show ?case using Cons by simp
qed auto

lemma since_split:
  assumes "numbered 0 fs" "since sinceMS fs \<noteq> []"
  obtains pre where "fs = pre @ since sinceMS fs" "numbered (length pre) (since sinceMS fs)"
    "Seq (hd (since sinceMS fs)) = int (length pre) + 1" "\<forall>f \<in> set pre. Seq f \<le> int (length pre)"
proof -
  let ?pre = "takeWhile (\<lambda>f. TUnixMS f < sinceMS) fs"
  have fs: "fs = ?pre @ since sinceMS fs" by simp
  have n: "numbered (length ?pre) (since sinceMS fs)"
    using numbered_drop [OF assms(1), of "length ?pre"] by (simp add: dropWhile_eq_drop)
  then have "Seq (hd (since sinceMS fs)) = int (length ?pre) + 1" using assms(2) by (cases "since sinceMS fs") auto
  moreover have "numbered 0 ?pre" using numbered_take [OF assms(1), of "length ?pre"] by (simp add: takeWhile_eq_take [symmetric])
  then have "\<forall>f \<in> set ?pre. Seq f \<le> int (length ?pre)" using numbered_below by fastforce
  ultimately show ?thesis using that fs n by blast
qed

lemma replay_none: "numbered 0 fs \<Longrightarrow> replay \<lparr>Start = int (length fs) + 1, Cut = 0, Last = q\<rparr> fs = []"
proof -
  assume "numbered 0 fs"
  then have "filter (\<lambda>f. int (length fs) + 1 \<le> Seq f) fs = []"
    using numbered_below [of 0 fs] by (fastforce simp: filter_empty_conv)
  then show ?thesis by (simp add: replay_def)
qed

lemma replay_from:
  assumes "fs = pre @ gs" "\<forall>f \<in> set pre. Seq f \<le> n" "n < Start W"
  shows "replay W fs = replay W gs"
proof -
  have "filter (\<lambda>f. Start W \<le> Seq f) pre = []" using assms(2,3) by (auto simp: filter_empty_conv)
  then show ?thesis unfolding replay_def assms(1) by simp
qed

text \<open>The tail in terms of the counts of the first pass.\<close>

lemma tail_target:
  assumes "text_count tail s (0, False) = (lines, nl)" "0 < tail" "extra = (if nl then 1 else 0)"
  shows "lines - extra < tail \<Longrightarrow> last_lines (nat tail) s = s"
    "\<not> lines - extra < tail \<Longrightarrow> 0 < lines - extra - tail + 1 \<and> lines - extra - tail + 1 \<le> int (count_list s newline) \<and>
       last_lines (nat tail) s = after_newline (nat (lines - extra - tail + 1)) s"
proof -
  have c: "lines = int (count_list s newline)" "nl \<longleftrightarrow> s \<noteq> [] \<and> last s = newline"
    using assms(1,2) by (auto simp: text_count_def split: if_splits)
  have len: "int (length (lines_of s)) = (if s = [] then 0 else lines - extra + 1)"
    using assms(3) unfolding length_lines_of c by (auto simp: count_notin)
  show "last_lines (nat tail) s = s" if "lines - extra < tail"
    using that len assms(2) by (auto simp: last_lines_def split: if_splits)
  assume big: "\<not> lines - extra < tail"
  then have ne: "s \<noteq> []" using assms(2,3) c by auto
  then have "length (lines_of s) - nat tail = nat (lines - extra - tail + 1)" using len assms(2) big by auto
  moreover have "0 < lines - extra - tail + 1" "lines - extra - tail + 1 \<le> int (count_list s newline)"
    using big assms(2,3) c by auto
  ultimately show "0 < lines - extra - tail + 1 \<and> lines - extra - tail + 1 \<le> int (count_list s newline) \<and>
       last_lines (nat tail) s = after_newline (nat (lines - extra - tail + 1)) s"
    by (simp add: last_lines_def drop_lines_of)
qed

abbreviation log_complete :: "Writer option \<Rightarrow> bool" where
  "log_complete live \<equiv> (case live of None \<Rightarrow> True | Some w \<Rightarrow> isClosed w)"

definition asked_text :: "int \<Rightarrow> int \<Rightarrow> LogFrame list \<Rightarrow> bytes" where
  "asked_text sinceMS tail fs =
     (let text = payload (since sinceMS fs) in if tail < 0 then text else last_lines (nat tail) text)"

lemma asked_text_none: "since sinceMS fs = [] \<or> tail = 0 \<Longrightarrow> asked_text sinceMS tail fs = []"
  by (auto simp: asked_text_def last_lines_def Let_def simp del: dropWhile_eq_Nil_conv)

lemma count_scan:
  assumes "decodes marshal (\<lambda>l. unmarshal (l @ [newline]))" "numbered 0 fs" "readable fs" "newline \<notin> set torn"
    and "complete \<longrightarrow> torn = []"
  shows "scanFrames unmarshal (Some (frames.file_of marshal fs @ torn, False)) (- 1) complete (count_frame sinceMS tail) (- 1, 0, False) =
    (None, int (length fs), if since sinceMS fs = [] then (- 1, 0, False)
       else (Seq (hd (since sinceMS fs)), text_count tail (payload (since sinceMS fs)) (0, False)))"
proof -
  obtain q where "run_fn (count_frame sinceMS tail) (int 0) fs (- 1, 0, False) =
    (None, q, if since sinceMS fs = [] then (- 1, 0, False)
       else (Seq (hd (since sinceMS fs)), text_count tail (payload (since sinceMS fs)) (0, False)))"
    using first_pass [OF assms(2,3)] by blast
  then show ?thesis
    using scan_records_frames [OF assms(1,2), of "- 1" complete False "count_frame sinceMS tail" torn "(- 1, 0, False)"] assms(4,5)
    by (simp add: scanFrames_def scan_records.simps [of _ _ _ _ _ torn])
qed

lemma locate_scan:
  assumes "decodes marshal (\<lambda>l. unmarshal (l @ [newline]))" "numbered 0 fs" "readable fs" "since sinceMS fs \<noteq> []"
    and "0 < target" "target \<le> int (count_list (payload (since sinceMS fs)) newline)"
  shows "\<exists>q W. scanFrames unmarshal (Some (frames.file_of marshal fs @ rest, read_err)) (int (length fs)) complete
      (locate_frame (Seq (hd (since sinceMS fs))) target) (0, \<lparr>Start = n, Cut = 0, Last = l\<rparr>) = (Some ErrFound, q, target, W) \<and>
    Last W = l \<and> cut_ok W fs \<and> replay W fs = after_newline (nat target) (payload (since sinceMS fs))"
proof -
  let ?s = "since sinceMS fs" and ?W = "\<lparr>Start = n, Cut = 0, Last = l\<rparr>"
  obtain pre where pre: "fs = pre @ ?s" "numbered (length pre) ?s" "Seq (hd ?s) = int (length pre) + 1"
    "\<forall>f \<in> set pre. Seq f \<le> int (length pre)" using since_split [OF assms(2,4)] .
  have "readable ?s" using assms(3) by (auto dest: set_dropWhileD)
  have "\<forall>f \<in> set pre. Seq f < Seq (hd ?s)" using pre(3,4) by fastforce
  from skip_pass [OF this, of target "int 0" ?s "(0, ?W)"] obtain q0 where
    skip: "run_fn (locate_frame (Seq (hd ?s)) target) (int 0) fs (0, ?W) = run_fn (locate_frame (Seq (hd ?s)) target) q0 ?s (0, ?W)"
    unfolding pre(1) [symmetric] by blast
  have "Seq (hd ?s) \<le> int (length pre) + 1" "target \<le> 0 + int (count_list (payload ?s) newline)" "Cut ?W = 0"
    using pre(3) assms(6) by simp_all
  from locate_pass [OF pre(2) \<open>readable ?s\<close> this(1) assms(5) this(2,3), of q0] obtain q W where
    W: "run_fn (locate_frame (Seq (hd ?s)) target) q0 ?s (0, ?W) = (Some ErrFound, q, target, W)" "Last W = l"
      "int (length pre) + 1 \<le> Start W" "cut_ok W ?s" "replay W ?s = after_newline (nat (target - 0)) (payload ?s)" by auto
  have "replay W fs = replay W ?s" using replay_from [OF pre(1,4)] W(3) by simp
  moreover have "cut_ok W fs" using W(4) by (auto simp: cut_ok_def dest: set_dropWhileD)
  moreover have "scanFrames unmarshal (Some (frames.file_of marshal fs @ rest, read_err)) (int (length fs)) complete
      (locate_frame (Seq (hd ?s)) target) (0, ?W) = (Some ErrFound, q, target, W)"
    using scan_records_frames [OF assms(1,2), of "int (length fs)" complete read_err "locate_frame (Seq (hd ?s)) target" rest "(0, ?W)"]
      skip W(1) by (simp add: scanFrames_def)
  ultimately show ?thesis using W by auto
qed

lemma FindWindow_ok:
  assumes dec: "decodes marshal (\<lambda>l. unmarshal (l @ [newline]))" and fs: "numbered 0 fs" "readable fs"
    and torn: "newline \<notin> set torn" "log_complete live \<longrightarrow> torn = []"
  shows "\<exists>W. FindWindow unmarshal (Some (frames.file_of marshal fs @ torn, False))
      (Some (frames.file_of marshal fs @ rest, read_err)) sinceMS tail live = Inr W \<and>
    Last W = int (length fs) \<and> cut_ok W fs \<and> replay W fs = asked_text sinceMS tail fs"
proof (cases "since sinceMS fs = [] \<or> tail = 0")
  case True
  then show ?thesis
    using replay_none [OF fs(1)] asked_text_none [OF True] count_scan [OF dec fs torn, of sinceMS tail]
    by (auto simp: FindWindow_def cut_ok_def)
next
  case False
  let ?s = "since sinceMS fs"
  obtain pre where pre: "fs = pre @ ?s" "numbered (length pre) ?s" "Seq (hd ?s) = int (length pre) + 1"
    "\<forall>f \<in> set pre. Seq f \<le> int (length pre)" using since_split [OF fs(1)] False by blast
  obtain lines nl where c: "text_count tail (payload ?s) (0, False) = (lines, nl)" by fastforce
  note scan = count_scan [OF dec fs torn, of sinceMS tail]
  have start: "\<not> Seq (hd ?s) < 0" using pre(3) by simp
  let ?all = "\<lparr>Start = Seq (hd ?s), Cut = 0, Last = int (length fs)\<rparr>"
  have all: "replay ?all fs = payload ?s"
    using replay_from [OF pre(1,4), of ?all] numbered_all_from [OF pre(2)] pre(3) by (simp add: replay_def)
  let ?extra = "if nl then 1 else 0 :: int"
  show ?thesis
  proof (cases "tail < 0 \<or> lines - ?extra < tail")
    case True
    then have "asked_text sinceMS tail fs = payload ?s"
      using tail_target(1) [OF c _ refl] False by (cases "tail < 0") (auto simp: asked_text_def)
    then show ?thesis using False True start scan c all by (auto simp: FindWindow_def cut_ok_def)
  next
    case more: False
    then have tail: "0 < tail" using False by simp
    let ?target = "lines - ?extra - tail + 1"
    have t: "0 < ?target" "?target \<le> int (count_list (payload ?s) newline)"
      "last_lines (nat tail) (payload ?s) = after_newline (nat ?target) (payload ?s)"
      using tail_target(2) [OF c tail refl] more by auto
    have "?s \<noteq> []" using False by simp
    from locate_scan [OF dec fs this t(1,2), of rest read_err "log_complete live" "int (length fs) + 1" "int (length fs)"]
    obtain q W where W: "scanFrames unmarshal (Some (frames.file_of marshal fs @ rest, read_err)) (int (length fs)) (log_complete live)
        (locate_frame (Seq (hd ?s)) ?target) (0, \<lparr>Start = int (length fs) + 1, Cut = 0, Last = int (length fs)\<rparr>) =
          (Some ErrFound, q, ?target, W)" "Last W = int (length fs)" "cut_ok W fs" "replay W fs = after_newline (nat ?target) (payload ?s)"
      by blast
    have "FindWindow unmarshal (Some (frames.file_of marshal fs @ torn, False))
      (Some (frames.file_of marshal fs @ rest, read_err)) sinceMS tail live = Inr W"
      using False more start scan c W(1) tail by (simp add: FindWindow_def Let_def del: dropWhile_eq_Nil_conv)
    then show ?thesis using W t(3) tail by (simp add: asked_text_def)
  qed
qed


lemma log_account_readable:
  assumes "log_account mx w sent fs"
  shows "readable fs"
proof
  fix f
  assume "f \<in> set fs"
  then have "frame_data f \<in> set (map (apsnd Some) (take (length fs) sent))"
    using assms unfolding log_account_def by (metis image_eqI list.set_map)
  then show "b64_decode False (DataB64 f) \<noteq> None" by (auto simp: frame_data_def)
qed

text \<open>The frames a replay sends, the first one trimmed.\<close>

definition sent_frames :: "Window \<Rightarrow> LogFrame list \<Rightarrow> (window_error + LogFrame) list" where
  "sent_frames W fs =
     map (\<lambda>f. if Seq f = Start W then TrimFrame f (Cut W) else Inr f) (filter (\<lambda>f. Start W \<le> Seq f) fs)"

lemma filter_from_member:
  "numbered k fs \<Longrightarrow> f \<in> set fs \<Longrightarrow> \<exists>gs. filter (\<lambda>g. Seq f \<le> Seq g) fs = f # gs \<and> (\<forall>g \<in> set gs. Seq g \<noteq> Seq f)"
proof (induction fs arbitrary: k)
  case (Cons g fs)
  show ?case
  proof (cases "f = g")
    case True
    have "\<forall>h \<in> set fs. Seq h > Seq f" using numbered_above [of "Suc k" fs] Cons.prems(1) True by fastforce
    then show ?thesis using True by (auto simp: less_imp_le intro: filter_True)
  next
    case False
    then have f: "f \<in> set fs" using Cons.prems(2) by simp
    then have "Seq g < Seq f" using numbered_above [of "Suc k" fs f] Cons.prems(1) by auto
    with Cons.IH [OF _ f] Cons.prems(1) show ?thesis by auto
  qed
qed simp

lemma sent_frames_ok:
  assumes "numbered 0 fs" "readable fs" "cut_ok W fs"
  shows "\<exists>gs. sent_frames W fs = map Inr gs \<and> payload gs = replay W fs"
proof (cases "Cut W = 0")
  case True
  then show ?thesis
    by (intro exI [of _ "filter (\<lambda>f. Start W \<le> Seq f) fs"]) (simp add: sent_frames_def TrimFrame_def replay_def)
next
  case False
  then obtain f where f: "f \<in> set fs" "Seq f = Start W" "Cut W < length (frame_bytes f)"
    using assms(3) by (auto simp: cut_ok_def)
  obtain gs where gs: "filter (\<lambda>g. Start W \<le> Seq g) fs = f # gs" "\<forall>g \<in> set gs. Seq g \<noteq> Start W"
    using filter_from_member [OF assms(1) f(1)] f(2) by auto
  obtain d where d: "b64_decode False (DataB64 f) = Some d" "frame_bytes f = d"
    using assms(2) f(1) by (auto simp: frame_bytes_def)
  let ?f = "f\<lparr>DataB64 := b64_encode (drop (Cut W) d)\<rparr>"
  have "map (\<lambda>g. if Seq g = Start W then TrimFrame g (Cut W) else Inr g) gs = map Inr gs" using gs(2) by simp
  then have "sent_frames W fs = map Inr (?f # gs)"
    using False f(2,3) d by (simp add: sent_frames_def gs(1) TrimFrame_def)
  moreover have "payload (?f # gs) = replay W fs" using f(3) d(2) by (simp add: replay_def gs(1)) (simp add: frame_bytes_def)
  ultimately show ?thesis by blast
qed

subsection \<open>Properties\<close>

text \<open>A file that ends within a record.\<close>

definition cut_short :: "string \<Rightarrow> bool" where
  "cut_short s \<longleftrightarrow> s \<noteq> [] \<and> last s \<noteq> newline"

lemma cut_short_frames: "newline \<notin> set torn \<Longrightarrow> cut_short (frames.file_of marshal fs @ torn) \<longleftrightarrow> torn \<noteq> []"
proof (cases "torn = []")
  case True
  have "fs = [] \<or> last (frames.file_of marshal fs) = newline"
    by (cases fs rule: rev_cases) (simp_all add: file_of_lines log_line_def)
  then show ?thesis using True by (auto simp: cut_short_def)
next
  case False
  moreover assume "newline \<notin> set torn"
  ultimately show ?thesis by (metis cut_short_def append_is_Nil_conv last_appendR last_in_set)
qed

lemma FindWindow_cut_short:
  assumes "decodes marshal (\<lambda>l. unmarshal (l @ [newline]))" "numbered 0 fs" "readable fs" "newline \<notin> set torn"
    and "log_complete live" "torn \<noteq> []"
  shows "FindWindow unmarshal (Some (frames.file_of marshal fs @ torn, False)) log' sinceMS tail live = Inl WUnexpectedEOF"
proof -
  obtain q st where "run_fn (count_frame sinceMS tail) (int 0) fs (- 1, 0, False) = (None, q, st)"
    using first_pass [OF assms(2,3)] by blast
  then have "scanFrames unmarshal (Some (frames.file_of marshal fs @ torn, False)) (- 1) True (count_frame sinceMS tail) (- 1, 0, False) =
      (Some WUnexpectedEOF, int (length fs), st)"
    using scan_records_frames [OF assms(1,2), of "- 1" True False "count_frame sinceMS tail" torn "(- 1, 0, False)"] assms(4,6)
    by (simp add: scanFrames_def scan_records.simps [of _ _ _ _ _ torn])
  then show ?thesis using assms(5) by (simp add: FindWindow_def)
qed

text \<open>C24. \<open>FindWindow\<close> on the log of any run, with any part of a further record \<open>shown\<close> after it. If
  the log is finished (no live writer, or a closed one) and the file ends within a record, the
  call fails with the integrity error for a log cut short. Otherwise it succeeds, and the frames
  from its start on, the first trimmed with \<open>TrimFrame\<close>, hold exactly the last \<open>tail\<close> lines of the
  output since \<open>sinceMS\<close>, both streams together (all of it if \<open>tail\<close> is negative), even if the log
  grew between its two passes.\<close>
theorem FindWindow_replays_tail:
  assumes "log_run marshal mx w sent fs" "log_limit mx" "decodes marshal (\<lambda>l. unmarshal (l @ [newline]))"
    and "file = log_file w @ shown" "newline \<notin> set shown" "prefix file later"
  shows "if log_complete live \<and> cut_short file
    then FindWindow unmarshal (Some (file, False)) (Some (later, read_err)) sinceMS tail live = Inl WUnexpectedEOF
    else \<exists>W gs. FindWindow unmarshal (Some (file, False)) (Some (later, read_err)) sinceMS tail live = Inr W \<and>
      Last W = log_seq w \<and> sent_frames W fs = map Inr gs \<and> payload gs = asked_text sinceMS tail fs"
proof -
  have ok: "log_content marshal w fs" "log_account mx w sent fs" using log_run_ok [OF assms(1,2)] by auto
  obtain torn where t: "numbered 0 fs" "log_file w = frames.file_of marshal fs @ torn" "newline \<notin> set torn"
    "torn \<noteq> [] \<longrightarrow> writeErr w \<noteq> None" using content_numbered [OF ok(1)] .
  have r: "readable fs" using log_account_readable [OF ok(2)] .
  have cut: "file = frames.file_of marshal fs @ torn @ shown" and nl: "newline \<notin> set (torn @ shown)"
    using assms(4,5) t(2,3) by simp_all
  obtain rest where rest: "later = frames.file_of marshal fs @ rest" using assms(6) by (auto simp: cut prefix_def)
  show ?thesis
  proof (cases "log_complete live \<and> torn @ shown \<noteq> []")
    case True
    then show ?thesis
      using FindWindow_cut_short [OF assms(3) t(1) r nl] cut_short_frames [OF nl, of marshal fs] unfolding cut by simp
  next
    case False
    then have "log_complete live \<longrightarrow> torn @ shown = []" by blast
    from FindWindow_ok [OF assms(3) t(1) r nl this, of rest read_err sinceMS tail] obtain W where
      W: "FindWindow unmarshal (Some (file, False)) (Some (later, read_err)) sinceMS tail live = Inr W"
        "Last W = int (length fs)" "cut_ok W fs" "replay W fs = asked_text sinceMS tail fs"
      unfolding cut rest by blast
    moreover have "log_seq w = int (length fs)" using ok(1) by (simp add: log_content_def)
    moreover have "\<not> (log_complete live \<and> cut_short file)" using False cut_short_frames [OF nl] unfolding cut by blast
    ultimately show ?thesis using sent_frames_ok [OF t(1) r W(3)] by auto
  qed
qed

theorem FindWindow_replays_tail_witness:
  "(\<exists>W. FindWindow (read_frame \<circ> butlast) (Some (log_file short_log, False)) (Some (log_file short_log, False)) 0 1 None = Inr W) \<and>
   FindWindow (read_frame \<circ> butlast) (Some (log_file short_log @ ''{'', False)) (Some (log_file short_log @ ''{'', False)) 0 1 None =
     Inl WUnexpectedEOF"
proof -
  have d: "decodes id (\<lambda>l. (read_frame \<circ> butlast) (l @ [newline]))" using decodes_read_frame by (simp add: decodes_def)
  have whole: "\<not> cut_short (log_file short_log @ [])"
    by (simp add: cut_short_def short_log_def append_log_def fresh_log_def Let_def wrap64_def)
  note a = FindWindow_replays_tail [OF short_run sample_limit(1) d refl _ prefix_order.order_refl, of "[]" None False 0 1]
  have torn: "cut_short (log_file short_log @ ''{'')" by (simp add: cut_short_def)
  note b = FindWindow_replays_tail [OF short_run sample_limit(1) d refl _ prefix_order.order_refl, of "''{''" None False 0 1]
  have "\<exists>W. FindWindow (read_frame \<circ> butlast) (Some (log_file short_log, False)) (Some (log_file short_log, False)) 0 1 None = Inr W"
    using a whole by auto
  moreover have "FindWindow (read_frame \<circ> butlast) (Some (log_file short_log @ ''{'', False)) (Some (log_file short_log @ ''{'', False)) 0 1 None =
     Inl WUnexpectedEOF" using b torn by simp
  ultimately show ?thesis by blast
qed

end
