(* ===== verification/Change_Delta.thy ===== *)
theory Change_Delta
  imports Snapshot_Theorems Logio
begin

text \<open>
  \<open>internal/changes/changes.go\<close>, from two snapshots to the bundle of changes between them
  (\<open>workspaceDelta\<close> and what it calls). The bundle names the changed roots and carries, before and
  after, the subtrees of the roots whose content changed, the entries of directories of which
  only the metadata changed, and the recorded directories above them. A Go map from path to
  entry is an association list without duplicates. The paths of a snapshot are clean, so the
  loops over \<open>path.Dir\<close> visit \<open>parent_dirs\<close>. The context is not cancelled during a call.
\<close>

datatype change_error =
    SnapshotErr snapshot_error
  | EntryLimitExceeded
  | ByteLimitExceeded
  | InvalidBundle string
  | UnsafeChangePath string
  | ArchiveInvalid archive_error
  | MergeBaseMismatch string
  | CheckpointChanged
  | UnknownSourceChange
  | SourceNotReconstructed
  | SourceDeltaDiffers
  | InvalidOutcome string

definition MaxChangeEntries :: nat where
  "MaxChangeEntries = 100000"

definition BundleVersion :: int where
  "BundleVersion = 1"

type_synonym selection = "(string \<times> manifest_entry) list"

definition select_put :: "string \<Rightarrow> manifest_entry \<Rightarrow> selection \<Rightarrow> selection" where
  "select_put k e sel = (k, e) # filter (\<lambda>x. fst x \<noteq> k) sel"

definition selectSnapshotAncestors :: "selection \<Rightarrow> snapshot \<Rightarrow> string \<Rightarrow> selection" where
  "selectSnapshotAncestors selected all entryPath =
     fold (\<lambda>parent sel.
             if map_of sel parent \<noteq> None then sel
             else (case Lookup all parent of Some ancestor \<Rightarrow> select_put parent ancestor sel | None \<Rightarrow> sel))
       (parent_dirs entryPath) selected"

definition selectSnapshotSubtree :: "selection \<Rightarrow> snapshot \<Rightarrow> string \<Rightarrow> selection" where
  "selectSnapshotSubtree selected all root =
     Subtree all root (\<lambda>sel e. (select_put (Path e) e sel, True)) selected"

fun add_selected :: "int \<Rightarrow> int \<Rightarrow> manifest_entry list \<Rightarrow> change_error + int" where
  "add_selected maxBytes bytes [] = Inr bytes"
| "add_selected maxBytes bytes (e # es) =
     (if Type e = EntryFile then
        if maxBytes \<ge> 0 \<and> Size e > maxBytes - bytes then Inl ByteLimitExceeded
        else add_selected maxBytes (wrap64 (bytes + Size e)) es
      else add_selected maxBytes bytes es)"

definition selectedManifest :: "selection \<Rightarrow> int \<Rightarrow> int \<Rightarrow> change_error + manifest \<times> int" where
  "selectedManifest selected maxBytes initialBytes =
     (let es = map snd (sort_key fst selected)
      in bind_res (add_selected maxBytes initialBytes es) (\<lambda>bytes. Inr (\<lparr>Entries = Some es\<rparr>, bytes)))"

definition metadata_only :: "snapshot \<Rightarrow> snapshot \<Rightarrow> string \<Rightarrow> bool" where
  "metadata_only before after candidate =
     (case (Lookup before candidate, Lookup after candidate) of
        (Some beforeEntry, Some afterEntry) \<Rightarrow> Type beforeEntry = EntryDir \<and> Type afterEntry = EntryDir
      | _ \<Rightarrow> False)"

fun select_roots :: "(string \<Rightarrow> bool) \<Rightarrow> string list \<Rightarrow> string list \<Rightarrow> string list" where
  "select_roots metadata contentRoots [] = []"
| "select_roots metadata contentRoots (candidate # cs) =
     (if metadata candidate then candidate # select_roots metadata contentRoots cs
      else if list_ex (\<lambda>parent. parent \<in> set contentRoots) (parent_dirs candidate)
      then select_roots metadata contentRoots cs
      else candidate # select_roots metadata (candidate # contentRoots) cs)"

text \<open>What one root adds to the selection of one side.\<close>

definition select_root :: "(string \<Rightarrow> bool) \<Rightarrow> snapshot \<Rightarrow> string \<Rightarrow> selection \<Rightarrow> selection" where
  "select_root metadata s root sel =
     selectSnapshotAncestors
       (if metadata root then (case Lookup s root of Some e \<Rightarrow> select_put root e sel | None \<Rightarrow> sel)
        else selectSnapshotSubtree sel s root)
       s root"

definition selectSnapshotDelta ::
  "(bytes \<Rightarrow> bytes) \<Rightarrow> snapshot \<Rightarrow> snapshot \<Rightarrow> int \<Rightarrow> (change_error + change_bundle) \<times> snapshot \<times> snapshot" where
  "selectSnapshotDelta sha before0 after0 maxBytes =
     (case Diff sha before0 after0 of (edits, before, after) \<Rightarrow>
        let changed = map (\<lambda>ed. Path (Entry ed)) edits;
            metadata = metadata_only before after;
            roots = select_roots metadata [] changed
        in (if length roots > MaxChangeEntries then Inl EntryLimitExceeded
            else
              bind_res (selectedManifest (fold (select_root metadata before) roots []) maxBytes 0)
                (\<lambda>(base, bytes).
                   bind_res (selectedManifest (fold (select_root metadata after) roots []) maxBytes bytes)
                     (\<lambda>(remote, bytes').
                        Inr \<lparr>V = BundleVersion, BaselineRoot = '''', Paths = roots, MetadataPaths = filter metadata roots,
                          BaseManifest = base, RemoteManifest = remote, change_bundle.Bytes = bytes'\<rparr>)),
            before, after))"

definition workspaceSnapshotDelta ::
  "(bytes \<Rightarrow> bytes) \<Rightarrow> (string \<Rightarrow> string) \<Rightarrow> (string \<Rightarrow> string) \<Rightarrow> snapshot \<Rightarrow> snapshot \<Rightarrow> int \<Rightarrow> change_error + change_bundle" where
  "workspaceSnapshotDelta sha marshal sha256hex before after maxBytes =
     (case selectSnapshotDelta sha before after maxBytes of
        (r, before', after') \<Rightarrow>
          bind_res r (\<lambda>bundle. Inr (bundle\<lparr>BaselineRoot := fst (Snapshot_RootHash marshal sha256hex before')\<rparr>)))"

definition lift_snapshot :: "snapshot_error + 'a \<Rightarrow> change_error + 'a" where
  "lift_snapshot r = (case r of Inl e \<Rightarrow> Inl (SnapshotErr e) | Inr a \<Rightarrow> Inr a)"

definition workspaceDelta ::
  "(bytes \<Rightarrow> bytes) \<Rightarrow> (string \<Rightarrow> string) \<Rightarrow> (string \<Rightarrow> string) \<Rightarrow> platform \<Rightarrow> manifest \<Rightarrow> manifest \<Rightarrow> int \<Rightarrow>
    change_error + change_bundle" where
  "workspaceDelta sha marshal sha256hex os baseline current maxBytes =
     bind_res (lift_snapshot (New os baseline)) (\<lambda>before.
     bind_res (lift_snapshot (New os current)) (\<lambda>after.
       workspaceSnapshotDelta sha marshal sha256hex before after maxBytes))"

subsection \<open>Selections\<close>

text \<open>A selection of one side holds entries of that snapshot under their own paths.\<close>

definition selects :: "manifest_entry list \<Rightarrow> selection \<Rightarrow> bool" where
  "selects es sel \<longleftrightarrow> distinct (map fst sel) \<and> (\<forall>(k, e) \<in> set sel. e \<in> set es \<and> Path e = k)"

lemma map_of_put: "map_of (select_put k e sel) = (map_of sel)(k \<mapsto> e)"
proof
  fix x
  show "map_of (select_put k e sel) x = ((map_of sel)(k \<mapsto> e)) x"
    by (induction sel) (auto simp: select_put_def)
qed

lemma selects_put: "selects es sel \<Longrightarrow> e \<in> set es \<Longrightarrow> selects es (select_put (Path e) e sel)"
  by (auto simp: selects_def select_put_def distinct_map_filter)

lemma selects_Nil [simp]: "selects es []"
  by (simp add: selects_def)

text \<open>One side grows: nothing selected is lost.\<close>

definition extends :: "manifest_entry list \<Rightarrow> selection \<Rightarrow> selection \<Rightarrow> bool" where
  "extends es sel sel' \<longleftrightarrow> (selects es sel \<longrightarrow> selects es sel' \<and> dom (map_of sel) \<subseteq> dom (map_of sel'))"

lemma extends_refl [simp]: "extends es sel sel"
  by (simp add: extends_def)

lemma extends_trans: "extends es a b \<Longrightarrow> extends es b c \<Longrightarrow> extends es a c"
  by (auto simp: extends_def)

lemma extends_put: "e \<in> set es \<Longrightarrow> Path e = k \<Longrightarrow> extends es sel (select_put k e sel)"
  by (auto simp: extends_def selects_put map_of_put)

lemma extends_fold: "(\<And>x sel. x \<in> set xs \<Longrightarrow> extends es sel (f x sel)) \<Longrightarrow> extends es sel (fold f xs sel)"
  by (induction xs arbitrary: sel) (auto intro: extends_trans)

lemma lookup_member: "walkable sha s \<Longrightarrow> Lookup s p = Some e \<longleftrightarrow> e \<in> set (contents s) \<and> Path e = p"
  by (rule snap.lookup_Some)

lemma ancestors_extends:
  assumes "walkable sha s"
  shows "extends (contents s) sel (selectSnapshotAncestors sel s p)"
  unfolding selectSnapshotAncestors_def
  by (rule extends_fold) (auto simp: lookup_member [OF assms] intro: extends_put split: option.split)

abbreviation at_or_below :: "string \<Rightarrow> string \<Rightarrow> bool" where
  "at_or_below root p \<equiv> p = root \<or> prefix (root @ ''/'') p"

lemma walk_select: "walk_list (\<lambda>sel e. (select_put (Path e) e sel, True)) sel es = (fold (\<lambda>e. select_put (Path e) e) es sel, True)"
  by (induction es arbitrary: sel) auto

lemma subtree_fold:
  assumes "walkable sha s"
  shows "selectSnapshotSubtree sel s root = fold (\<lambda>e. select_put (Path e) e) (filter (\<lambda>e. at_or_below root (Path e)) (contents s)) sel"
  unfolding selectSnapshotSubtree_def Subtree_walk [OF assms] walk_select by simp

lemma subtree_extends:
  assumes "walkable sha s"
  shows "extends (contents s) sel (selectSnapshotSubtree sel s root)"
  unfolding subtree_fold [OF assms] by (rule extends_fold) (auto intro: extends_put)

lemma dom_put_all: "dom (map_of (fold (\<lambda>e. select_put (Path e) e) es sel)) = dom (map_of sel) \<union> Path ` set es"
  by (induction es arbitrary: sel) (auto simp: map_of_put)

lemma select_root_extends:
  assumes "walkable sha s"
  shows "extends (contents s) sel (select_root metadata s root sel)"
  unfolding select_root_def
  by (rule extends_trans [OF _ ancestors_extends [OF assms]])
    (auto simp: lookup_member [OF assms] intro: extends_put subtree_extends [OF assms] split: option.split)

lemma select_root_covers:
  assumes s: "walkable sha s" and sel: "selects (contents s) sel" and e: "e \<in> set (contents s)"
    and r: "if metadata root then Path e = root else at_or_below root (Path e)"
  shows "Path e \<in> dom (map_of (select_root metadata s root sel))"
proof -
  let ?sel = "if metadata root then (case Lookup s root of Some x \<Rightarrow> select_put root x sel | None \<Rightarrow> sel)
      else selectSnapshotSubtree sel s root"
  have "Path e \<in> dom (map_of ?sel)"
  proof (cases "metadata root")
    case True
    then have "Lookup s root = Some e" using e r by (simp add: lookup_member [OF s])
    then show ?thesis using True r by (simp add: map_of_put)
  next
    case False
    then show ?thesis using e r by (auto simp: subtree_fold [OF s] dom_put_all)
  qed
  moreover have "selects (contents s) ?sel"
    using sel subtree_extends [OF s, of sel root] by (auto simp: extends_def lookup_member [OF s] intro: selects_put split: option.split)
  ultimately show ?thesis
    using ancestors_extends [OF s, of ?sel root] unfolding select_root_def extends_def by blast
qed

lemma fold_select:
  assumes s: "walkable sha s"
  shows "selects (contents s) (fold (select_root metadata s) roots [])"
    and "e \<in> set (contents s) \<Longrightarrow> r \<in> set roots \<Longrightarrow> if metadata r then Path e = r else at_or_below r (Path e) \<Longrightarrow>
      Path e \<in> dom (map_of (fold (select_root metadata s) roots []))"
proof -
  have ext: "extends (contents s) sel (fold (select_root metadata s) rs sel)" for rs sel
    by (rule extends_fold) (rule select_root_extends [OF s])
  then show "selects (contents s) (fold (select_root metadata s) roots [])" unfolding extends_def by simp
  assume e: "e \<in> set (contents s)" "r \<in> set roots" "if metadata r then Path e = r else at_or_below r (Path e)"
  obtain rs1 rs2 where roots: "roots = rs1 @ r # rs2" using split_list [OF e(2)] by blast
  let ?sel = "fold (select_root metadata s) rs1 []"
  have sel: "selects (contents s) ?sel" using ext [of "[]" rs1] by (simp add: extends_def)
  have "selects (contents s) (select_root metadata s r ?sel)" using select_root_extends [OF s] sel by (simp add: extends_def)
  with select_root_covers [where metadata = metadata and root = r, OF s sel e(1,3)] ext [of "select_root metadata s r ?sel" rs2]
  show "Path e \<in> dom (map_of (fold (select_root metadata s) roots []))" unfolding roots extends_def by auto
qed

lemma entry_at_selected:
  assumes "selects es sel"
  shows "entry_at (map snd (sort_key fst sel)) p = map_of sel p"
proof -
  have "entry_at (map snd xs) p = map_of xs p" if "\<forall>(k, e) \<in> set xs. Path e = k" for xs
    using that by (induction xs) auto
  moreover have "map_of (sort_key fst sel) = map_of sel"
    using assms by (subst map_of_inject_set) (auto simp: selects_def distinct_map sorted_sort)
  moreover have "\<forall>(k, e) \<in> set (sort_key fst sel). Path e = k" using assms by (auto simp: selects_def)
  ultimately show ?thesis by metis
qed

lemma selected_entry:
  assumes "walkable sha s" "r \<in> set roots" "if metadata r then p = r else at_or_below r p"
  shows "entry_at (map snd (sort_key fst (fold (select_root metadata s) roots []))) p = Lookup s p"
proof -
  let ?sel = "fold (select_root metadata s) roots []"
  note sel = fold_select [where metadata = metadata and roots = roots, OF assms(1)]
  have "map_of ?sel p = Lookup s p"
  proof (cases "map_of ?sel p")
    case (Some e)
    then have "e \<in> set (contents s)" "Path e = p" using sel(1) map_of_SomeD [OF Some] by (auto simp: selects_def)
    then show ?thesis using Some lookup_member [OF assms(1)] by metis
  next
    case None
    then have "\<forall>e \<in> set (contents s). Path e \<noteq> p" using sel(2) [OF _ assms(2)] assms(3) by (metis domIff)
    then have "Lookup s p = None" using lookup_member [OF assms(1)] by (cases "Lookup s p") auto
    then show ?thesis using None by simp
  qed
  then show ?thesis using entry_at_selected [OF sel(1)] by simp
qed

text \<open>Every changed path is a root or lies below one whose content is carried.\<close>

lemma select_roots_cover:
  "c \<in> set cs \<Longrightarrow>
     c \<in> set (select_roots metadata content cs) \<or>
     (\<exists>r \<in> set (parent_dirs c). r \<in> set content \<or> (r \<in> set (select_roots metadata content cs) \<and> \<not> metadata r))"
  by (induction metadata content cs rule: select_roots.induct) (auto simp: list_ex_iff)

lemma select_roots_subset: "set (select_roots metadata content cs) \<subseteq> set cs"
  by (induction metadata content cs rule: select_roots.induct) auto

subsection \<open>Applying a bundle\<close>

text \<open>The reference meaning of a bundle: it replaces the subtrees of its content roots and the
  entries of its metadata paths by what one of its manifests holds for them.\<close>

definition carried :: "change_bundle \<Rightarrow> string \<Rightarrow> bool" where
  "carried b p \<longleftrightarrow>
     p \<in> set (MetadataPaths b) \<or> (\<exists>r \<in> set (Paths b). r \<notin> set (MetadataPaths b) \<and> at_or_below r p)"

definition replaced :: "change_bundle \<Rightarrow> manifest \<Rightarrow> manifest_entry list \<Rightarrow> string \<Rightarrow> manifest_entry option" where
  "replaced b m es p = (if carried b p then entry_at (slice (Entries m)) p else entry_at es p)"

lemma selectedManifest_Inr:
  "selectedManifest sel maxBytes n = Inr (m, bytes) \<Longrightarrow> slice (Entries m) = map snd (sort_key fst sel)"
  by (auto simp: selectedManifest_def Let_def bind_res_Inr_iff)

lemma changed_path:
  assumes "path_sorted xs" "path_sorted ys" "entry_at xs p \<noteq> entry_at ys p"
  shows "p \<in> (\<lambda>ed. Path (Entry ed)) ` set (diff_entries xs ys)"
  using fold_entry_at_other [OF assms(1), of "diff_entries xs ys" p] apply_diff [OF assms(1,2)] assms(3) by auto

lemma delta_parts:
  assumes "snap_ok sha os s" "snap_ok sha os t" "collision_free sha (set (contents s) \<union> set (contents t))"
    and "selectSnapshotDelta sha s t maxBytes = (Inr b, s', t')"
  obtains metadata where "walkable sha s'" "walkable sha t'" "contents s' = contents s" "contents t' = contents t"
    "metadata = metadata_only s' t'"
    "Paths b = select_roots metadata [] (map (\<lambda>ed. Path (Entry ed)) (diff_entries (contents s) (contents t)))"
    "MetadataPaths b = filter metadata (Paths b)"
    "slice (Entries (BaseManifest b)) = map snd (sort_key fst (fold (select_root metadata s') (Paths b) []))"
    "slice (Entries (RemoteManifest b)) = map snd (sort_key fst (fold (select_root metadata t') (Paths b) []))"
proof -
  obtain eds u v where d: "Diff sha s t = (eds, u, v)" by (metis prod_cases3)
  note spec = Diff_spec [OF assms(1-3) d]
  have uv: "u = s'" "v = t'" using assms(4) d by (simp_all add: selectSnapshotDelta_def Let_def split: if_splits)
  show ?thesis
  proof (rule that [of "metadata_only s' t'"])
    show "walkable sha s'" "walkable sha t'" "contents s' = contents s" "contents t' = contents t"
      using spec uv by (auto intro: snap_walkable)
  qed (use assms(4) d spec uv in \<open>auto simp: selectSnapshotDelta_def Let_def bind_res_Inr_iff split: if_splits
      dest: selectedManifest_Inr\<close>)
qed

text \<open>A path that the bundle does not carry did not change.\<close>

lemma not_carried_same:
  assumes "path_sorted xs" "path_sorted ys" "\<forall>e \<in> set xs \<union> set ys. rel_path (Path e)"
    and "Paths b = select_roots metadata [] (map (\<lambda>ed. Path (Entry ed)) (diff_entries xs ys))"
    and "MetadataPaths b = filter metadata (Paths b)" "\<not> carried b p"
  shows "entry_at xs p = entry_at ys p"
proof (rule ccontr)
  assume "entry_at xs p \<noteq> entry_at ys p"
  from changed_path [OF assms(1,2) this] have p: "p \<in> set (map (\<lambda>ed. Path (Entry ed)) (diff_entries xs ys))" by simp
  then have "rel_path p" using diff_entries_paths assms(3) by fastforce
  from select_roots_cover [OF p, of metadata "[]"] consider (root) "p \<in> set (Paths b)"
    | (below) r where "r \<in> set (parent_dirs p)" "r \<in> set (Paths b)" "\<not> metadata r" unfolding assms(4) by auto
  then show False
  proof cases
    case root
    then show False using assms(5,6) by (auto simp: carried_def)
  next
    case below
    then have "at_or_below r p" using in_parent_dirs_iff [OF \<open>rel_path p\<close>] by simp
    then show False using below assms(5,6) by (auto simp: carried_def)
  qed
qed

lemma carried_root:
  assumes "carried b p" "MetadataPaths b = filter metadata (Paths b)"
  obtains r where "r \<in> set (Paths b)" "if metadata r then p = r else at_or_below r p"
  using assms by (auto simp: carried_def)

lemma inventory_rel: "snap_ok sha os s \<Longrightarrow> e \<in> set (contents s) \<Longrightarrow> rel_path (Path e)"
proof -
  assume s: "snap_ok sha os s" "e \<in> set (contents s)"
  then have "entry_ok os e" "''.'' \<notin> Path ` set (contents s)" by (simp_all add: snap_ok_def inventory_ok_def manifest_ok_def)
  with s(2) show ?thesis by (metis entry_rel_path image_eqI)
qed

text \<open>What a bundle carries and what it leaves out.\<close>

lemma delta_sides:
  assumes "snap_ok sha os s" "snap_ok sha os t" "collision_free sha (set (contents s) \<union> set (contents t))"
    and "selectSnapshotDelta sha s t maxBytes = (Inr b, s', t')"
  shows "carried b p \<Longrightarrow> entry_at (slice (Entries (RemoteManifest b))) p = entry_at (contents t) p \<and>
      entry_at (slice (Entries (BaseManifest b))) p = entry_at (contents s) p"
    and "\<not> carried b p \<Longrightarrow> entry_at (contents s) p = entry_at (contents t) p"
proof -
  obtain metadata where d: "walkable sha s'" "walkable sha t'" "contents s' = contents s" "contents t' = contents t"
    "metadata = metadata_only s' t'"
    "Paths b = select_roots metadata [] (map (\<lambda>ed. Path (Entry ed)) (diff_entries (contents s) (contents t)))"
    "MetadataPaths b = filter metadata (Paths b)"
    "slice (Entries (BaseManifest b)) = map snd (sort_key fst (fold (select_root metadata s') (Paths b) []))"
    "slice (Entries (RemoteManifest b)) = map snd (sort_key fst (fold (select_root metadata t') (Paths b) []))"
    using delta_parts [OF assms] .
  have look: "Lookup s' p = entry_at (contents s) p" "Lookup t' p = entry_at (contents t) p" for p
    using snap.lookup_law [OF d(1)] snap.lookup_law [OF d(2)] d(3,4) by simp_all
  show "entry_at (slice (Entries (RemoteManifest b))) p = entry_at (contents t) p \<and>
      entry_at (slice (Entries (BaseManifest b))) p = entry_at (contents s) p" if c: "carried b p"
  proof -
    obtain r where r: "r \<in> set (Paths b)" "if metadata r then p = r else at_or_below r p" using carried_root [OF c d(7)] .
    show ?thesis
      unfolding d(8,9) selected_entry [where metadata = metadata and r = r, OF d(1) r]
        selected_entry [where metadata = metadata and r = r, OF d(2) r] look by simp
  qed
  have rel: "\<forall>e \<in> set (contents s) \<union> set (contents t). rel_path (Path e)" using inventory_rel assms(1,2) by blast
  show "entry_at (contents s) p = entry_at (contents t) p" if c: "\<not> carried b p"
    by (rule not_carried_same [OF snap_sorted [OF assms(1)] snap_sorted [OF assms(2)] rel d(6,7) c])
qed

lemma delta_replaced:
  assumes "snap_ok sha os s" "snap_ok sha os t" "collision_free sha (set (contents s) \<union> set (contents t))"
    and "selectSnapshotDelta sha s t maxBytes = (Inr b, s', t')"
  shows "replaced b (RemoteManifest b) (contents s) = entry_at (contents t)"
    and "replaced b (BaseManifest b) (contents t) = entry_at (contents s)"
  using delta_sides [OF assms] by (auto simp: replaced_def fun_eq_iff)

text \<open>The bundle depends on the inventories alone.\<close>

lemma select_root_cong:
  assumes "walkable sha s" "walkable sha t" "contents s = contents t"
  shows "select_root metadata s = select_root metadata t"
proof -
  have l: "Lookup s = Lookup t"
    using snap.lookup_law [OF assms(1)] snap.lookup_law [OF assms(2)] assms(3) by (simp add: fun_eq_iff)
  have a: "selectSnapshotAncestors sel s p = selectSnapshotAncestors sel t p" for sel p
    unfolding selectSnapshotAncestors_def l ..
  have b: "selectSnapshotSubtree sel s p = selectSnapshotSubtree sel t p" for sel p
    unfolding subtree_fold [OF assms(1)] subtree_fold [OF assms(2)] assms(3) ..
  show ?thesis unfolding fun_eq_iff select_root_def l a b by simp
qed

lemma select_delta_cong:
  assumes "snap_ok sha os s" "snap_ok sha os t" "snap_ok sha os u" "contents t = contents u"
    and "collision_free sha (set (contents s) \<union> set (contents t))"
  shows "fst (selectSnapshotDelta sha s t maxBytes) = fst (selectSnapshotDelta sha s u maxBytes)"
proof -
  obtain eds s1 t1 where d1: "Diff sha s t = (eds, s1, t1)" by (metis prod_cases3)
  obtain eds' s2 u2 where d2: "Diff sha s u = (eds', s2, u2)" by (metis prod_cases3)
  note D1 = Diff_spec [OF assms(1,2,5) d1] and D2 = Diff_spec [OF assms(1,3) _ d2]
  have c2: "collision_free sha (set (contents s) \<union> set (contents u))" using assms(4,5) by simp
  note D2 = D2 [OF c2]
  have w: "walkable sha s1" "walkable sha s2" "walkable sha t1" "walkable sha u2" using D1 D2 snap_walkable by blast+
  have c: "contents s1 = contents s2" "contents t1 = contents u2" using D1 D2 assms(4) by simp_all
  have l: "Lookup s1 p = Lookup s2 p" "Lookup t1 p = Lookup u2 p" for p
    using snap.lookup_law [OF w(1)] snap.lookup_law [OF w(2)] snap.lookup_law [OF w(3)] snap.lookup_law [OF w(4)] c by simp_all
  have m: "metadata_only s1 t1 = metadata_only s2 u2" by (simp add: fun_eq_iff metadata_only_def l)
  have "eds' = eds" using D1 D2 assms(4) by simp
  then show ?thesis
    unfolding selectSnapshotDelta_def d1 d2 prod.case Let_def fst_conv m
      select_root_cong [OF w(1,2) c(1)] select_root_cong [OF w(3,4) c(2)] by simp
qed

text \<open>The byte limit.\<close>

lemma add_selected_limit:
  assumes "add_selected maxBytes n es = Inr n'" "0 \<le> n" "n \<le> maxBytes" "maxBytes \<le> MaxInt64" "\<forall>e \<in> set es. 0 \<le> Size e"
  shows "0 \<le> n' \<and> n' \<le> maxBytes"
  using assms
proof (induction maxBytes n es rule: add_selected.induct)
  case (2 maxBytes n e es)
  show ?case
  proof (cases "Type e = EntryFile")
    case True
    then have fits: "Size e \<le> maxBytes - n" using 2 by (auto split: if_splits)
    then have "wrap64 (n + Size e) = n + Size e" using 2 by (intro wrap64_id) (auto simp: int64_def MaxInt64_def)
    then show ?thesis using 2 True fits by auto
  qed (use 2 in simp)
qed simp

subsection \<open>Properties\<close>

text \<open>The bundle of changes between two snapshots says everything: putting what it carries of
  the second side in place of the same paths of the first inventory gives the second, path by
  path, and putting its base side into the second gives back the first.\<close>
theorem delta_determines_both_sides:
  assumes "snap_ok sha os s" "snap_ok sha os t" "collision_free sha (set (contents s) \<union> set (contents t))"
    and "selectSnapshotDelta sha s t maxBytes = (Inr b, s', t')"
  shows "replaced b (RemoteManifest b) (contents s) = entry_at (contents t) \<and>
    replaced b (BaseManifest b) (contents t) = entry_at (contents s)"
  using delta_replaced [OF assms] by blast

definition sample_bundle :: change_bundle where
  "sample_bundle = \<lparr>V = 1, BaselineRoot = '''', Paths = [''a''], MetadataPaths = [''a''],
     BaseManifest = \<lparr>Entries = Some [dir_entry ''a'' 0x1ED]\<rparr>, RemoteManifest = \<lparr>Entries = Some [dir_entry ''a'' 0x1C0]\<rparr>,
     change_bundle.Bytes = 0\<rparr>"

lemma sample_delta:
  "selectSnapshotDelta toy_hash (flat_snapshot [dir_entry ''a'' 0x1ED]) (flat_snapshot [dir_entry ''a'' 0x1C0]) 100 =
     (Inr sample_bundle, flat_snapshot [dir_entry ''a'' 0x1ED], flat_snapshot [dir_entry ''a'' 0x1C0])"
proof -
  let ?s = "flat_snapshot [dir_entry ''a'' 0x1ED]" and ?t = "flat_snapshot [dir_entry ''a'' 0x1C0]"
  have ne: "?s \<noteq> ?t" by (simp add: flat_snapshot_def empty_snapshot_def dir_entry_def)
  have d: "Diff toy_hash ?s ?t = ([\<lparr>Entry = dir_entry ''a'' 0x1C0, Delete = False\<rparr>], ?s, ?t)"
    unfolding Diff_def if_not_P [OF ne] by (simp add: flat_snapshot_def empty_snapshot_def dir_entry_def)
  have l: "Lookup ?s ''a'' = Some (dir_entry ''a'' 0x1ED)" "Lookup ?t ''a'' = Some (dir_entry ''a'' 0x1C0)"
    "parent_dirs ''a'' = []" "Path (dir_entry p m) = p" "Type (dir_entry p m) = EntryDir" for p m by (code_simp, code_simp, code_simp, simp_all add: dir_entry_def)
  show ?thesis
    by (simp add: selectSnapshotDelta_def d metadata_only_def l select_root_def select_put_def selectSnapshotAncestors_def
        selectedManifest_def Let_def MaxChangeEntries_def BundleVersion_def sample_bundle_def)
qed

theorem delta_determines_both_sides_witness:
  "replaced sample_bundle (RemoteManifest sample_bundle) [dir_entry ''a'' 0x1ED] = entry_at [dir_entry ''a'' 0x1C0]"
proof -
  let ?s = "flat_snapshot [dir_entry ''a'' 0x1ED]" and ?t = "flat_snapshot [dir_entry ''a'' 0x1C0]"
  have ok: "snap_ok toy_hash unix ?s" "contents ?s = [dir_entry ''a'' 0x1ED]"
    "snap_ok toy_hash unix ?t" "contents ?t = [dir_entry ''a'' 0x1C0]"
    using flat_ok [OF sample_inventory(2), of toy_hash] flat_ok [OF sample_inventory(3), of toy_hash] by simp_all
  have "collision_free toy_hash (set (contents ?s) \<union> set (contents ?t))"
    using toy_collision_free by (simp add: ok insert_commute)
  from delta_determines_both_sides [OF ok(1,3) this sample_delta] show ?thesis unfolding ok by blast
qed

end
