(* ===== verification/Change_Bundle.thy ===== *)
theory Change_Bundle
  imports Change_Delta Ulid
begin

text \<open>
  \<open>internal/changes/bundle.go\<close>: the checks a bundle of changes has to pass before anything is
  applied, with the path rules of \<open>changes.go\<close> and \<open>journal.go\<close> they use. \<open>strings.ToLower\<close> is
  the parameter \<open>lower\<close>. Slices of a manifest's entries are lists. \<open>path.Dir\<close> is applied to
  paths that were checked to be clean, and \<open>filepath.ToSlash\<close> is the identity, as it is where the
  separator is a slash.
\<close>

subsection \<open>Paths\<close>

definition pathContainsGitMetadata :: "string \<Rightarrow> bool" where
  "pathContainsGitMetadata p = list_ex (\<lambda>component. equal_fold component ''.git'') (split_on slash p)"

definition validatePath :: "string \<Rightarrow> change_error + unit" where
  "validatePath p =
     (if p = '''' \<or> has_prefix p ''/'' \<or> \<not> IsClean p \<or> p = ''.'' \<or> p = ''..'' \<or> has_prefix p ''../'' \<or> nul \<in> set p
      then Inl (UnsafeChangePath p)
      else if pathContainsGitMetadata p then Inl (UnsafeChangePath p)
      else Inr ())"

definition applyTransactionPrefix :: string where
  "applyTransactionPrefix = ''.errand-change-''"

definition validApplyTransaction :: "string \<Rightarrow> bool" where
  "validApplyTransaction name =
     (has_prefix name applyTransactionPrefix \<and> ValidULID (trim_prefix name applyTransactionPrefix))"

definition pathUsesApplyTransaction :: "string \<Rightarrow> bool" where
  "pathUsesApplyTransaction p = validApplyTransaction (takeWhile (\<lambda>c. c \<noteq> slash) p)"

subsection \<open>Parts of a sorted manifest\<close>

definition search_strings :: "string list \<Rightarrow> string \<Rightarrow> nat" where
  "search_strings xs k = sort_search (length xs) (\<lambda>i. xs ! i \<ge> k)"

definition is_root :: "string list \<Rightarrow> string \<Rightarrow> bool" where
  "is_root xs k = (let i = search_strings xs k in i < length xs \<and> xs ! i = k)"

definition exactManifestEntry :: "manifest_entry list \<Rightarrow> string \<Rightarrow> manifest_entry list" where
  "exactManifestEntry es p =
     (let i = sort_search (length es) (\<lambda>i. Path (es ! i) \<ge> p)
      in if i = length es \<or> Path (es ! i) \<noteq> p then [] else [es ! i])"

definition subtreeManifest :: "manifest_entry list \<Rightarrow> string \<Rightarrow> manifest_entry list" where
  "subtreeManifest es root =
     (let exact = sort_search (length es) (\<lambda>i. Path (es ! i) \<ge> root);
          below = root @ ''/'';
          start = sort_search (length es) (\<lambda>i. Path (es ! i) \<ge> below);
          n = sort_search (length es - start) (\<lambda>i. \<not> has_prefix (Path (es ! (start + i))) below);
          stop = start + n;
          hasExact = (exact < length es \<and> Path (es ! exact) = root)
      in if \<not> hasExact then take n (drop start es)
         else if start = exact + 1 then take (stop - exact) (drop exact es)
         else es ! exact # take n (drop start es))"

definition bundleEntryDeclared :: "manifest_entry \<Rightarrow> string list \<Rightarrow> bool" where
  "bundleEntryDeclared e changePaths =
     (if is_root changePaths (Path e) then True
      else if list_ex (is_root changePaths) (parent_dirs (Path e)) then True
      else if Type e \<noteq> EntryDir then False
      else
        let below = Path e @ ''/''; i = search_strings changePaths below
        in i < length changePaths \<and> has_prefix (changePaths ! i) below)"

subsection \<open>Validation\<close>

fun check_entries ::
  "(string \<Rightarrow> string) \<Rightarrow> string list \<Rightarrow> string list \<Rightarrow> int \<Rightarrow> manifest_entry list \<Rightarrow> change_error + int" where
  "check_entries lower paths seen sz [] = Inr sz"
| "check_entries lower paths seen sz (e # es) =
     (if seen \<noteq> [] \<and> hd seen \<ge> Path e then Inl (InvalidBundle ''manifest is not sorted'')
      else if pathContainsGitMetadata (Path e) then Inl (InvalidBundle ''targets Git metadata'')
      else if pathUsesApplyTransaction (Path e) then Inl (InvalidBundle ''reserved apply namespace'')
      else if (case map_of (map (\<lambda>p. (lower p, p)) seen) (lower (Path e)) of
                 Some prior \<Rightarrow> prior \<noteq> Path e | None \<Rightarrow> False)
      then Inl (InvalidBundle ''collide on case-insensitive filesystems'')
      else if \<not> bundleEntryDeclared e paths then Inl (InvalidBundle ''outside its change roots'')
      else if Type e = EntryFile \<and> Size e > MaxInt64 - sz then Inl (InvalidBundle ''byte count overflows'')
      else check_entries lower paths (Path e # seen) (if Type e = EntryFile then sz + Size e else sz) es)"

definition validateBundleManifestContext ::
  "(string \<Rightarrow> string) \<Rightarrow> platform \<Rightarrow> manifest \<Rightarrow> string list \<Rightarrow> change_error + int" where
  "validateBundleManifestContext lower os m paths =
     (case Validate os m of
        Inl e \<Rightarrow> Inl (ArchiveInvalid e)
      | Inr _ \<Rightarrow> check_entries lower paths [] 0 (slice (Entries m)))"

fun check_metadata :: "string list \<Rightarrow> string list \<Rightarrow> string list \<Rightarrow> change_error + unit" where
  "check_metadata paths seen [] = Inr ()"
| "check_metadata paths seen (p # ps) =
     (if seen \<noteq> [] \<and> hd seen \<ge> p then Inl (InvalidBundle ''metadata paths are not sorted'')
      else if \<not> is_root paths p then Inl (InvalidBundle ''metadata path is not a change root'')
      else check_metadata paths (p # seen) ps)"

definition check_parent :: "(string \<Rightarrow> string) \<Rightarrow> string list \<Rightarrow> string list \<Rightarrow> string \<Rightarrow> change_error + unit" where
  "check_parent lower metadata seen parent =
     (if parent \<in> set seen \<and> parent \<notin> set metadata then Inl (InvalidBundle ''change paths overlap'')
      else (case map_of (map (\<lambda>p. (lower p, p)) seen) (lower parent) of
              None \<Rightarrow> Inr ()
            | Some prior \<Rightarrow>
                if prior \<noteq> parent \<or> prior \<notin> set metadata
                then Inl (InvalidBundle ''change paths overlap on case-insensitive filesystems'')
                else Inr ()))"

fun check_roots :: "(string \<Rightarrow> string) \<Rightarrow> string list \<Rightarrow> string list \<Rightarrow> string list \<Rightarrow> change_error + unit" where
  "check_roots lower metadata seen [] = Inr ()"
| "check_roots lower metadata seen (p # ps) =
     bind_res (validatePath p) (\<lambda>_.
       if pathUsesApplyTransaction p then Inl (InvalidBundle ''reserved apply namespace'')
       else if seen \<noteq> [] \<and> hd seen \<ge> p then Inl (InvalidBundle ''paths are not sorted'')
       else bind_res (each_ok (check_parent lower metadata seen) (parent_dirs p)) (\<lambda>_.
              if map_of (map (\<lambda>p. (lower p, p)) seen) (lower p) \<noteq> None
              then Inl (InvalidBundle ''change paths collide on case-insensitive filesystems'')
              else check_roots lower metadata (p # seen) ps))"

definition check_value :: "change_bundle \<Rightarrow> string \<Rightarrow> change_error + unit" where
  "check_value b p =
     (let metadata = p \<in> set (MetadataPaths b);
          side = (\<lambda>m. (if metadata then exactManifestEntry else subtreeManifest) (slice (Entries m)) p);
          base = side (BaseManifest b);
          remote = side (RemoteManifest b);
          compactModeChange = (length base = 1 \<and> length remote = 1 \<and> Path (base ! 0) = p \<and> Path (remote ! 0) = p \<and>
            Type (base ! 0) = EntryDir \<and> Type (remote ! 0) = EntryDir)
      in if base = [] \<and> remote = [] then Inl (InvalidBundle ''no value for path'')
         else if base = remote then Inl (InvalidBundle ''path is unchanged'')
         else if metadata \<noteq> compactModeChange then Inl (InvalidBundle ''metadata classification is inconsistent'')
         else Inr ())"

definition ValidateBundleContext ::
  "(string \<Rightarrow> string) \<Rightarrow> platform \<Rightarrow> change_bundle \<Rightarrow> change_error + unit" where
  "ValidateBundleContext lower os b =
     (if V b \<noteq> BundleVersion then Inl (InvalidBundle ''unsupported version'')
      else if length (BaselineRoot b) \<noteq> 64 \<or> \<not> list_all hex_digit (BaselineRoot b)
      then Inl (InvalidBundle ''invalid baseline root'')
      else if length (Paths b) > MaxChangeEntries \<or> length (MetadataPaths b) > MaxChangeEntries \<or>
              length (slice (Entries (BaseManifest b))) > MaxChangeEntries \<or>
              length (slice (Entries (RemoteManifest b))) > MaxChangeEntries then Inl EntryLimitExceeded
      else
        bind_res (check_metadata (Paths b) [] (MetadataPaths b)) (\<lambda>_.
        bind_res (check_roots lower (MetadataPaths b) [] (Paths b)) (\<lambda>_.
          if change_bundle.Bytes b < 0 then Inl (InvalidBundle ''negative byte count'')
          else
            bind_res (validateBundleManifestContext lower os (BaseManifest b) (Paths b)) (\<lambda>baseBytes.
            bind_res (validateBundleManifestContext lower os (RemoteManifest b) (Paths b)) (\<lambda>remoteBytes.
              if baseBytes > change_bundle.Bytes b \<or> remoteBytes > change_bundle.Bytes b - baseBytes \<or>
                 baseBytes + remoteBytes \<noteq> change_bundle.Bytes b
              then Inl (InvalidBundle ''byte count is inconsistent'')
              else each_ok (check_value b) (Paths b))))))"

subsection \<open>Binary searches\<close>

lemma is_root_member: "sorted_wrt (<) xs \<Longrightarrow> is_root xs k \<longleftrightarrow> k \<in> set xs"
  unfolding is_root_def search_strings_def Let_def by (rule sort_search_lower_bound(4) [symmetric])

lemma search_key_all:
  fixes k :: string
  assumes "path_sorted es"
  defines "i \<equiv> sort_search (length es) (\<lambda>i. Path (es ! i) \<ge> k)"
  shows "i \<le> length es" "\<forall>e \<in> set (take i es). Path e < k" "\<forall>e \<in> set (drop i es). k \<le> Path e"
    "k \<in> Path ` set es \<longleftrightarrow> i < length es \<and> Path (es ! i) = k"
proof -
  have "sorted_wrt (<) (map Path (take (length es) es))" using assms(1) by simp
  note key = sort_search_key [OF this order.refl, of k, folded i_def, unfolded take_all [OF order.refl]]
  show "i \<le> length es" "\<forall>e \<in> set (take i es). Path e < k" "\<forall>e \<in> set (drop i es). k \<le> Path e"
    "k \<in> Path ` set es \<longleftrightarrow> i < length es \<and> Path (es ! i) = k" by (fact key)+
qed

lemma found_entry:
  fixes p :: string
  assumes "path_sorted es"
  defines "i \<equiv> sort_search (length es) (\<lambda>i. Path (es ! i) \<ge> p)"
  shows "(if i < length es \<and> Path (es ! i) = p then [es ! i] else []) = (case entry_at es p of None \<Rightarrow> [] | Some e \<Rightarrow> [e])"
proof (cases "i < length es \<and> Path (es ! i) = p")
  case True
  then have "entry_at es p = Some (es ! i)" using sorted_find [OF assms(1)] by simp
  then show ?thesis using True by simp
next
  case False
  then have "p \<notin> Path ` set es" using search_key_all(4) [OF assms(1), of p] by (simp add: i_def)
  then have "entry_at es p = None" by (auto simp: find_None_iff)
  then show ?thesis using False by simp
qed

lemma exactManifestEntry_eq:
  assumes "path_sorted es"
  shows "exactManifestEntry es p = (case entry_at es p of None \<Rightarrow> [] | Some e \<Rightarrow> [e])"
proof -
  let ?i = "sort_search (length es) (\<lambda>i. Path (es ! i) \<ge> p)"
  have "?i \<le> length es" by (rule search_key_all(1) [OF assms])
  then have "exactManifestEntry es p = (if ?i < length es \<and> Path (es ! ?i) = p then [es ! ?i] else [])"
    by (simp add: exactManifestEntry_def Let_def)
  then show ?thesis unfolding found_entry [OF assms] .
qed

lemma take_while_search:
  assumes "upward (length xs) (\<lambda>i. \<not> P (xs ! i))"
  shows "take (sort_search (length xs) (\<lambda>i. \<not> P (xs ! i))) xs = filter P xs"
proof -
  let ?n = "sort_search (length xs) (\<lambda>i. \<not> P (xs ! i))"
  have sp: "?n \<le> length xs" "\<forall>a < ?n. P (xs ! a)" "\<forall>a. ?n \<le> a \<longrightarrow> a < length xs \<longrightarrow> \<not> P (xs ! a)"
    using sort_search_splits [OF assms] unfolding splits_at_def not_not by blast+
  have "filter P (take ?n xs) = take ?n xs"
  proof (rule filter_True, rule ballI)
    fix x
    assume "x \<in> set (take ?n xs)"
    then show "P x" using sp(1,2) by (auto simp: in_set_conv_nth)
  qed
  moreover have "filter P (drop ?n xs) = []"
  proof (rule filter_False, rule ballI)
    fix x
    assume "x \<in> set (drop ?n xs)"
    then obtain a where "a < length xs - ?n" "x = xs ! (?n + a)" using sp(1) by (auto simp: in_set_conv_nth)
    then show "\<not> P x" using sp(1,3) by simp
  qed
  ultimately have "filter P (take ?n xs @ drop ?n xs) = take ?n xs" by (simp only: filter_append append_Nil2)
  then show ?thesis by (simp only: append_take_drop_id)
qed

lemma below_interval:
  fixes root :: string
  assumes "path_sorted es"
  defines "start \<equiv> sort_search (length es) (\<lambda>i. Path (es ! i) \<ge> root @ ''/'')"
  shows "take (sort_search (length es - start) (\<lambda>i. \<not> has_prefix (Path (es ! (start + i))) (root @ ''/''))) (drop start es) =
    filter (\<lambda>e. prefix (root @ ''/'') (Path e)) es"
proof -
  let ?below = "root @ ''/''"
  note s = search_key_all [OF assms(1), of ?below, folded start_def]
  have len: "length (drop start es) = length es - start" by simp
  have "upward (length (drop start es)) (\<lambda>i. \<not> prefix ?below (Path (drop start es ! i)))"
    unfolding upward_def
  proof (intro allI impI)
    fix a b
    assume ab: "a \<le> b" "b < length (drop start es)" "\<not> prefix ?below (Path (drop start es ! a))"
    have "?below \<le> Path (drop start es ! a)" using s(3) ab nth_mem [of a "drop start es"] by simp
    then have "root @ ''0'' \<le> Path (drop start es ! a)" using ab(3) subtree_range [of root] by (meson not_le)
    also have "path_sorted (drop start es)" using assms(1) by (simp add: drop_map [symmetric] sorted_wrt_drop)
    then have "Path (drop start es ! a) \<le> Path (drop start es ! b)"
      using ab(1,2) sorted_wrt_nth_less [of "(<)" "map Path (drop start es)" a b] by (cases "a = b") auto
    finally show "\<not> prefix ?below (Path (drop start es ! b))" using subtree_range [of root] by (meson not_le)
  qed
  from take_while_search [OF this] have "take (sort_search (length es - start) (\<lambda>i. \<not> has_prefix (Path (es ! (start + i))) ?below)) (drop start es) =
      filter (\<lambda>e. prefix ?below (Path e)) (drop start es)"
    unfolding len has_prefix_def using s(1) by simp
  moreover have "filter (\<lambda>e. prefix ?below (Path e)) (take start es) = []"
    using s(2) subtree_range [of root] by (auto simp: filter_empty_conv) (meson not_le)
  ultimately show ?thesis by (metis append_Nil append_take_drop_id filter_append)
qed

lemma subtreeManifest_filter:
  assumes "path_sorted es"
  shows "subtreeManifest es root = filter (\<lambda>e. at_or_below root (Path e)) es"
proof -
  let ?exact = "sort_search (length es) (\<lambda>i. Path (es ! i) \<ge> root)"
  let ?start = "sort_search (length es) (\<lambda>i. Path (es ! i) \<ge> root @ ''/'')"
  let ?n = "sort_search (length es - ?start) (\<lambda>i. \<not> has_prefix (Path (es ! (?start + i))) (root @ ''/''))"
  have "subtreeManifest es root =
      (if ?exact < length es \<and> Path (es ! ?exact) = root then [es ! ?exact] else []) @ take ?n (drop ?start es)"
  proof (cases "?exact < length es \<and> Path (es ! ?exact) = root \<and> ?start = ?exact + 1")
    case True
    then have "take (?start + ?n - ?exact) (drop ?exact es) = es ! ?exact # take ?n (drop ?start es)"
      by (simp add: Cons_nth_drop_Suc [symmetric])
    then show ?thesis using True by (simp add: subtreeManifest_def Let_def)
  next
    case False
    then show ?thesis by (auto simp: subtreeManifest_def Let_def)
  qed
  then show ?thesis unfolding found_entry [OF assms] below_interval [OF assms] filter_subtree [OF assms] .
qed

subsection \<open>What a valid bundle is\<close>

text \<open>The reference: the conditions on a bundle, without the order of the checks, the maps they
  fill or the searches they make.\<close>

definition path_allowed :: "string \<Rightarrow> bool" where
  "path_allowed p \<longleftrightarrow> \<not> pathContainsGitMetadata p \<and> \<not> pathUsesApplyTransaction p"

definition roots_fit :: "(string \<Rightarrow> string) \<Rightarrow> string set \<Rightarrow> string \<Rightarrow> string \<Rightarrow> bool" where
  "roots_fit lower metadata r p \<longleftrightarrow> r < p \<and> lower r \<noteq> lower p \<and>
     (\<forall>q \<in> set (parent_dirs p). lower r = lower q \<longrightarrow> r = q \<and> q \<in> metadata)"

definition roots_ok :: "(string \<Rightarrow> string) \<Rightarrow> string set \<Rightarrow> string list \<Rightarrow> bool" where
  "roots_ok lower metadata ps \<longleftrightarrow>
     sorted_wrt (roots_fit lower metadata) ps \<and> (\<forall>p \<in> set ps. rel_path p \<and> nul \<notin> set p \<and> path_allowed p)"

definition declared :: "string set \<Rightarrow> manifest_entry \<Rightarrow> bool" where
  "declared roots e \<longleftrightarrow>
     (\<exists>r \<in> roots. at_or_below r (Path e)) \<or> (Type e = EntryDir \<and> (\<exists>r \<in> roots. prefix (Path e @ ''/'') r))"

fun file_bytes :: "manifest_entry list \<Rightarrow> int" where
  "file_bytes [] = 0"
| "file_bytes (e # es) = (if Type e = EntryFile then Size e else 0) + file_bytes es"

definition bundle_manifest_ok :: "(string \<Rightarrow> string) \<Rightarrow> platform \<Rightarrow> string set \<Rightarrow> manifest_entry list \<Rightarrow> bool" where
  "bundle_manifest_ok lower os roots es \<longleftrightarrow>
     manifest_ok os es \<and> path_sorted es \<and> inj_on (\<lambda>e. lower (Path e)) (set es) \<and>
     (\<forall>e \<in> set es. path_allowed (Path e) \<and> declared roots e) \<and> file_bytes es \<le> MaxInt64"

definition side :: "change_bundle \<Rightarrow> manifest \<Rightarrow> string \<Rightarrow> manifest_entry list" where
  "side b m p = filter (\<lambda>e. if p \<in> set (MetadataPaths b) then Path e = p else at_or_below p (Path e)) (slice (Entries m))"

definition value_ok :: "change_bundle \<Rightarrow> string \<Rightarrow> bool" where
  "value_ok b p \<longleftrightarrow> side b (BaseManifest b) p \<noteq> side b (RemoteManifest b) p \<and>
     (p \<in> set (MetadataPaths b) \<longleftrightarrow>
      (\<exists>x y. side b (BaseManifest b) p = [x] \<and> side b (RemoteManifest b) p = [y] \<and> Path x = p \<and> Path y = p \<and>
         Type x = EntryDir \<and> Type y = EntryDir))"

definition bundle_ok :: "(string \<Rightarrow> string) \<Rightarrow> platform \<Rightarrow> change_bundle \<Rightarrow> bool" where
  "bundle_ok lower os b \<longleftrightarrow>
     V b = BundleVersion \<and> length (BaselineRoot b) = 64 \<and> list_all hex_digit (BaselineRoot b) \<and>
     length (Paths b) \<le> MaxChangeEntries \<and>
     (\<forall>m \<in> {BaseManifest b, RemoteManifest b}. length (slice (Entries m)) \<le> MaxChangeEntries \<and>
        bundle_manifest_ok lower os (set (Paths b)) (slice (Entries m))) \<and>
     roots_ok lower (set (MetadataPaths b)) (Paths b) \<and>
     sorted_wrt (<) (MetadataPaths b) \<and> set (MetadataPaths b) \<subseteq> set (Paths b) \<and>
     file_bytes (slice (Entries (BaseManifest b))) + file_bytes (slice (Entries (RemoteManifest b))) = change_bundle.Bytes b \<and>
     (\<forall>p \<in> set (Paths b). value_ok b p)"

lemma below_root_found:
  fixes p :: string
  assumes "sorted_wrt (<) xs"
  defines "i \<equiv> search_strings xs (p @ ''/'')"
  shows "i < length xs \<and> has_prefix (xs ! i) (p @ ''/'') \<longleftrightarrow> (\<exists>r \<in> set xs. prefix (p @ ''/'') r)"
proof
  show "\<exists>r \<in> set xs. prefix (p @ ''/'') r" if "i < length xs \<and> has_prefix (xs ! i) (p @ ''/'')"
    using that nth_mem by (auto simp: has_prefix_def)
  note s = sort_search_lower_bound [OF assms(1), of "p @ ''/''", folded search_strings_def, folded i_def]
  assume "\<exists>r \<in> set xs. prefix (p @ ''/'') r"
  then obtain a where a: "a < length xs" "prefix (p @ ''/'') (xs ! a)" by (auto simp: in_set_conv_nth)
  note range = subtree_range [of p "xs ! a", THEN iffD2, OF a(2)]
  have "\<not> a < i"
  proof
    assume "a < i"
    then have "xs ! a \<in> set (take i xs)" using a(1) by (auto simp: in_set_conv_nth intro!: exI [of _ a])
    then show False using s(2) range by (meson leD)
  qed
  then have i: "i \<le> a" "i < length xs" using a(1) by simp_all
  then have "xs ! i \<in> set (drop i xs)" by (simp add: Cons_nth_drop_Suc [symmetric])
  then have "p @ ''/'' \<le> xs ! i" using s(3) by blast
  moreover have "xs ! i \<le> xs ! a" using sorted_wrt_nth_less [OF assms(1), of i a] i(1) a(1) by (cases "i = a") auto
  ultimately have "prefix (p @ ''/'') (xs ! i)" using range subtree_range [of p "xs ! i"] by (meson order.strict_trans1)
  then show "i < length xs \<and> has_prefix (xs ! i) (p @ ''/'')" using i by (simp add: has_prefix_def)
qed

lemma bundleEntryDeclared_iff:
  assumes "sorted_wrt (<) ps" "\<forall>p \<in> set ps. rel_path p" "rel_path (Path e) \<or> Path e = ''.''"
  shows "bundleEntryDeclared e ps \<longleftrightarrow> declared (set ps) e"
proof -
  have "(\<exists>r \<in> set ps. r \<in> set (parent_dirs (Path e))) \<longleftrightarrow> (\<exists>r \<in> set ps. prefix (r @ ''/'') (Path e))"
  proof (cases "rel_path (Path e)")
    case True
    then show ?thesis using assms(2) in_parent_dirs_iff [OF True] by auto
  next
    case False
    then have "Path e = ''.''" using assms(3) by blast
    moreover have "\<not> prefix (r @ ''/'') ''.''" if "r \<in> set ps" for r
      using assms(2) that by (cases r) (auto simp: rel_path_def)
    ultimately show ?thesis by simp
  qed
  then show ?thesis
    unfolding bundleEntryDeclared_def declared_def Let_def below_root_found [OF assms(1)]
    using is_root_member [OF assms(1)] by (auto simp: list_ex_iff)
qed

lemma map_of_folded:
  "inj_on f (set xs) \<Longrightarrow> map_of (map (\<lambda>x. (f x, x)) xs) k = Some x \<longleftrightarrow> x \<in> set xs \<and> f x = k"
  by (induction xs) (auto simp: inj_on_def)

lemma map_of_folded_None: "map_of (map (\<lambda>x. (f x, x)) xs) k = None \<longleftrightarrow> (\<forall>x \<in> set xs. f x \<noteq> k)"
  by (induction xs) auto

lemma hd_below: "sorted_wrt (>) seen \<Longrightarrow> (seen = [] \<or> hd seen < (p :: 'a :: linorder)) \<longleftrightarrow> (\<forall>r \<in> set seen. r < p)"
  by (cases seen) (auto intro: order.strict_trans)

lemma check_metadata_ok:
  "sorted_wrt (>) seen \<Longrightarrow>
   is_ok (check_metadata ps seen ms) \<longleftrightarrow>
     sorted_wrt (<) ms \<and> (\<forall>r \<in> set seen. \<forall>m \<in> set ms. r < m) \<and> (\<forall>m \<in> set ms. is_root ps m)"
proof (induction ms arbitrary: seen)
  case (Cons m ms)
  show ?case
  proof (cases "\<forall>r \<in> set seen. r < m")
    case True
    then have "sorted_wrt (>) (m # seen)" "\<not> (seen \<noteq> [] \<and> m \<le> hd seen)"
      using Cons.prems hd_below [OF Cons.prems, of m] by auto
    then show ?thesis using Cons.IH [of "m # seen"] True by auto
  next
    case False
    then show ?thesis using hd_below [OF Cons.prems, of m] by auto
  qed
qed simp

lemma validatePath_ok: "is_ok (validatePath p) \<longleftrightarrow> rel_path p \<and> nul \<notin> set p \<and> \<not> pathContainsGitMetadata p"
  by (auto simp: validatePath_def rel_path_def)

lemma check_parent_ok:
  assumes "inj_on lower (set seen)"
  shows "is_ok (check_parent lower ms seen q) \<longleftrightarrow> (\<forall>r \<in> set seen. lower r = lower q \<longrightarrow> r = q \<and> q \<in> set ms)"
proof (cases "map_of (map (\<lambda>p. (lower p, p)) seen) (lower q)")
  case None
  then have "\<forall>r \<in> set seen. lower r \<noteq> lower q" by (simp add: map_of_folded_None)
  then show ?thesis using None by (auto simp: check_parent_def)
next
  case (Some r)
  then have "r \<in> set seen" "lower r = lower q" by (simp_all add: map_of_folded [OF assms])
  moreover from this have "r' = r" if "r' \<in> set seen" "lower r' = lower q" for r'
    using that assms by (auto simp: inj_on_def)
  ultimately have "(\<forall>r' \<in> set seen. lower r' = lower q \<longrightarrow> r' = q \<and> q \<in> set ms) \<longleftrightarrow> r = q \<and> q \<in> set ms" by blast
  moreover have "is_ok (check_parent lower ms seen q) \<longleftrightarrow> r = q \<and> q \<in> set ms"
    using Some \<open>r \<in> set seen\<close> by (cases "r = q") (simp_all add: check_parent_def)
  ultimately show ?thesis by blast
qed

lemma check_roots_ok:
  assumes "sorted_wrt (>) seen" "inj_on lower (set seen)"
  shows "is_ok (check_roots lower ms seen ps) \<longleftrightarrow>
     roots_ok lower (set ms) ps \<and> (\<forall>r \<in> set seen. \<forall>p \<in> set ps. roots_fit lower (set ms) r p)"
  using assms
proof (induction ps arbitrary: seen)
  case (Cons p ps)
  have single: "is_ok (check_roots lower ms seen (p # ps)) \<longleftrightarrow>
      rel_path p \<and> nul \<notin> set p \<and> path_allowed p \<and> (\<forall>r \<in> set seen. roots_fit lower (set ms) r p) \<and>
      is_ok (check_roots lower ms (p # seen) ps)"
  proof -
    have "is_ok (check_roots lower ms seen (p # ps)) \<longleftrightarrow>
        is_ok (validatePath p) \<and> \<not> pathUsesApplyTransaction p \<and> (\<forall>r \<in> set seen. r < p) \<and>
        (\<forall>q \<in> set (parent_dirs p). is_ok (check_parent lower ms seen q)) \<and> (\<forall>r \<in> set seen. lower r \<noteq> lower p) \<and>
        is_ok (check_roots lower ms (p # seen) ps)"
      unfolding check_roots.simps(2) hd_below [OF Cons.prems(1), symmetric] map_of_folded_None [symmetric]
      by (auto simp: not_le simp del: is_ok_bind)
    then show ?thesis
      unfolding validatePath_ok check_parent_ok [OF Cons.prems(2)] path_allowed_def roots_fit_def by blast
  qed
  show ?case
  proof (cases "\<forall>r \<in> set seen. roots_fit lower (set ms) r p")
    case True
    then have "sorted_wrt (>) (p # seen)" "inj_on lower (set (p # seen))"
      using Cons.prems by (auto simp: roots_fit_def inj_on_def)
    from Cons.IH [OF this] show ?thesis unfolding single by (auto simp: roots_ok_def)
  next
    case False
    then show ?thesis unfolding single by auto
  qed
qed (simp add: roots_ok_def)

lemma file_size_nonneg: "entry_ok os e \<Longrightarrow> Type e = EntryFile \<Longrightarrow> 0 \<le> Size e"
  by (auto simp: entry_ok_def validateEntry_def split: if_splits)

lemma file_bytes_nonneg: "\<forall>e \<in> set es. entry_ok os e \<Longrightarrow> 0 \<le> file_bytes es"
  by (induction es) (auto dest: file_size_nonneg)

text \<open>The reference condition on an entry that follows the ones at the paths \<open>seen\<close>.\<close>

definition entry_fits :: "(string \<Rightarrow> string) \<Rightarrow> string set \<Rightarrow> string set \<Rightarrow> manifest_entry \<Rightarrow> bool" where
  "entry_fits lower roots seen e \<longleftrightarrow>
     (\<forall>r \<in> seen. r < Path e \<and> lower r \<noteq> lower (Path e)) \<and> path_allowed (Path e) \<and> declared roots e"

lemma entry_rel_or_dot: "entry_ok os e \<Longrightarrow> rel_path (Path e) \<or> Path e = ''.''"
  unfolding entry_ok_def using checkRelPath_rel by blast

lemma check_entries_step:
  fixes sz :: int
  assumes "sorted_wrt (>) seen" "inj_on lower (set seen)" "sorted_wrt (<) ps" "\<forall>p \<in> set ps. rel_path p" "entry_ok os e"
  defines "sz' \<equiv> if Type e = EntryFile then sz + Size e else sz"
  assumes "sz \<le> MaxInt64"
  shows "check_entries lower ps seen sz (e # es) = Inr n \<longleftrightarrow>
     entry_fits lower (set ps) (set seen) e \<and> sz' \<le> MaxInt64 \<and> check_entries lower ps (Path e # seen) sz' es = Inr n"
proof (cases "\<forall>r \<in> set seen. r < Path e")
  case True
  then have hd: "\<not> (seen \<noteq> [] \<and> Path e \<le> hd seen)" using hd_below [OF assms(1), of "Path e"] by auto
  have coll: "(case map_of (map (\<lambda>p. (lower p, p)) seen) (lower (Path e)) of Some prior \<Rightarrow> prior \<noteq> Path e | None \<Rightarrow> False) \<longleftrightarrow>
      \<not> (\<forall>r \<in> set seen. lower r \<noteq> lower (Path e))"
  proof (cases "map_of (map (\<lambda>p. (lower p, p)) seen) (lower (Path e))")
    case None
    then show ?thesis using map_of_folded_None [of lower seen "lower (Path e)"] by simp
  next
    case (Some r)
    then have "r \<in> set seen" "lower r = lower (Path e)" by (simp_all add: map_of_folded [OF assms(2)])
    then show ?thesis using Some True by auto
  qed
  have size: "Type e = EntryFile \<and> Size e > MaxInt64 - sz \<longleftrightarrow> \<not> sz' \<le> MaxInt64" using assms(7) by (auto simp: sz'_def)
  show ?thesis
    unfolding check_entries.simps(2) if_not_P [OF hd] coll size bundleEntryDeclared_iff [OF assms(3,4) entry_rel_or_dot [OF assms(5)]]
      entry_fits_def path_allowed_def sz'_def [symmetric]
    using True by simp
next
  case False
  then have "seen \<noteq> [] \<and> Path e \<le> hd seen" using hd_below [OF assms(1), of "Path e"] by auto
  then show ?thesis using False by (auto simp: entry_fits_def)
qed

lemma check_entries_ok:
  assumes "sorted_wrt (<) ps" "\<forall>p \<in> set ps. rel_path p"
    and "sorted_wrt (>) seen" "inj_on lower (set seen)" "\<forall>e \<in> set es. entry_ok os e" "0 \<le> sz" "sz \<le> MaxInt64"
  shows "check_entries lower ps seen sz es = Inr n \<longleftrightarrow>
     path_sorted es \<and> inj_on (\<lambda>e. lower (Path e)) (set es) \<and> (\<forall>e \<in> set es. entry_fits lower (set ps) (set seen) e) \<and>
     n = sz + file_bytes es \<and> n \<le> MaxInt64"
  using assms(3-)
proof (induction es arbitrary: seen sz)
  case (Cons e es)
  let ?sz = "if Type e = EntryFile then sz + Size e else sz"
  have e: "entry_ok os e" "0 \<le> ?sz" and es: "\<forall>e \<in> set es. entry_ok os e" using Cons.prems file_size_nonneg by auto
  note step = check_entries_step [OF Cons.prems(1,2) assms(1,2) e(1) Cons.prems(5), of es n]
  show ?case
  proof (cases "entry_fits lower (set ps) (set seen) e \<and> ?sz \<le> MaxInt64")
    case True
    then have "sorted_wrt (>) (Path e # seen)" "inj_on lower (set (Path e # seen))"
      using Cons.prems(1,2) by (auto simp: entry_fits_def inj_on_def)
    note IH = Cons.IH [OF this es e(2) conjunct2 [OF True]]
    have total: "?sz + file_bytes es = sz + file_bytes (e # es)" by simp
    have fits: "(\<forall>x \<in> set es. entry_fits lower (set ps) (set (Path e # seen)) x) \<longleftrightarrow>
        (\<forall>x \<in> set es. entry_fits lower (set ps) (set seen) x) \<and> (\<forall>x \<in> set es. Path e < Path x) \<and>
        (\<forall>x \<in> set es. lower (Path e) \<noteq> lower (Path x))"
      by (auto simp: entry_fits_def)
    have sorted: "path_sorted (e # es) \<longleftrightarrow> path_sorted es \<and> (\<forall>x \<in> set es. Path e < Path x)" by auto
    have inj: "inj_on (\<lambda>e. lower (Path e)) (set (e # es)) \<longleftrightarrow>
        inj_on (\<lambda>e. lower (Path e)) (set es) \<and> (\<forall>x \<in> set es. lower (Path e) \<noteq> lower (Path x))" if "\<forall>x \<in> set es. Path e < Path x"
      using that by (auto simp: inj_on_def)
    have "(\<forall>x \<in> set (e # es). entry_fits lower (set ps) (set seen) x) \<longleftrightarrow> (\<forall>x \<in> set es. entry_fits lower (set ps) (set seen) x)"
      using True by simp
    with True inj show ?thesis unfolding step IH total fits sorted by blast
  next
    case False
    moreover have "?sz \<le> MaxInt64" if "sz + file_bytes (e # es) \<le> MaxInt64" using that file_bytes_nonneg [OF es] by (simp split: if_splits)
    ultimately show ?thesis unfolding step by auto
  qed
qed auto

lemma validateBundleManifest_ok:
  assumes "sorted_wrt (<) ps" "\<forall>p \<in> set ps. rel_path p"
  shows "validateBundleManifestContext lower os m ps = Inr n \<longleftrightarrow>
     bundle_manifest_ok lower os (set ps) (slice (Entries m)) \<and> n = file_bytes (slice (Entries m))"
proof (cases "is_ok (Validate os m)")
  case True
  then have ok: "manifest_ok os (slice (Entries m))" by (simp add: Validate_manifest_ok)
  then have "\<forall>e \<in> set (slice (Entries m)). entry_ok os e" by (simp add: manifest_ok_def)
  from check_entries_ok [OF assms, of "[]" lower _ os 0, OF _ _ this] True ok show ?thesis
    by (auto simp: validateBundleManifestContext_def is_ok_iff bundle_manifest_ok_def entry_fits_def MaxInt64_def)
next
  case False
  then have "\<not> manifest_ok os (slice (Entries m))" by (simp add: Validate_manifest_ok)
  then show ?thesis using False
    by (auto simp: validateBundleManifestContext_def bundle_manifest_ok_def split: sum.splits)
qed

lemma exactManifestEntry_filter: "path_sorted es \<Longrightarrow> exactManifestEntry es p = filter (\<lambda>e. Path e = p) es"
proof -
  assume s: "path_sorted es"
  then have "filter (\<lambda>e. Path e = p) es = (case entry_at es p of None \<Rightarrow> [] | Some e \<Rightarrow> [e])"
  proof (induction es)
    case (Cons e es)
    have "filter (\<lambda>x. Path x = p) es = []" if "Path e = p" using that Cons.prems by (intro filter_False) auto
    then show ?case using Cons by auto
  qed simp
  then show ?thesis using exactManifestEntry_eq [OF s] by simp
qed

lemma single_dir:
  "(length xs = 1 \<and> length ys = 1 \<and> Path (xs ! 0) = p \<and> Path (ys ! 0) = p \<and>
      Type (xs ! 0) = EntryDir \<and> Type (ys ! 0) = EntryDir) \<longleftrightarrow>
   (\<exists>x y. xs = [x] \<and> ys = [y] \<and> Path x = p \<and> Path y = p \<and> Type x = EntryDir \<and> Type y = EntryDir)"
  by (auto simp: length_Suc_conv)

lemma check_value_ok:
  assumes "path_sorted (slice (Entries (BaseManifest b)))" "path_sorted (slice (Entries (RemoteManifest b)))"
  shows "is_ok (check_value b p) \<longleftrightarrow> value_ok b p"
proof -
  have eq: "(if p \<in> set (MetadataPaths b) then exactManifestEntry else subtreeManifest) (slice (Entries m)) p = side b m p"
    if "path_sorted (slice (Entries m))" for m
    by (simp add: side_def exactManifestEntry_filter [OF that] subtreeManifest_filter [OF that])
  have ifs: "is_ok (if xs = [] \<and> ys = [] then Inl e1 else if xs = ys then Inl e2 else if m \<noteq> c then Inl e3 else Inr ()) \<longleftrightarrow>
      xs \<noteq> ys \<and> (m \<longleftrightarrow> c)" for xs ys :: "manifest_entry list" and m c and e1 e2 e3 :: change_error by auto
  show ?thesis
    unfolding check_value_def Let_def eq [OF assms(1)] eq [OF assms(2)] value_ok_def single_dir ifs ..
qed

lemma roots_ok_sorted: "roots_ok lower ms ps \<Longrightarrow> sorted_wrt (<) ps \<and> (\<forall>p \<in> set ps. rel_path p)"
  using sorted_wrt_mono_rel [of ps "roots_fit lower ms" "(<)"] by (simp add: roots_ok_def roots_fit_def)

lemma ValidateBundle_checks:
  "is_ok (ValidateBundleContext lower os b) \<longleftrightarrow>
     V b = BundleVersion \<and> length (BaselineRoot b) = 64 \<and> list_all hex_digit (BaselineRoot b) \<and>
     length (Paths b) \<le> MaxChangeEntries \<and> length (MetadataPaths b) \<le> MaxChangeEntries \<and>
     length (slice (Entries (BaseManifest b))) \<le> MaxChangeEntries \<and>
     length (slice (Entries (RemoteManifest b))) \<le> MaxChangeEntries \<and>
     is_ok (check_metadata (Paths b) [] (MetadataPaths b)) \<and>
     is_ok (check_roots lower (MetadataPaths b) [] (Paths b)) \<and> 0 \<le> change_bundle.Bytes b \<and>
     (\<exists>n n'. validateBundleManifestContext lower os (BaseManifest b) (Paths b) = Inr n \<and>
        validateBundleManifestContext lower os (RemoteManifest b) (Paths b) = Inr n' \<and>
        n \<le> change_bundle.Bytes b \<and> n' \<le> change_bundle.Bytes b - n \<and> n + n' = change_bundle.Bytes b) \<and>
     (\<forall>p \<in> set (Paths b). is_ok (check_value b p))"
proof -
  let ?sides = "\<lambda>n n'. n > change_bundle.Bytes b \<or> n' > change_bundle.Bytes b - n \<or> n + n' \<noteq> change_bundle.Bytes b"
  have two: "is_ok (bind_res r (\<lambda>n. bind_res r' (\<lambda>n'. if ?sides n n' then Inl e else x))) \<longleftrightarrow>
      (\<exists>n n'. r = Inr n \<and> r' = Inr n' \<and> \<not> ?sides n n') \<and> is_ok x" for r r' :: "change_error + int" and e and x :: "change_error + unit"
    by (cases r; cases r') simp_all
  show ?thesis
    unfolding ValidateBundleContext_def by (simp add: two not_less conj_ac del: is_ok_bind)
qed

lemma metadata_count: "sorted_wrt (<) ms \<Longrightarrow> set ms \<subseteq> set ps \<Longrightarrow> length (ms :: string list) \<le> length ps"
  using card_mono [of "set ps" "set ms"] card_length [of ps] distinct_card [of ms] by (simp add: strict_sorted_iff)

lemma ValidateBundle_spec:
  "is_ok (ValidateBundleContext lower os b) \<longleftrightarrow> bundle_ok lower os b"
proof (cases "roots_ok lower (set (MetadataPaths b)) (Paths b)")
  case True
  note ps = conjunct1 [OF roots_ok_sorted [OF True]] conjunct2 [OF roots_ok_sorted [OF True]]
  let ?base = "slice (Entries (BaseManifest b))" and ?remote = "slice (Entries (RemoteManifest b))"
  have md: "is_ok (check_metadata (Paths b) [] (MetadataPaths b)) \<longleftrightarrow>
      sorted_wrt (<) (MetadataPaths b) \<and> set (MetadataPaths b) \<subseteq> set (Paths b)"
    by (auto simp: check_metadata_ok is_root_member [OF ps(1)])
  have roots: "is_ok (check_roots lower (MetadataPaths b) [] (Paths b))" using True by (simp add: check_roots_ok)
  have nonneg: "0 \<le> file_bytes es" if "bundle_manifest_ok lower os R es" for R es
    using that file_bytes_nonneg by (auto simp: bundle_manifest_ok_def manifest_ok_def)
  have vals: "is_ok (check_value b p) \<longleftrightarrow> value_ok b p"
    if "bundle_manifest_ok lower os (set (Paths b)) ?base" "bundle_manifest_ok lower os (set (Paths b)) ?remote" for p
    by (rule check_value_ok) (use that in \<open>simp_all add: bundle_manifest_ok_def\<close>)
  show ?thesis
  proof (cases "bundle_manifest_ok lower os (set (Paths b)) ?base \<and> bundle_manifest_ok lower os (set (Paths b)) ?remote")
    case both: True
    note both' = conjunct1 [OF both] conjunct2 [OF both]
    show ?thesis
      unfolding ValidateBundle_checks bundle_ok_def md validateBundleManifest_ok [OF ps] vals [OF both']
      using both' roots True nonneg [OF both'(1)] nonneg [OF both'(2)] metadata_count [of "MetadataPaths b" "Paths b"] by auto
  next
    case False
    then show ?thesis unfolding ValidateBundle_checks bundle_ok_def validateBundleManifest_ok [OF ps] by blast
  qed
next
  case False
  then show ?thesis by (simp add: ValidateBundle_checks check_roots_ok bundle_ok_def)
qed

subsection \<open>Properties\<close>

text \<open>C9. The checks of \<open>ValidateBundleContext\<close> accept exactly the bundles that meet the reference
  conditions: the roots are clean relative paths in order, outside \<open>.git\<close> and the reserved
  namespace, none below another unless that one is a metadata path, no two equal up to letter
  case; both manifests are valid, in order, confined to the roots and the directories above
  them; the byte count is the sum of the file sizes; and every root differs between the two
  sides, by the mode of one directory exactly when it is a metadata path.\<close>
theorem ValidateBundle_iff_bundle_ok:
  "is_ok (ValidateBundleContext lower os b) \<longleftrightarrow> bundle_ok lower os b"
  by (rule ValidateBundle_spec)

text \<open>The search for roots that overlap up to letter case looks at the roots that come before: it
  refuses \<open>A\<close> with \<open>a/x\<close>, and lets \<open>A/x\<close> with \<open>a\<close> pass, where the link \<open>a\<close> and the directory
  above \<open>A/x\<close> have the same name on a filesystem that ignores case.\<close>

definition case_sample :: "string \<Rightarrow> string \<Rightarrow> change_bundle" where
  "case_sample p q = \<lparr>V = 1, BaselineRoot = replicate 64 CHR ''0'', Paths = [p, q], MetadataPaths = [],
     BaseManifest = \<lparr>Entries = Some []\<rparr>,
     RemoteManifest = \<lparr>Entries = Some (map (\<lambda>x. \<lparr>Path = x, Type = EntrySymlink, Mode = 0x1FF, Size = 0, SHA256 = '''', Target = ''t''\<rparr>) [p, q])\<rparr>,
     change_bundle.Bytes = 0\<rparr>"

theorem overlap_check_depends_on_order:
  "ValidateBundleContext (map ascii_lower) unix (case_sample ''A/x'' ''a'') = Inr ()"
  "ValidateBundleContext (map ascii_lower) unix (case_sample ''A'' ''a/x'') =
     Inl (InvalidBundle ''change paths overlap on case-insensitive filesystems'')"
proof -
  have head: "ValidateBundleContext lower os (case_sample p q) =
      bind_res (check_roots lower [] [] [p, q]) (\<lambda>_.
        bind_res (validateBundleManifestContext lower os (BaseManifest (case_sample p q)) [p, q]) (\<lambda>n.
        bind_res (validateBundleManifestContext lower os (RemoteManifest (case_sample p q)) [p, q]) (\<lambda>n'.
          if n > 0 \<or> n' > 0 - n \<or> n + n' \<noteq> 0 then Inl (InvalidBundle ''byte count is inconsistent'')
          else each_ok (check_value (case_sample p q)) [p, q])))" for lower os p q
  proof -
    have "hex_digit CHR ''0''" by code_simp
    moreover have "V (case_sample p q) = 1" "BaselineRoot (case_sample p q) = replicate 64 CHR ''0''"
      "Paths (case_sample p q) = [p, q]" "MetadataPaths (case_sample p q) = []" "change_bundle.Bytes (case_sample p q) = 0"
      "length (slice (Entries (BaseManifest (case_sample p q)))) = 0" "length (slice (Entries (RemoteManifest (case_sample p q)))) = 2"
      by (simp_all add: case_sample_def)
    ultimately show ?thesis
      by (simp add: ValidateBundleContext_def BundleVersion_def MaxChangeEntries_def list_all_iff
          del: check_roots.simps(2) each_ok.simps(2) cong: if_cong)
  qed
  show "ValidateBundleContext (map ascii_lower) unix (case_sample ''A/x'' ''a'') = Inr ()" unfolding head by code_simp
  show "ValidateBundleContext (map ascii_lower) unix (case_sample ''A'' ''a/x'') =
     Inl (InvalidBundle ''change paths overlap on case-insensitive filesystems'')" unfolding head by code_simp
qed

end
