(* ===== verification/Change_Accept.thy ===== *)
theory Change_Accept
  imports Change_Bundle
begin

text \<open>
  How a source advances by the changes that were accepted: \<open>mergeAcceptedSourceContext\<close> and its
  callers in \<open>checkpoint.go\<close>, \<open>source_delta.go\<close>, \<open>source_snapshot.go\<close>, \<open>source_prepared.go\<close> and
  \<open>transfer_session.go\<close> of \<open>internal/changes\<close>, and the recorded outcome of a transfer. The paths of
  the manifests are clean relative paths when \<open>replaced\<close> walks up from them. A map from root to
  state is an association list. The digest of a bundle (\<open>ChangeBundle.RootHash\<close>) is the parameter
  \<open>digest\<close>. The context is not cancelled during a call.
\<close>

subsection \<open>Outcomes\<close>

record transferOutcome =
  Applied :: "string list"
  Conflicts :: "string list"
  States :: "(string \<times> string) list"
  Refused :: bool

definition all_accepted :: "string list \<Rightarrow> transferOutcome" where
  "all_accepted ps = \<lparr>Applied = [], Conflicts = [], States = map (\<lambda>p. (p, ''accepted'')) ps, Refused = False\<rparr>"

definition bundleHasMetadataPath :: "change_bundle \<Rightarrow> string \<Rightarrow> bool" where
  "bundleHasMetadataPath b p = is_root (MetadataPaths b) p"

definition rootsOutsideConflicts :: "string list \<Rightarrow> string list \<Rightarrow> string list" where
  "rootsOutsideConflicts roots conflicts =
     filter (\<lambda>root. \<not> list_ex (\<lambda>conflict. root = conflict \<or> has_prefix root (conflict @ ''/'') \<or>
                                has_prefix conflict (root @ ''/'')) conflicts) roots"

definition metadataStatePrefix :: string where
  "metadataStatePrefix = ''metadata:''"

text \<open>What \<open>validateOutcome\<close> reads of a recorded transfer. A file identity is a string, empty when
  it is zero.\<close>

record transferApplyState =
  state_Paths :: "string list"
  Materialize :: bool
  Pending :: string
  CleanupID :: "string option"
  Outcome :: "transferOutcome option"

fun check_conflicts :: "string list \<Rightarrow> string option \<Rightarrow> string list \<Rightarrow> bool" where
  "check_conflicts paths prior [] = True"
| "check_conflicts paths prior (c # cs) =
     (is_ok (validatePath c) \<and> (case prior of None \<Rightarrow> True | Some q \<Rightarrow> \<not> q \<ge> c) \<and>
      length (rootsOutsideConflicts paths [c]) \<noteq> length paths \<and> check_conflicts paths (Some c) cs)"

definition check_state :: "change_bundle \<Rightarrow> string list \<Rightarrow> string \<times> string \<Rightarrow> bool" where
  "check_state b paths s =
     (case s of (p, state) \<Rightarrow>
        is_root paths p \<and> has_prefix state metadataStatePrefix = bundleHasMetadataPath b p \<and>
        (let digest = trim_prefix state metadataStatePrefix
         in digest = ''missing'' \<or> (list_all hex_digit digest \<and> length digest = 64)))"

definition state_of :: "transferOutcome \<Rightarrow> string \<Rightarrow> string" where
  "state_of ot p = (case map_of (States ot) p of None \<Rightarrow> '''' | Some s \<Rightarrow> s)"

fun check_applied :: "transferOutcome \<Rightarrow> string list \<Rightarrow> string list \<Rightarrow> bool" where
  "check_applied ot seen [] = True"
| "check_applied ot seen (p # ps) =
     (p \<notin> set seen \<and> state_of ot p \<noteq> '''' \<and> rootsOutsideConflicts [p] (Conflicts ot) \<noteq> [] \<and>
      check_applied ot (p # seen) ps)"

definition validateOutcome :: "transferApplyState \<Rightarrow> change_bundle \<Rightarrow> change_error + unit" where
  "validateOutcome s b =
     (if Pending s \<noteq> '''' \<and> \<not> validApplyTransaction (Pending s) then Inl (InvalidOutcome ''pending transfer transaction'')
      else if (case CleanupID s of
                 None \<Rightarrow> False
               | Some i \<Rightarrow> i = '''' \<or> Pending s = '''' \<or> (case Outcome s of None \<Rightarrow> True | Some ot \<Rightarrow> Refused ot))
      then Inl (InvalidOutcome ''transfer cleanup checkpoint'')
      else
        case Outcome s of
          None \<Rightarrow> Inr ()
        | Some ot \<Rightarrow>
            if Refused ot \<and> (Materialize s \<or> Conflicts ot = [] \<or> Applied ot \<noteq> [] \<or> States ot \<noteq> [])
            then Inl (InvalidOutcome ''recorded transfer outcome'')
            else if \<not> Refused ot \<and> \<not> Materialize s \<and> Conflicts ot \<noteq> []
            then Inl (InvalidOutcome ''recorded transfer outcome'')
            else if \<not> check_conflicts (state_Paths s) None (Conflicts ot)
            then Inl (InvalidOutcome ''recorded transfer outcome'')
            else if \<not> list_all (check_state b (state_Paths s)) (States ot)
            then Inl (InvalidOutcome ''recorded transfer outcome'')
            else if \<not> check_applied ot [] (Applied ot)
            then Inl (InvalidOutcome ''recorded transfer outcome'')
            else if \<not> Refused ot \<and> \<not> list_all (\<lambda>p. p \<in> set (Applied ot)) (rootsOutsideConflicts (state_Paths s) (Conflicts ot))
            then Inl (InvalidOutcome ''recorded transfer outcome'')
            else Inr ())"

definition SelectTransferPaths :: "change_bundle \<Rightarrow> string \<Rightarrow> change_error + string list option" where
  "SelectTransferPaths b requested =
     (if requested = '''' then Inr None
      else if list_ex (\<lambda>p. has_prefix requested (p @ ''/'')) (Paths b)
      then Inl (InvalidOutcome ''path is inside a retained change root'')
      else
        let selected = filter (\<lambda>p. requested = p \<or> has_prefix p (trim_suffix requested ''/'' @ ''/'')) (Paths b)
        in if selected = [] then Inl (InvalidOutcome ''no changes in this transfer'') else Inr (Some selected))"

subsection \<open>Merging what was accepted\<close>

definition validateSourceMergeBases :: "manifest \<Rightarrow> change_bundle \<Rightarrow> change_error + unit" where
  "validateSourceMergeBases base b =
     each_ok (\<lambda>root.
         let select = (if bundleHasMetadataPath b root then exactManifestEntry else subtreeManifest)
         in check_that (select (slice (Entries base)) root = select (slice (Entries (BaseManifest b))) root)
              (MergeBaseMismatch root))
       (Paths b)"

text \<open>The closure \<open>replaced\<close>: \<open>current\<close> runs over the name and the directories above it.\<close>

fun replaced_loop :: "change_bundle \<Rightarrow> string list \<Rightarrow> string list \<Rightarrow> string \<Rightarrow> bool \<Rightarrow> string list \<Rightarrow> bool" where
  "replaced_loop b conflicts content name acc [] = acc"
| "replaced_loop b conflicts content name acc (current # cs) =
     (if current \<in> set conflicts \<and> (current = name \<or> \<not> bundleHasMetadataPath b current) then False
      else replaced_loop b conflicts content name (acc \<or> current \<in> set content) cs)"

definition replaced_path :: "change_bundle \<Rightarrow> transferOutcome \<Rightarrow> string \<Rightarrow> bool" where
  "replaced_path b ot name =
     (let roots = map fst (States ot);
          metadata = filter (bundleHasMetadataPath b) roots;
          content = filter (\<lambda>r. \<not> bundleHasMetadataPath b r) roots
      in replaced_loop b (Conflicts ot) content name (name \<in> set metadata)
           (if name = ''.'' then [] else name # parent_dirs name))"

fun merge_entries :: "(string \<Rightarrow> bool) \<Rightarrow> manifest_entry list \<Rightarrow> manifest_entry list \<Rightarrow> manifest_entry list" where
  "merge_entries repl [] [] = []"
| "merge_entries repl (x # xs) [] = (if \<not> repl (Path x) then x # merge_entries repl xs [] else merge_entries repl xs [])"
| "merge_entries repl [] (y # ys) = (if repl (Path y) then y # merge_entries repl [] ys else merge_entries repl [] ys)"
| "merge_entries repl (x # xs) (y # ys) =
     (if Path x \<le> Path y
      then if \<not> repl (Path x) then x # merge_entries repl xs (y # ys) else merge_entries repl xs (y # ys)
      else if repl (Path y) then y # merge_entries repl (x # xs) ys else merge_entries repl (x # xs) ys)"

definition mergeAcceptedSourceContext ::
  "manifest \<Rightarrow> change_bundle \<Rightarrow> transferOutcome \<Rightarrow> change_error + manifest" where
  "mergeAcceptedSourceContext base b ot =
     bind_res (validateSourceMergeBases base b) (\<lambda>_.
       if Refused ot \<or> States ot = [] then Inr base
       else
         let es = merge_entries (replaced_path b ot) (slice (Entries base)) (slice (Entries (RemoteManifest b)))
         in Inr \<lparr>Entries = if es = [] then None else Some es\<rparr>)"

subsection \<open>Checkpoints\<close>

definition validateSourcePath :: "string \<Rightarrow> change_error + unit" where
  "validateSourcePath name =
     bind_res (validatePath name) (\<lambda>_.
       if pathUsesApplyTransaction name then Inl (UnsafeChangePath name) else Inr ())"

definition validateCheckpointManifestContext :: "platform \<Rightarrow> manifest \<Rightarrow> change_error + unit" where
  "validateCheckpointManifestContext os m =
     bind_res (case ValidateSortedContext os None m of Inl e \<Rightarrow> Inl (ArchiveInvalid e) | Inr u \<Rightarrow> Inr u) (\<lambda>_.
       each_ok (\<lambda>e. validateSourcePath (Path e)) (slice (Entries m)))"

definition newSourceSnapshot :: "platform \<Rightarrow> manifest \<Rightarrow> change_error + snapshot" where
  "newSourceSnapshot os current =
     bind_res (lift_snapshot (New os current)) (\<lambda>state.
       case Walk state (\<lambda>_ e. case validateSourcePath (Path e) of Inl err \<Rightarrow> (Some err, False) | Inr _ \<Rightarrow> (None, True)) None of
         Some invalid \<Rightarrow> Inl invalid
       | None \<Rightarrow> Inr state)"

definition acceptedSourceManifestContext ::
  "platform \<Rightarrow> manifest \<Rightarrow> change_bundle \<Rightarrow> transferOutcome \<Rightarrow> change_error + manifest" where
  "acceptedSourceManifestContext os base b ot =
     bind_res (mergeAcceptedSourceContext base b ot) (\<lambda>next.
     bind_res (validateCheckpointManifestContext os next) (\<lambda>_. Inr next))"

definition acceptedSourceSnapshotContext ::
  "platform \<Rightarrow> manifest \<Rightarrow> change_bundle \<Rightarrow> transferOutcome \<Rightarrow> change_error + snapshot" where
  "acceptedSourceSnapshotContext os base b ot =
     bind_res (mergeAcceptedSourceContext base b ot) (newSourceSnapshot os)"

definition acceptSourceDelta ::
  "platform \<Rightarrow> manifest \<Rightarrow> change_bundle \<Rightarrow> string list \<Rightarrow> change_error + manifest" where
  "acceptSourceDelta os base b applied =
     bind_res (each_ok (\<lambda>p. check_that (is_root (Paths b) p) UnknownSourceChange) applied) (\<lambda>_.
       acceptedSourceManifestContext os base b (all_accepted applied))"

definition AcceptedSourceDelta ::
  "(string \<Rightarrow> string) \<Rightarrow> (string \<Rightarrow> string) \<Rightarrow> (string \<Rightarrow> string) \<Rightarrow> platform \<Rightarrow> manifest \<Rightarrow> change_bundle \<Rightarrow> string list \<Rightarrow>
    change_error + manifest" where
  "AcceptedSourceDelta marshal sha256hex lower os base b applied =
     bind_res (ValidateBundleContext lower os b) (\<lambda>_.
       if RootHash marshal sha256hex base \<noteq> BaselineRoot b then Inl CheckpointChanged
       else acceptSourceDelta os base b applied)"

definition AcceptedSourceContext ::
  "(bytes \<Rightarrow> bytes) \<Rightarrow> (string \<Rightarrow> string) \<Rightarrow> (string \<Rightarrow> string) \<Rightarrow> platform \<Rightarrow> manifest \<Rightarrow> manifest \<Rightarrow> string list \<Rightarrow>
    change_error + manifest" where
  "AcceptedSourceContext sha marshal sha256hex os base current applied =
     bind_res (workspaceDelta sha marshal sha256hex os base current (- 1)) (\<lambda>b. acceptSourceDelta os base b applied)"

definition SourceManifest ::
  "(string \<Rightarrow> string) \<Rightarrow> (string \<Rightarrow> string) \<Rightarrow> (string \<Rightarrow> string) \<Rightarrow> platform \<Rightarrow> manifest \<Rightarrow> change_bundle \<Rightarrow>
    change_error + manifest" where
  "SourceManifest marshal sha256hex lower os initial b =
     (if BaselineRoot b \<noteq> RootHash marshal sha256hex initial then Inl CheckpointChanged
      else
        bind_res (ValidateBundleContext lower os b) (\<lambda>_.
          acceptedSourceManifestContext os initial b (all_accepted (Paths b))))"

subsection \<open>Deltas received from the other side\<close>

definition expandSourceSnapshot ::
  "(bytes \<Rightarrow> bytes) \<Rightarrow> (string \<Rightarrow> string) \<Rightarrow> (string \<Rightarrow> string) \<Rightarrow> (change_bundle \<Rightarrow> string) \<Rightarrow> (string \<Rightarrow> string) \<Rightarrow>
    platform \<Rightarrow> manifest \<Rightarrow> change_bundle \<Rightarrow> string \<Rightarrow> int \<Rightarrow> change_error + snapshot" where
  "expandSourceSnapshot sha marshal sha256hex digest lower os base delta root maxBytes =
     bind_res (ValidateBundleContext lower os delta) (\<lambda>_.
       if maxBytes \<ge> 0 \<and> change_bundle.Bytes delta > maxBytes then Inl ByteLimitExceeded
       else
         bind_res (lift_snapshot (New os base)) (\<lambda>before.
           let baselineRoot = RootHash marshal sha256hex base
           in if baselineRoot \<noteq> BaselineRoot delta then Inl CheckpointChanged
              else
                bind_res (acceptedSourceSnapshotContext os base delta (all_accepted (Paths delta))) (\<lambda>state0.
                  case Snapshot_RootHash marshal sha256hex state0 of
                    (sourceRoot, state1) \<Rightarrow>
                      if sourceRoot \<noteq> root then Inl SourceNotReconstructed
                      else
                        case selectSnapshotDelta sha before state1 maxBytes of
                          (r, _, state) \<Rightarrow>
                            bind_res r (\<lambda>expected.
                              if digest (expected\<lparr>BaselineRoot := baselineRoot\<rparr>) \<noteq> digest delta then Inl SourceDeltaDiffers
                              else Inr state))))"

subsection \<open>Retained snapshots\<close>

definition collect :: "change_bundle \<Rightarrow> string \<Rightarrow> snapshot \<Rightarrow> manifest_entry list" where
  "collect delta name s =
     (if bundleHasMetadataPath delta name then (case Lookup s name of Some e \<Rightarrow> [e] | None \<Rightarrow> [])
      else Subtree s name (\<lambda>es e. (es @ [e], True)) [])"

text \<open>The map \<open>edits\<close> from path to edit.\<close>

definition put_edits :: "bool \<Rightarrow> manifest_entry list \<Rightarrow> (string \<times> edit) list \<Rightarrow> (string \<times> edit) list" where
  "put_edits gone es edits =
     fold (\<lambda>e eds. (Path e, \<lparr>Entry = e, Delete = gone\<rparr>) # filter (\<lambda>x. fst x \<noteq> Path e) eds) es edits"

fun collect_edits ::
  "change_bundle \<Rightarrow> string list \<Rightarrow> snapshot \<Rightarrow> snapshot \<Rightarrow> snapshot \<Rightarrow> string list \<Rightarrow> (string \<times> edit) list \<Rightarrow>
    change_error + (string \<times> edit) list" where
  "collect_edits delta selected base before after [] edits = Inr edits"
| "collect_edits delta selected base before after (name # names) edits =
     (let actual = collect delta name base
      in if actual \<noteq> collect delta name before then Inl (MergeBaseMismatch name)
         else collect_edits delta selected base before after names
                (if name \<notin> set selected then edits
                 else put_edits False (collect delta name after) (put_edits True actual edits)))"

definition AcceptedSnapshotDelta ::
  "(bytes \<Rightarrow> bytes) \<Rightarrow> (string \<Rightarrow> string) \<Rightarrow> (string \<Rightarrow> string) \<Rightarrow> (string \<Rightarrow> string) \<Rightarrow> platform \<Rightarrow> nat \<Rightarrow> snapshot \<Rightarrow>
    change_bundle \<Rightarrow> string list \<Rightarrow> (change_error + snapshot) \<times> snapshot" where
  "AcceptedSnapshotDelta sha marshal sha256hex lower os gomaxprocs base0 delta applied =
     (case ValidateBundleContext lower os delta of
        Inl e \<Rightarrow> (Inl e, base0)
      | Inr _ \<Rightarrow>
          (case Snapshot_RootHash marshal sha256hex base0 of
             (root, base) \<Rightarrow>
               if root \<noteq> BaselineRoot delta then (Inl CheckpointChanged, base)
               else
                 case bind_res (lift_snapshot (New os (BaseManifest delta))) (\<lambda>before.
                      bind_res (lift_snapshot (New os (RemoteManifest delta))) (\<lambda>after.
                      bind_res (each_ok (\<lambda>p. check_that (is_root (Paths delta) p) UnknownSourceChange) applied) (\<lambda>_.
                        collect_edits delta applied base before after (Paths delta) []))) of
                   Inl e \<Rightarrow> (Inl e, base)
                 | Inr edits \<Rightarrow>
                     (case Update sha os gomaxprocs (map snd edits) base of
                        (r, base') \<Rightarrow> (lift_snapshot r, base'))))"

record snapshotDelta =
  delta_base :: snapshot
  delta_current :: snapshot
  delta_bundle :: change_bundle

definition PrepareSnapshotDelta ::
  "(bytes \<Rightarrow> bytes) \<Rightarrow> (string \<Rightarrow> string) \<Rightarrow> (string \<Rightarrow> string) \<Rightarrow> snapshot \<Rightarrow> snapshot \<Rightarrow> int \<Rightarrow> change_error + snapshotDelta" where
  "PrepareSnapshotDelta sha marshal sha256hex base current maxBytes =
     bind_res (workspaceSnapshotDelta sha marshal sha256hex base current maxBytes) (\<lambda>bundle.
       Inr \<lparr>delta_base = base, delta_current = current, delta_bundle = bundle\<rparr>)"

definition Accepted ::
  "(bytes \<Rightarrow> bytes) \<Rightarrow> (string \<Rightarrow> string) \<Rightarrow> (string \<Rightarrow> string) \<Rightarrow> (string \<Rightarrow> string) \<Rightarrow> platform \<Rightarrow> nat \<Rightarrow> snapshotDelta \<Rightarrow>
    string list \<Rightarrow> change_error + snapshot" where
  "Accepted sha marshal sha256hex lower os gomaxprocs d applied =
     (if applied = Paths (delta_bundle d) then
        if Paths (delta_bundle d) = [] then Inr (delta_base d)
        else if Len (delta_current d) = 0 then lift_snapshot (New os \<lparr>Entries = None\<rparr>)
        else Inr (delta_current d)
      else fst (AcceptedSnapshotDelta sha marshal sha256hex lower os gomaxprocs (delta_base d) (delta_bundle d) applied))"

subsection \<open>The merge of two sorted manifests\<close>

lemma merge_entries_set:
  "set (merge_entries repl xs ys) = {e \<in> set xs. \<not> repl (Path e)} \<union> {e \<in> set ys. repl (Path e)}"
  by (induction repl xs ys rule: merge_entries.induct) auto

lemma merge_entries_sorted: "path_sorted xs \<Longrightarrow> path_sorted ys \<Longrightarrow> path_sorted (merge_entries repl xs ys)"
proof (induction repl xs ys rule: merge_entries.induct)
  case (4 repl x xs y ys)
  have "Path x < Path e" if "Path x \<le> Path y" "\<not> repl (Path x)" "e \<in> set (merge_entries repl xs (y # ys))" for e
    using 4 that by (auto simp: merge_entries_set order_le_less)
  moreover have "Path y < Path e" if "\<not> Path x \<le> Path y" "e \<in> set (merge_entries repl (x # xs) ys)" for e
    using 4 that by (auto simp: merge_entries_set not_le)
  ultimately show ?case using 4 by auto
qed (auto simp: merge_entries_set)

lemma entry_at_eqI:
  assumes "path_sorted xs" "\<And>e. Path e = p \<Longrightarrow> e \<in> set xs \<longleftrightarrow> r = Some e" "\<And>e. r = Some e \<Longrightarrow> Path e = p"
  shows "entry_at xs p = r"
proof (cases r)
  case None
  then have "\<forall>e \<in> set xs. Path e \<noteq> p" using assms(2) by blast
  then show ?thesis using None by (simp add: find_None_iff)
next
  case (Some e)
  then show ?thesis using assms sorted_find [OF assms(1)] by blast
qed

lemma merge_entries_at:
  assumes "path_sorted xs" "path_sorted ys"
  shows "entry_at (merge_entries repl xs ys) p = (if repl p then entry_at ys p else entry_at xs p)"
proof (rule entry_at_eqI [OF merge_entries_sorted [OF assms]])
  show "e \<in> set (merge_entries repl xs ys) \<longleftrightarrow> (if repl p then entry_at ys p else entry_at xs p) = Some e" if "Path e = p" for e
    using that sorted_find [OF assms(1), of p e] sorted_find [OF assms(2), of p e] by (auto simp: merge_entries_set)
  show "Path e = p" if "(if repl p then entry_at ys p else entry_at xs p) = Some e" for e
    using that sorted_find [OF assms(1), of p e] sorted_find [OF assms(2), of p e] by (simp split: if_splits)
qed

lemma sorted_by_lookup: "path_sorted xs \<Longrightarrow> map (\<lambda>p. the (entry_at xs p)) (map Path xs) = xs"
proof -
  assume s: "path_sorted xs"
  have "entry_at xs (Path e) = Some e" if "e \<in> set xs" for e using that sorted_find [OF s] by blast
  then show ?thesis by (simp add: map_idI)
qed

lemma sorted_lookup_ext:
  assumes "path_sorted xs" "path_sorted ys" "\<And>p. entry_at xs p = entry_at ys p"
  shows "xs = ys"
proof -
  have "e \<in> set xs \<longleftrightarrow> e \<in> set ys" for e
    using assms(3) [of "Path e"] sorted_find [OF assms(1), of "Path e" e] sorted_find [OF assms(2), of "Path e" e] by simp
  then have "set (map Path xs) = set (map Path ys)" by auto
  then have "map Path xs = map Path ys" using assms(1,2) by (metis strict_sorted_equal)
  then have "map (\<lambda>p. the (entry_at xs p)) (map Path xs) = map (\<lambda>p. the (entry_at ys p)) (map Path ys)"
    unfolding assms(3) by (rule arg_cong)
  then show ?thesis unfolding sorted_by_lookup [OF assms(1)] sorted_by_lookup [OF assms(2)] .
qed

subsection \<open>What an outcome accepts\<close>

text \<open>The reference for \<open>replaced\<close>: some root that was installed covers the path, and no conflict
  is at the path or, unless it concerns only the metadata of a directory, above it.\<close>

definition accepts :: "change_bundle \<Rightarrow> transferOutcome \<Rightarrow> string \<Rightarrow> bool" where
  "accepts b ot p \<longleftrightarrow>
     (\<exists>r \<in> fst ` set (States ot). if r \<in> set (MetadataPaths b) then p = r else at_or_below r p) \<and>
     \<not> (\<exists>c \<in> set (Conflicts ot). p = c \<or> (prefix (c @ ''/'') p \<and> c \<notin> set (MetadataPaths b)))"

lemma replaced_loop_iff:
  "replaced_loop b conflicts content name acc cs \<longleftrightarrow>
     (acc \<or> (\<exists>c \<in> set cs. c \<in> set content)) \<and>
     \<not> (\<exists>c \<in> set cs. c \<in> set conflicts \<and> (c = name \<or> \<not> bundleHasMetadataPath b c))"
  by (induction cs arbitrary: acc) auto

lemma replaced_path_iff:
  assumes "sorted_wrt (<) (MetadataPaths b)" "rel_path p" "\<forall>r \<in> fst ` set (States ot). rel_path r"
    and "\<forall>c \<in> set (Conflicts ot). rel_path c"
  shows "replaced_path b ot p \<longleftrightarrow> accepts b ot p"
proof -
  have "p \<noteq> ''.''" using assms(2) by (simp add: rel_path_def)
  moreover have md: "bundleHasMetadataPath b c \<longleftrightarrow> c \<in> set (MetadataPaths b)" for c
    by (simp add: bundleHasMetadataPath_def is_root_member [OF assms(1)])
  moreover have up: "c \<in> set (p # parent_dirs p) \<longleftrightarrow> at_or_below c p" if "rel_path c" for c
    using that in_parent_dirs_iff [OF assms(2)] by auto
  ultimately have "replaced_path b ot p \<longleftrightarrow>
      (p \<in> fst ` set (States ot) \<and> p \<in> set (MetadataPaths b) \<or>
        (\<exists>c \<in> set (p # parent_dirs p). c \<in> fst ` set (States ot) \<and> c \<notin> set (MetadataPaths b))) \<and>
      \<not> (\<exists>c \<in> set (p # parent_dirs p). c \<in> set (Conflicts ot) \<and> (c = p \<or> c \<notin> set (MetadataPaths b)))"
    by (simp add: replaced_path_def Let_def replaced_loop_iff del: set_simps list.set)
  also have "(\<exists>c \<in> set (p # parent_dirs p). c \<in> fst ` set (States ot) \<and> c \<notin> set (MetadataPaths b)) \<longleftrightarrow>
      (\<exists>r \<in> fst ` set (States ot). r \<notin> set (MetadataPaths b) \<and> at_or_below r p)"
    using up assms(3) by blast
  also have "(\<exists>c \<in> set (p # parent_dirs p). c \<in> set (Conflicts ot) \<and> (c = p \<or> c \<notin> set (MetadataPaths b))) \<longleftrightarrow>
      (\<exists>c \<in> set (Conflicts ot). p = c \<or> (prefix (c @ ''/'') p \<and> c \<notin> set (MetadataPaths b)))"
    using up assms(4) by blast
  finally show ?thesis unfolding accepts_def by auto
qed

lemma rel_not_below_dot: "rel_path r \<Longrightarrow> \<not> prefix ''./'' r"
proof
  assume r: "rel_path r" "prefix ''./'' r"
  then obtain s where "r = ''.'' @ slash # s" by (auto elim: prefixE)
  then have "''.'' \<in> set (split_on slash r)" using split_on_append [of slash "''.''" s] by simp
  then show False using rel_path_elems [OF r(1)] by (auto simp: plain_elem_def)
qed

lemma declared_rel:
  assumes "entry_ok os e" "declared roots e" "\<forall>r \<in> roots. rel_path r"
  shows "rel_path (Path e)"
proof -
  have "Path e \<noteq> ''.''"
  proof
    assume dot: "Path e = ''.''"
    have "\<not> at_or_below r ''.''" if "r \<in> roots" for r using that assms(3) by (cases r) (auto simp: rel_path_def)
    moreover have "\<not> prefix ''./'' r" if "r \<in> roots" for r using that assms(3) rel_not_below_dot by blast
    ultimately show False using assms(2) dot by (auto simp: declared_def)
  qed
  then show ?thesis using entry_rel_or_dot [OF assms(1)] by blast
qed

lemma bundle_ok_parts:
  assumes "bundle_ok lower os b"
  shows "sorted_wrt (<) (Paths b)" "sorted_wrt (<) (MetadataPaths b)" "set (MetadataPaths b) \<subseteq> set (Paths b)"
    "\<forall>r \<in> set (Paths b). rel_path r"
    "path_sorted (slice (Entries (BaseManifest b)))" "path_sorted (slice (Entries (RemoteManifest b)))"
    "\<forall>e \<in> set (slice (Entries (RemoteManifest b))). rel_path (Path e)"
    "\<forall>e \<in> set (slice (Entries (BaseManifest b))). rel_path (Path e)"
proof -
  have r: "roots_ok lower (set (MetadataPaths b)) (Paths b)" using assms by (simp add: bundle_ok_def)
  then show "sorted_wrt (<) (Paths b)" and rel: "\<forall>r \<in> set (Paths b). rel_path r" using roots_ok_sorted by blast+
  show "sorted_wrt (<) (MetadataPaths b)" "set (MetadataPaths b) \<subseteq> set (Paths b)" using assms by (simp_all add: bundle_ok_def)
  have m: "bundle_manifest_ok lower os (set (Paths b)) (slice (Entries (BaseManifest b)))"
    "bundle_manifest_ok lower os (set (Paths b)) (slice (Entries (RemoteManifest b)))"
    using assms by (simp_all add: bundle_ok_def)
  show "path_sorted (slice (Entries (BaseManifest b)))" "path_sorted (slice (Entries (RemoteManifest b)))"
    using m by (simp_all add: bundle_manifest_ok_def)
  have "\<forall>e \<in> set es. rel_path (Path e)" if "bundle_manifest_ok lower os (set (Paths b)) es" for es
    using that declared_rel [OF _ _ rel] by (auto simp: bundle_manifest_ok_def manifest_ok_def)
  with m show "\<forall>e \<in> set (slice (Entries (RemoteManifest b))). rel_path (Path e)"
    "\<forall>e \<in> set (slice (Entries (BaseManifest b))). rel_path (Path e)" by blast+
qed

lemma inventory_rel_paths: "inventory_ok os es \<Longrightarrow> e \<in> set es \<Longrightarrow> rel_path (Path e)"
proof -
  assume es: "inventory_ok os es" "e \<in> set es"
  then have "entry_ok os e" "''.'' \<notin> Path ` set es" by (simp_all add: inventory_ok_def manifest_ok_def)
  with es(2) show ?thesis by (metis entry_rel_path image_eqI)
qed

lemma merge_entries_cong:
  "(\<And>p. p \<in> Path ` (set xs \<union> set ys) \<Longrightarrow> f p = g p) \<Longrightarrow> merge_entries f xs ys = merge_entries g xs ys"
  by (induction f xs ys rule: merge_entries.induct) auto

text \<open>The shape of a successful merge.\<close>

lemma mergeAccepted_Inr:
  assumes "inventory_ok os (slice (Entries base))" "bundle_ok lower os b"
    and "\<forall>r \<in> fst ` set (States ot). rel_path r" "\<forall>c \<in> set (Conflicts ot). rel_path c"
    and "mergeAcceptedSourceContext base b ot = Inr m"
  shows "slice (Entries m) =
    merge_entries (\<lambda>p. \<not> Refused ot \<and> accepts b ot p) (slice (Entries base)) (slice (Entries (RemoteManifest b)))"
proof -
  let ?base = "slice (Entries base)" and ?remote = "slice (Entries (RemoteManifest b))"
  note parts = bundle_ok_parts [OF assms(2)]
  have rel: "rel_path p" if "p \<in> Path ` (set ?base \<union> set ?remote)" for p
    using that inventory_rel_paths [OF assms(1)] parts(7) by auto
  show ?thesis
  proof (cases "Refused ot \<or> States ot = []")
    case True
    then have "m = base" using assms(5) by (auto simp: mergeAcceptedSourceContext_def bind_res_Inr_iff)
    moreover have "merge_entries (\<lambda>p. False) ?base ?remote = ?base"
    proof (rule sorted_lookup_ext)
      show s: "path_sorted ?base" using assms(1) by (simp add: inventory_ok_def)
      then show "path_sorted (merge_entries (\<lambda>p. False) ?base ?remote)" using merge_entries_sorted parts(6) by blast
      show "entry_at (merge_entries (\<lambda>p. False) ?base ?remote) p = entry_at ?base p" for p
        using merge_entries_at [OF s parts(6)] by simp
    qed
    moreover have "(\<lambda>p. \<not> Refused ot \<and> accepts b ot p) = (\<lambda>p. False)" using True by (auto simp: accepts_def)
    ultimately show ?thesis by simp
  next
    case False
    then have "slice (Entries m) = merge_entries (replaced_path b ot) ?base ?remote"
      using assms(5) by (auto simp: mergeAcceptedSourceContext_def bind_res_Inr_iff Let_def split: if_splits)
    also have "\<dots> = merge_entries (\<lambda>p. \<not> Refused ot \<and> accepts b ot p) ?base ?remote"
      using False replaced_path_iff [OF parts(2) _ assms(3,4)] rel by (intro merge_entries_cong) simp
    finally show ?thesis .
  qed
qed

subsection \<open>Accepting a whole delta\<close>

lemma filter_at:
  assumes "path_sorted es"
  shows "entry_at (filter (\<lambda>e. P (Path e)) es) p = (if P p then entry_at es p else None)"
proof (rule entry_at_eqI)
  show "path_sorted (filter (\<lambda>e. P (Path e)) es)" using assms by (induction es) auto
qed (use sorted_find [OF assms] in \<open>auto split: if_splits\<close>)

lemma filter_sorted: "path_sorted es \<Longrightarrow> path_sorted (filter P es)"
  by (induction es) auto

lemma all_accepted_sel [simp]:
  "fst ` set (States (all_accepted ps)) = set ps" "Conflicts (all_accepted ps) = []" "Refused (all_accepted ps) = False"
  "States (all_accepted ps) = [] \<longleftrightarrow> ps = []"
  by (simp_all add: all_accepted_def image_image)

lemma accepts_all:
  assumes "set (MetadataPaths b) \<subseteq> set (Paths b)"
  shows "accepts b (all_accepted (Paths b)) p \<longleftrightarrow> carried b p"
  using assms by (auto simp: accepts_def carried_def)

lemma mergeBases_ok:
  assumes "bundle_ok lower os b" "path_sorted (slice (Entries base))"
    and "\<And>p. carried b p \<Longrightarrow> entry_at (slice (Entries base)) p = entry_at (slice (Entries (BaseManifest b))) p"
  shows "validateSourceMergeBases base b = Inr ()"
proof -
  note parts = bundle_ok_parts [OF assms(1)]
  have md: "bundleHasMetadataPath b r \<longleftrightarrow> r \<in> set (MetadataPaths b)" for r
    by (simp add: bundleHasMetadataPath_def is_root_member [OF parts(2)])
  have same: "filter (\<lambda>e. P (Path e)) (slice (Entries base)) = filter (\<lambda>e. P (Path e)) (slice (Entries (BaseManifest b)))"
    if "\<And>p. P p \<Longrightarrow> carried b p" for P
  proof (rule sorted_lookup_ext)
    show "entry_at (filter (\<lambda>e. P (Path e)) (slice (Entries base))) p =
        entry_at (filter (\<lambda>e. P (Path e)) (slice (Entries (BaseManifest b)))) p" for p
      unfolding filter_at [OF assms(2)] filter_at [OF parts(5)] using that assms(3) by simp
  qed (rule filter_sorted [OF assms(2)] filter_sorted [OF parts(5)])+
  have "filter (\<lambda>e. Path e = r) (slice (Entries base)) = filter (\<lambda>e. Path e = r) (slice (Entries (BaseManifest b)))"
    if "r \<in> set (MetadataPaths b)" for r
    using same [of "\<lambda>p. p = r"] that by (simp add: carried_def)
  moreover have "filter (\<lambda>e. at_or_below r (Path e)) (slice (Entries base)) =
      filter (\<lambda>e. at_or_below r (Path e)) (slice (Entries (BaseManifest b)))"
    if "r \<in> set (Paths b)" "r \<notin> set (MetadataPaths b)" for r
    using same [of "at_or_below r"] that by (auto simp: carried_def)
  ultimately have "is_ok (validateSourceMergeBases base b)"
    unfolding validateSourceMergeBases_def
    by (simp add: Let_def md exactManifestEntry_filter [OF assms(2)] exactManifestEntry_filter [OF parts(5)]
        subtreeManifest_filter [OF assms(2)] subtreeManifest_filter [OF parts(5)])
  then show ?thesis by (simp add: is_ok_unit)
qed

lemma New_materialized: "New os m = Inr s \<Longrightarrow> materialized s = (m, s) \<and> wireRoot s = ''''"
  by (cases m; cases "Entries m") (auto simp: New_ok empty_snapshot_def materialized_def readyView_def)

lemma Diff_fresh:
  assumes "New os m = Inr s" "Diff sha s t = (eds, s', t')"
  shows "s' = s"
proof -
  obtain x t2 where "(case entries t of Some es \<Rightarrow> (\<lparr>Entries = Some es\<rparr>, t) | None \<Rightarrow> materialized t) = (x, t2)" by fastforce
  then show ?thesis using assms New_materialized [OF assms(1)]
    by (auto simp: Diff_def Let_def split: if_splits option.splits)
qed

lemma selectSnapshotDelta_states:
  assumes "selectSnapshotDelta sha s t maxBytes = (r, s', t')"
  obtains eds where "Diff sha s t = (eds, s', t')"
  using assms by (auto simp: selectSnapshotDelta_def Let_def split: prod.splits)

lemma workspaceDelta_Inr:
  assumes "workspaceDelta sha marshal sha256hex os base current maxBytes = Inr b"
  obtains s t b0 t' where "New os base = Inr s" "New os current = Inr t"
    "selectSnapshotDelta sha s t maxBytes = (Inr b0, s, t')" "b = b0\<lparr>BaselineRoot := RootHash marshal sha256hex base\<rparr>"
proof -
  obtain s t where st: "New os base = Inr s" "New os current = Inr t"
    "workspaceSnapshotDelta sha marshal sha256hex s t maxBytes = Inr b"
    using assms by (auto simp: workspaceDelta_def bind_res_Inr_iff lift_snapshot_def split: sum.splits)
  obtain r s' t' where d: "selectSnapshotDelta sha s t maxBytes = (r, s', t')" by (metis prod_cases3)
  then obtain eds where "Diff sha s t = (eds, s', t')" using selectSnapshotDelta_states by blast
  then have s': "s' = s" using Diff_fresh [OF st(1)] by blast
  obtain b0 where b0: "r = Inr b0" "b = b0\<lparr>BaselineRoot := fst (Snapshot_RootHash marshal sha256hex s)\<rparr>"
    using st(3) d s' by (auto simp: workspaceSnapshotDelta_def bind_res_Inr_iff)
  moreover have "fst (Snapshot_RootHash marshal sha256hex s) = RootHash marshal sha256hex base"
    using New_materialized [OF st(1)] by (simp add: Snapshot_RootHash_def Let_def)
  ultimately show ?thesis using that st d s' by auto
qed

lemma carried_baseline [simp]: "carried (b\<lparr>BaselineRoot := h\<rparr>) p \<longleftrightarrow> carried b p"
  by (simp add: carried_def)

lemma accept_whole_delta:
  assumes "workspaceDelta sha marshal sha256hex os base current maxBytes = Inr b" "bundle_ok lower os b"
    and "collision_free sha (set (slice (Entries base)) \<union> set (slice (Entries current)))"
  obtains m where "mergeAcceptedSourceContext base b (all_accepted (Paths b)) = Inr m"
    "slice (Entries m) = slice (Entries current)" "slice (Entries current) \<noteq> [] \<Longrightarrow> m = current"
proof -
  obtain s t b0 t' where d: "New os base = Inr s" "New os current = Inr t"
    "selectSnapshotDelta sha s t maxBytes = (Inr b0, s, t')" "b = b0\<lparr>BaselineRoot := RootHash marshal sha256hex base\<rparr>"
    using workspaceDelta_Inr [OF assms(1)] .
  have ok: "snap_ok sha os s" "contents s = slice (Entries base)" "snap_ok sha os t" "contents t = slice (Entries current)"
    using New_snap_ok [OF d(1)] New_snap_ok [OF d(2)] by simp_all
  have inv: "inventory_ok os (slice (Entries base))" using ok by (simp add: snap_ok_def)
  note parts = bundle_ok_parts [OF assms(2)]
  have so: "path_sorted (slice (Entries base))" "path_sorted (slice (Entries current))"
    using snap_sorted [OF ok(1)] snap_sorted [OF ok(3)] ok(2,4) by simp_all
  have cf: "collision_free sha (set (contents s) \<union> set (contents t))" using assms(3) by (simp add: ok)
  note sides = delta_sides [OF ok(1,3) cf d(3), unfolded ok(2,4)]
  have "validateSourceMergeBases base b = Inr ()"
    by (rule mergeBases_ok [OF assms(2) so(1)]) (use sides(1) d(4) in simp)
  then have "is_ok (mergeAcceptedSourceContext base b (all_accepted (Paths b)))"
    by (simp add: mergeAcceptedSourceContext_def Let_def)
  then obtain m where m: "mergeAcceptedSourceContext base b (all_accepted (Paths b)) = Inr m"
    by (auto simp: is_ok_iff)
  have sl: "slice (Entries m) = merge_entries (carried b) (slice (Entries base)) (slice (Entries (RemoteManifest b)))"
    using mergeAccepted_Inr [OF inv assms(2) _ _ m] parts(4)
    by (simp add: accepts_all [OF parts(3)])
  have same: "slice (Entries m) = slice (Entries current)"
  proof (rule sorted_lookup_ext [OF _ so(2)])
    show "path_sorted (slice (Entries m))" unfolding sl by (rule merge_entries_sorted [OF so(1) parts(6)])
    show "entry_at (slice (Entries m)) p = entry_at (slice (Entries current)) p" for p
      unfolding sl merge_entries_at [OF so(1) parts(6)] using sides [of p] d(4) by simp
  qed
  have "m = current" if "slice (Entries current) \<noteq> []"
    using that same by (cases m; cases current; cases "Entries m"; cases "Entries current") auto
  with m same show ?thesis using that by blast
qed

lemma validateSourcePath_ok: "is_ok (validateSourcePath p) \<longleftrightarrow> rel_path p \<and> nul \<notin> set p \<and> path_allowed p"
  by (auto simp: validateSourcePath_def validatePath_ok path_allowed_def simp del: is_ok_bind)

lemma checkpoint_ok:
  "is_ok (validateCheckpointManifestContext os m) \<longleftrightarrow>
     path_sorted (slice (Entries m)) \<and> manifest_ok os (slice (Entries m)) \<and>
     (\<forall>e \<in> set (slice (Entries m)). is_ok (validateSourcePath (Path e)))"
proof -
  have "is_ok (case ValidateSortedContext os None m of Inl e \<Rightarrow> Inl (ArchiveInvalid e) | Inr u \<Rightarrow> Inr u) \<longleftrightarrow>
      path_sorted (slice (Entries m)) \<and> manifest_ok os (slice (Entries m))"
    using ValidateSorted_manifest_ok [of os m] by (cases "ValidateSortedContext os None m") simp_all
  then show ?thesis by (simp add: validateCheckpointManifestContext_def del: is_ok_bind)
qed

lemma walk_check:
  "walk_list (\<lambda>_ e. case validateSourcePath (Path e) of Inl err \<Rightarrow> (Some err, False) | Inr _ \<Rightarrow> (None, True)) None es = (None, True)"
  if "\<forall>e \<in> set es. is_ok (validateSourcePath (Path e))"
  using that by (induction es) (auto simp: is_ok_iff)

lemma newSourceSnapshot_ok:
  assumes "New os m = Inr s" "is_ok (validateCheckpointManifestContext os m)"
  shows "newSourceSnapshot os m = Inr s"
proof -
  have "\<forall>e \<in> set (slice (Entries m)). is_ok (validateSourcePath (Path e))" using assms(2) by (simp add: checkpoint_ok)
  note w = walk_check [OF this]
  have "entries s = Entries m" "index s = Leaf" using assms(1) by (auto simp: New_ok empty_snapshot_def)
  then have "Walk s (\<lambda>_ e. case validateSourcePath (Path e) of Inl err \<Rightarrow> (Some err, False) | Inr _ \<Rightarrow> (None, True)) None = None"
    using w by (cases "Entries m") (simp_all add: Walk_def)
  then show ?thesis using assms(1) by (simp add: newSourceSnapshot_def lift_snapshot_def)
qed

lemma delta_bytes:
  assumes "snap_ok sha os s" "snap_ok sha os t" "collision_free sha (set (contents s) \<union> set (contents t))"
    and "selectSnapshotDelta sha s t maxBytes = (Inr b, s', t')" "0 \<le> maxBytes" "maxBytes \<le> MaxInt64"
  shows "change_bundle.Bytes b \<le> maxBytes"
proof -
  obtain eds where D: "Diff sha s t = (eds, s', t')" using selectSnapshotDelta_states [OF assms(4)] .
  note spec = Diff_spec [OF assms(1-3) D]
  let ?sel = "\<lambda>u. fold (select_root (metadata_only s' t') u) (Paths b) []"
  obtain m n m' where m: "selectedManifest (?sel s') maxBytes 0 = Inr (m, n)"
    "selectedManifest (?sel t') maxBytes n = Inr (m', change_bundle.Bytes b)"
    using assms(4) D by (auto simp: selectSnapshotDelta_def Let_def bind_res_Inr_iff split: if_splits)
  have sizes: "\<forall>e \<in> set (map snd (sort_key fst (?sel u))). 0 \<le> Size e" if "snap_ok sha os u" for u
  proof -
    have ok: "entry_ok os e" if "e \<in> set (contents u)" for e
      using \<open>snap_ok sha os u\<close> that by (simp add: snap_ok_def inventory_ok_def manifest_ok_def)
    have "selects (contents u) (?sel u)" by (rule fold_select(1) [OF snap_walkable [OF that]])
    then show ?thesis using entry_size ok by (fastforce simp: selects_def)
  qed
  have u: "add_selected maxBytes 0 (map snd (sort_key fst (?sel s'))) = Inr n"
    "add_selected maxBytes n (map snd (sort_key fst (?sel t'))) = Inr (change_bundle.Bytes b)"
    using m by (auto simp: selectedManifest_def Let_def bind_res_Inr_iff)
  have "0 \<le> n \<and> n \<le> maxBytes" by (rule add_selected_limit [OF u(1) _ assms(5,6)]) (use sizes spec in auto)
  then show ?thesis using add_selected_limit [OF u(2) _ _ assms(6)] sizes [of t'] spec by simp
qed

lemma expand_whole_delta:
  assumes "workspaceDelta sha marshal sha256hex os base current maxBytes = Inr b" "is_ok (ValidateBundleContext lower os b)"
    and "is_ok (validateCheckpointManifestContext os current)" "slice (Entries current) \<noteq> []" "maxBytes \<le> MaxInt64"
    and "collision_free sha (set (slice (Entries base)) \<union> set (slice (Entries current)))"
  shows "\<exists>state. expandSourceSnapshot sha marshal sha256hex digest lower os base b (RootHash marshal sha256hex current) maxBytes =
      Inr state \<and> snap_ok sha os state \<and> contents state = slice (Entries current)"
proof -
  have b: "bundle_ok lower os b" using assms(2) by (simp add: ValidateBundle_spec)
  obtain s t b0 t' where d: "New os base = Inr s" "New os current = Inr t"
    "selectSnapshotDelta sha s t maxBytes = (Inr b0, s, t')" "b = b0\<lparr>BaselineRoot := RootHash marshal sha256hex base\<rparr>"
    using workspaceDelta_Inr [OF assms(1)] .
  have ok: "snap_ok sha os s" "contents s = slice (Entries base)" "snap_ok sha os t" "contents t = slice (Entries current)"
    using New_snap_ok [OF d(1)] New_snap_ok [OF d(2)] by simp_all
  have cf: "collision_free sha (set (contents s) \<union> set (contents t))" using assms(6) by (simp add: ok)
  have acc: "acceptedSourceSnapshotContext os base b (all_accepted (Paths b)) = Inr t"
  proof (rule accept_whole_delta [OF assms(1) b assms(6)])
    fix m
    assume m: "mergeAcceptedSourceContext base b (all_accepted (Paths b)) = Inr m"
      "slice (Entries current) \<noteq> [] \<Longrightarrow> m = current"
    have "m = current" by (rule m(2) [OF assms(4)])
    then show ?thesis using m(1) newSourceSnapshot_ok [OF d(2) assms(3)] by (simp add: acceptedSourceSnapshotContext_def)
  qed
  let ?t1 = "t\<lparr>wireRoot := RootHash marshal sha256hex current\<rparr>"
  have hash: "Snapshot_RootHash marshal sha256hex t = (RootHash marshal sha256hex current, ?t1)"
    using New_materialized [OF d(2)] by (simp add: Snapshot_RootHash_def Let_def)
  have t1: "snap_ok sha os ?t1" "contents ?t1 = contents t" using snap_ok_caches(3) [OF ok(3)] by simp_all
  obtain r s2 t2 where e: "selectSnapshotDelta sha s ?t1 maxBytes = (r, s2, t2)" by (metis prod_cases3)
  have "r = Inr b0" using select_delta_cong [OF ok(1,3) t1(1) t1(2) [symmetric] cf, of maxBytes] d(3) e by simp
  moreover obtain eds where D: "Diff sha s ?t1 = (eds, s2, t2)" using selectSnapshotDelta_states [OF e] .
  have "snap_ok sha os t2 \<and> contents t2 = contents t" using Diff_spec [OF ok(1) t1(1) _ D] cf t1(2) by simp
  moreover have "\<not> (maxBytes \<ge> 0 \<and> change_bundle.Bytes b > maxBytes)"
    using delta_bytes [OF ok(1,3) cf d(3) _ assms(5)] d(4) by auto
  moreover have "ValidateBundleContext lower os b = Inr ()" using assms(2) by (simp add: is_ok_unit)
  moreover have "BaselineRoot b = RootHash marshal sha256hex base" using d(4) by simp
  ultimately show ?thesis
    unfolding expandSourceSnapshot_def using d(1,4) acc hash e ok(4) by (simp add: lift_snapshot_def Let_def)
qed

subsection \<open>Accepting in a retained snapshot\<close>

abbreviation covers :: "change_bundle \<Rightarrow> string \<Rightarrow> string \<Rightarrow> bool" where
  "covers b r p \<equiv> (if r \<in> set (MetadataPaths b) then p = r else at_or_below r p)"

lemma collect_side:
  assumes "walkable sha s" "path_sorted (contents s)" "sorted_wrt (<) (MetadataPaths b)"
  shows "collect b r s = filter (\<lambda>e. covers b r (Path e)) (contents s)"
proof (cases "r \<in> set (MetadataPaths b)")
  case True
  have "filter (\<lambda>e. Path e = r) (contents s) = (case entry_at (contents s) r of None \<Rightarrow> [] | Some e \<Rightarrow> [e])"
    using exactManifestEntry_filter [OF assms(2), of r] exactManifestEntry_eq [OF assms(2), of r] by simp
  then show ?thesis
    using True snap.lookup_law [OF assms(1), of r] is_root_member [OF assms(3)]
    by (simp add: collect_def bundleHasMetadataPath_def split: option.split)
next
  case False
  then show ?thesis
    using is_root_member [OF assms(3)] by (simp add: collect_def bundleHasMetadataPath_def Subtree_walk [OF assms(1)] walk_collect)
qed

lemma map_of_filter_other: "k \<noteq> p \<Longrightarrow> map_of (filter (\<lambda>x. fst x \<noteq> k) xs) p = map_of xs p"
  by (induction xs) auto

lemma put_edits_at:
  assumes "distinct (map Path es)"
  shows "map_of (put_edits g es eds) p =
    (case entry_at es p of Some e \<Rightarrow> Some \<lparr>Entry = e, Delete = g\<rparr> | None \<Rightarrow> map_of eds p)"
  using assms
proof (induction es arbitrary: eds)
  case (Cons e es)
  let ?eds = "(Path e, \<lparr>Entry = e, Delete = g\<rparr>) # filter (\<lambda>x. fst x \<noteq> Path e) eds"
  have step: "put_edits g (e # es) eds = put_edits g es ?eds" by (simp add: put_edits_def)
  have IH: "map_of (put_edits g es ?eds) p =
      (case entry_at es p of Some e \<Rightarrow> Some \<lparr>Entry = e, Delete = g\<rparr> | None \<Rightarrow> map_of ?eds p)"
    using Cons by simp
  show ?case
  proof (cases "Path e = p")
    case True
    then have "\<forall>x \<in> set es. Path x \<noteq> p" using Cons.prems by (metis distinct.simps(2) image_eqI list.set_map list.simps(9))
    then have "entry_at es p = None" by (simp add: find_None_iff)
    then show ?thesis unfolding step IH using True by simp
  next
    case False
    then show ?thesis unfolding step IH using map_of_filter_other [OF False, of eds] by (simp split: option.split)
  qed
qed (simp add: put_edits_def)

text \<open>A map of edits: one edit per path, filed under it.\<close>

definition edit_map :: "(string \<times> edit) list \<Rightarrow> bool" where
  "edit_map eds \<longleftrightarrow> distinct (map fst eds) \<and> (\<forall>(k, ed) \<in> set eds. Path (Entry ed) = k)"

lemma edit_map_put: "edit_map eds \<Longrightarrow> edit_map (put_edits g es eds)"
proof (induction es arbitrary: eds)
  case (Cons e es)
  have "edit_map ((Path e, \<lparr>Entry = e, Delete = g\<rparr>) # filter (\<lambda>x. fst x \<noteq> Path e) eds)"
    using Cons.prems by (auto simp: edit_map_def distinct_map_filter)
  from Cons.IH [OF this] show ?case by (simp add: put_edits_def)
qed (simp add: put_edits_def)

lemma edited_at:
  assumes "path_sorted es" "edit_map eds"
  shows "entry_at (updated (map snd eds) es) p =
    (case map_of eds p of None \<Rightarrow> entry_at es p | Some ed \<Rightarrow> if Delete ed then None else Some (Entry ed))"
proof -
  let ?xs = "sort_edits (map snd eds)"
  have set: "set ?xs = snd ` set eds" by simp
  have "distinct (map (\<lambda>ed. Path (Entry ed)) (map snd eds))"
  proof -
    have keys: "map (\<lambda>ed. Path (Entry ed)) (map snd eds) = map fst eds" using assms(2) by (auto simp: edit_map_def)
    show ?thesis unfolding keys using assms(2) by (simp add: edit_map_def)
  qed
  then have dist: "distinct (map (\<lambda>ed. Path (Entry ed)) ?xs)"
    using sort_edits_sorted [of "map snd eds"] unfolding strict_sorted_iff by blast
  show ?thesis
  proof (cases "map_of eds p")
    case None
    then have none: "p \<notin> fst ` set eds" by (simp add: map_of_eq_None_iff)
    have "Path (Entry (snd x)) \<noteq> p" if x: "x \<in> set eds" for x
    proof -
      have "fst x \<noteq> p" using none x by blast
      moreover have "Path (Entry (snd x)) = fst x" using x assms(2) by (auto simp: edit_map_def)
      ultimately show ?thesis by simp
    qed
    then have "\<forall>ed \<in> set ?xs. Path (Entry ed) \<noteq> p" unfolding set by simp
    then show ?thesis using None fold_entry_at_other [OF assms(1)] by (simp add: updated_def)
  next
    case (Some ed)
    then have p: "(p, ed) \<in> set eds" by (rule map_of_SomeD)
    then have ed: "ed \<in> set ?xs" "Path (Entry ed) = p" using assms(2) set by (force simp: edit_map_def)+
    obtain us vs where xs: "?xs = us @ ed # vs" using split_list [OF ed(1)] by blast
    have "p \<notin> (\<lambda>ed. Path (Entry ed)) ` set vs" using dist ed(2) unfolding xs by simp
    then have "\<forall>x \<in> set vs. Path (Entry x) \<noteq> p" by blast
    then have "entry_at (fold apply_edit ?xs es) p = entry_at (apply_edit ed (fold apply_edit us es)) p"
      unfolding xs using fold_entry_at_other [OF apply_edit_sorted [OF fold_edits_sorted [OF assms(1)]]] by simp
    also have "\<dots> = (if Delete ed then None else Some (Entry ed))"
      using entry_at_self [OF fold_edits_sorted [OF assms(1), of us], of ed] ed(2) by simp
    finally show ?thesis using Some by (simp add: updated_def)
  qed
qed

definition edit_for :: "manifest_entry list \<Rightarrow> manifest_entry list \<Rightarrow> string \<Rightarrow> edit option" where
  "edit_for old new p =
     (case entry_at new p of
        Some e \<Rightarrow> Some \<lparr>Entry = e, Delete = False\<rparr>
      | None \<Rightarrow> map_option (\<lambda>e. \<lparr>Entry = e, Delete = True\<rparr>) (entry_at old p))"

lemma distinct_filter_paths: "path_sorted es \<Longrightarrow> distinct (map Path (filter P es))"
  using filter_sorted [of es P] by (simp add: strict_sorted_iff)

lemma collect_edits_Inr:
  assumes "walkable sha base" "walkable sha after" "sorted_wrt (<) (MetadataPaths b)"
    and "collect_edits b selected base before after names edits = Inr edits'" "edit_map edits"
    and "\<forall>p. map_of edits p = (if P p then edit_for (contents base) (contents after) p else None)"
  shows "edit_map edits' \<and> (\<forall>r \<in> set names. collect b r base = collect b r before) \<and>
    (\<forall>p. map_of edits' p =
       (if P p \<or> (\<exists>r \<in> set names \<inter> set selected. covers b r p) then edit_for (contents base) (contents after) p else None))"
  using assms(4-6)
proof (induction names arbitrary: edits P)
  case (Cons r names)
  have so: "path_sorted (contents base)" "path_sorted (contents after)" using snap.sorted assms(1,2) by blast+
  let ?put = "put_edits False (collect b r after) (put_edits True (collect b r base) edits)"
  let ?edits = "if r \<notin> set selected then edits else ?put"
  let ?P = "\<lambda>p. P p \<or> (r \<in> set selected \<and> covers b r p)"
  have rest: "collect b r base = collect b r before" "collect_edits b selected base before after names ?edits = Inr edits'"
    using Cons.prems(1) by (auto simp: Let_def split: if_splits)
  have em: "edit_map ?edits" using Cons.prems(2) edit_map_put by simp
  have put: "map_of ?put p = (if covers b r p then edit_for (contents base) (contents after) p else map_of edits p)" for p
  proof -
    note c = collect_side [OF assms(1) so(1) assms(3), of r] collect_side [OF assms(2) so(2) assms(3), of r]
    have "covers b r p \<Longrightarrow> entry_at (contents base) p = None \<Longrightarrow> entry_at (contents after) p = None \<Longrightarrow> map_of edits p = None"
      using Cons.prems(3) by (simp add: edit_for_def)
    then show ?thesis
      unfolding c put_edits_at [OF distinct_filter_paths [OF so(2)]] put_edits_at [OF distinct_filter_paths [OF so(1)]]
        filter_at [where P = "covers b r", OF so(1)] filter_at [where P = "covers b r", OF so(2)]
      by (cases "covers b r p") (auto simp: edit_for_def split: option.split)
  qed
  have "\<forall>p. map_of ?edits p = (if ?P p then edit_for (contents base) (contents after) p else None)"
    using Cons.prems(3) put by (auto split: if_splits)
  from Cons.IH [OF rest(2) em this] rest(1) show ?case by auto
qed auto

lemma accepts_covers: "accepts b (all_accepted applied) p \<longleftrightarrow> (\<exists>r \<in> set applied. covers b r p)"
  by (simp add: accepts_def)

lemma accepted_snapshot:
  assumes "history sha os g marshal h s es" "AcceptedSnapshotDelta sha marshal h lower os g s b applied = (Inr t, s')"
  shows "bundle_ok lower os b \<and> set applied \<subseteq> set (Paths b) \<and> snap_ok sha os t \<and>
    (\<forall>p. entry_at (contents t) p =
       (if accepts b (all_accepted applied) p then entry_at (slice (Entries (RemoteManifest b))) p else entry_at es p)) \<and>
    (\<forall>r \<in> set (Paths b). filter (\<lambda>e. covers b r (Path e)) es = filter (\<lambda>e. covers b r (Path e)) (slice (Entries (BaseManifest b))))"
proof -
  have s: "snap_ok sha os s" "contents s = es" "root_ok marshal h s" using history_ok [OF assms(1)] by simp_all
  obtain w s1 where hash: "Snapshot_RootHash marshal h s = (w, s1)" by fastforce
  have s1: "snap_ok sha os s1" "contents s1 = es" using Snapshot_RootHash_keeps(1) [OF s(1,3) hash] s(2) by simp_all
  obtain u v before after edits where v: "ValidateBundleContext lower os b = Inr u"
    "New os (BaseManifest b) = Inr before" "New os (RemoteManifest b) = Inr after"
    "each_ok (\<lambda>p. check_that (is_root (Paths b) p) UnknownSourceChange) applied = Inr v"
    "collect_edits b applied s1 before after (Paths b) [] = Inr edits" "lift_snapshot (fst (Update sha os g (map snd edits) s1)) = Inr t"
    using assms(2) hash
    by (auto simp: AcceptedSnapshotDelta_def bind_res_Inr_iff lift_snapshot_def split: sum.splits if_splits prod.splits)
  have b: "bundle_ok lower os b" using v(1) ValidateBundle_spec [of lower os b] by simp
  note parts = bundle_ok_parts [OF b]
  have "is_ok (each_ok (\<lambda>p. check_that (is_root (Paths b) p) UnknownSourceChange) applied)" using v(4) by simp
  then have sub: "set applied \<subseteq> set (Paths b)" by (auto simp: is_root_member [OF parts(1)])
  have af: "snap_ok sha os after" "contents after = slice (Entries (RemoteManifest b))"
    "snap_ok sha os before" "contents before = slice (Entries (BaseManifest b))"
    using New_snap_ok [OF v(3)] New_snap_ok [OF v(2)] by simp_all
  note w = snap_walkable [OF s1(1)] snap_walkable [OF af(1)] snap_walkable [OF af(3)]
  have ed: "edit_map edits" "\<forall>r \<in> set (Paths b). collect b r s1 = collect b r before"
    "\<forall>p. map_of edits p =
       (if \<exists>r \<in> set (Paths b) \<inter> set applied. covers b r p then edit_for (contents s1) (contents after) p else None)"
    using collect_edits_Inr [OF w(1,2) parts(2) v(5), of "\<lambda>p. False"] by (simp_all add: edit_map_def)
  have cov: "(\<exists>r \<in> set (Paths b) \<inter> set applied. covers b r p) \<longleftrightarrow> accepts b (all_accepted applied) p" for p
    using sub by (auto simp: accepts_covers)
  obtain r' s2 where up: "Update sha os g (map snd edits) s1 = (r', s2)" by fastforce
  have "r' = Inr t" using v(6) up by (auto simp: lift_snapshot_def split: sum.splits)
  then have t: "snap_ok sha os t" "contents t = updated (map snd edits) es"
    using Update_spec [OF s1(1) up] s1(2) by (auto split: if_splits)
  have "entry_at (contents t) p =
      (if accepts b (all_accepted applied) p then entry_at (slice (Entries (RemoteManifest b))) p else entry_at es p)" for p
    unfolding t(2) edited_at [OF snap_sorted [OF s1(1), unfolded s1(2)] ed(1)]
    using ed(3) by (auto simp: cov edit_for_def s1(2) af(2) split: option.split)
  moreover have "\<forall>r \<in> set (Paths b). filter (\<lambda>e. covers b r (Path e)) es = filter (\<lambda>e. covers b r (Path e)) (slice (Entries (BaseManifest b)))"
    using ed(2) collect_side [OF w(1) snap_sorted [OF s1(1)] parts(2)] collect_side [OF w(3) snap_sorted [OF af(3)] parts(2)]
    by (simp add: s1(2) af(4))
  ultimately show ?thesis using b sub t(1) by blast
qed

lemma accepted_snapshot_merge:
  assumes "history sha os g marshal h s (slice (Entries base))"
    and "AcceptedSnapshotDelta sha marshal h lower os g s b applied = (Inr t, s')"
  shows "\<exists>m. mergeAcceptedSourceContext base b (all_accepted applied) = Inr m \<and> slice (Entries m) = contents t"
proof -
  let ?base = "slice (Entries base)" and ?remote = "slice (Entries (RemoteManifest b))"
  note acc = accepted_snapshot [OF assms]
  have b: "bundle_ok lower os b" using acc by blast
  note parts = bundle_ok_parts [OF b]
  have s: "snap_ok sha os s" "contents s = ?base" using history_ok [OF assms(1)] by simp_all
  have inv: "inventory_ok os ?base" and so: "path_sorted ?base" using s snap_sorted [OF s(1)] by (simp_all add: snap_ok_def)
  have "entry_at ?base p = entry_at (slice (Entries (BaseManifest b))) p" if c: "carried b p" for p
  proof -
    obtain r where r: "r \<in> set (Paths b)" "covers b r p" using c parts(3) by (auto simp: carried_def split: if_splits)
    then have "filter (\<lambda>e. covers b r (Path e)) ?base = filter (\<lambda>e. covers b r (Path e)) (slice (Entries (BaseManifest b)))"
      using acc by blast
    then have "entry_at (filter (\<lambda>e. covers b r (Path e)) ?base) p =
        entry_at (filter (\<lambda>e. covers b r (Path e)) (slice (Entries (BaseManifest b)))) p" by (rule arg_cong)
    then show ?thesis
      unfolding filter_at [where P = "covers b r", OF so] filter_at [where P = "covers b r", OF parts(5)] if_P [OF r(2)] .
  qed
  then have "validateSourceMergeBases base b = Inr ()" using mergeBases_ok [OF b so] by blast
  then have "is_ok (mergeAcceptedSourceContext base b (all_accepted applied))"
    by (simp add: mergeAcceptedSourceContext_def Let_def)
  then obtain m where m: "mergeAcceptedSourceContext base b (all_accepted applied) = Inr m" by (auto simp: is_ok_iff)
  have rel: "\<forall>r \<in> fst ` set (States (all_accepted applied)). rel_path r" using acc parts(4) by auto
  have sl: "slice (Entries m) = merge_entries (accepts b (all_accepted applied)) ?base ?remote"
    using mergeAccepted_Inr [OF inv b rel _ m] by simp
  have "slice (Entries m) = contents t"
  proof (rule sorted_lookup_ext)
    show "path_sorted (slice (Entries m))" unfolding sl by (rule merge_entries_sorted [OF so parts(6)])
    show "path_sorted (contents t)" using acc snap_sorted by blast
    show "entry_at (slice (Entries m)) p = entry_at (contents t) p" for p
      unfolding sl merge_entries_at [OF so parts(6)] using acc by simp
  qed
  with m show ?thesis by blast
qed

text \<open>The two implementations fail and succeed together.\<close>

lemma mergeBases_iff:
  assumes "bundle_ok lower os b" "path_sorted (slice (Entries base))"
  shows "is_ok (validateSourceMergeBases base b) \<longleftrightarrow> (\<forall>r \<in> set (Paths b).
    filter (\<lambda>e. covers b r (Path e)) (slice (Entries base)) = filter (\<lambda>e. covers b r (Path e)) (slice (Entries (BaseManifest b))))"
proof -
  note parts = bundle_ok_parts [OF assms(1)]
  have md: "bundleHasMetadataPath b r \<longleftrightarrow> r \<in> set (MetadataPaths b)" for r
    by (simp add: bundleHasMetadataPath_def is_root_member [OF parts(2)])
  have "is_ok (validateSourceMergeBases base b) \<longleftrightarrow> (\<forall>r \<in> set (Paths b).
      if r \<in> set (MetadataPaths b)
      then filter (\<lambda>e. Path e = r) (slice (Entries base)) = filter (\<lambda>e. Path e = r) (slice (Entries (BaseManifest b)))
      else filter (\<lambda>e. at_or_below r (Path e)) (slice (Entries base)) = filter (\<lambda>e. at_or_below r (Path e)) (slice (Entries (BaseManifest b))))"
    unfolding validateSourceMergeBases_def
    by (simp add: Let_def md exactManifestEntry_filter [OF assms(2)] exactManifestEntry_filter [OF parts(5)]
        subtreeManifest_filter [OF assms(2)] subtreeManifest_filter [OF parts(5)])
  also have "\<dots> \<longleftrightarrow> (\<forall>r \<in> set (Paths b).
      filter (\<lambda>e. covers b r (Path e)) (slice (Entries base)) = filter (\<lambda>e. covers b r (Path e)) (slice (Entries (BaseManifest b))))"
    by (rule ball_cong) simp_all
  finally show ?thesis .
qed

lemma collect_edits_total:
  "\<forall>r \<in> set names. collect b r base = collect b r before \<Longrightarrow>
     \<exists>edits'. collect_edits b selected base before after names edits = Inr edits'"
  by (induction names arbitrary: edits) (simp_all add: Let_def)

lemma byte_sum_files: "\<forall>e \<in> set es. entry_ok os e \<Longrightarrow> byte_sum es = file_bytes es"
  by (induction es) (auto simp: entry_ok_def validateEntry_def split: if_splits)

lemma bundle_inventories:
  assumes "bundle_ok lower os b"
  shows "inventory_ok os (slice (Entries (BaseManifest b)))" "inventory_ok os (slice (Entries (RemoteManifest b)))"
proof -
  note parts = bundle_ok_parts [OF assms]
  have "''.'' \<notin> Path ` set es" if "\<forall>e \<in> set es. rel_path (Path e)" for es
    using that by (auto simp: rel_path_def)
  moreover have "bundle_manifest_ok lower os (set (Paths b)) (slice (Entries (BaseManifest b)))"
    "bundle_manifest_ok lower os (set (Paths b)) (slice (Entries (RemoteManifest b)))" using assms by (simp_all add: bundle_ok_def)
  ultimately show "inventory_ok os (slice (Entries (BaseManifest b)))" "inventory_ok os (slice (Entries (RemoteManifest b)))"
    using parts(7,8) byte_sum_files [of _ os] by (simp_all add: inventory_ok_def bundle_manifest_ok_def manifest_ok_def)
qed

lemma accepted_edits_ok:
  assumes "edit_map edits" "\<forall>p. map_of edits p = (if P p then edit_for es fs p else None)"
    and "\<forall>e \<in> set es \<union> set fs. entry_ok os e \<and> Path e \<noteq> ''.''"
  shows "edits_ok os (map snd edits)"
proof -
  have d: "distinct (map fst edits)" and k: "\<And>k ed. (k, ed) \<in> set edits \<Longrightarrow> Path (Entry ed) = k"
    using assms(1) by (auto simp: edit_map_def)
  have "map (\<lambda>ed. Path (Entry ed)) (map snd edits) = map fst edits" using k by auto
  moreover have "Entry ed \<in> set es \<union> set fs" if "(p, ed) \<in> set edits" for p ed
  proof -
    have "map_of edits p = Some ed" using d that by simp
    then have "edit_for es fs p = Some ed" using assms(2) by (auto split: if_splits)
    then show ?thesis by (auto simp: edit_for_def find_Some_iff split: option.splits)
  qed
  then have "\<not> unsafe_edit (Path (Entry ed)) \<and> entry_ok os (Entry ed)" if "ed \<in> set (map snd edits)" for ed
    using that assms(3) entry_safe [of os "Entry ed"] by auto
  ultimately show ?thesis using d unfolding edits_ok_def by metis
qed

lemma accepted_snapshot_total:
  assumes "history sha os g marshal h s (slice (Entries base))" "bundle_ok lower os b"
    and "fst (Snapshot_RootHash marshal h s) = BaselineRoot b" "set applied \<subseteq> set (Paths b)"
    and "mergeAcceptedSourceContext base b (all_accepted applied) = Inr m" "inventory_ok os (slice (Entries m))"
  shows "\<exists>t s'. AcceptedSnapshotDelta sha marshal h lower os g s b applied = (Inr t, s')"
proof -
  let ?base = "slice (Entries base)" and ?remote = "slice (Entries (RemoteManifest b))"
  note parts = bundle_ok_parts [OF assms(2)]
  have s: "snap_ok sha os s" "contents s = ?base" "root_ok marshal h s" using history_ok [OF assms(1)] by simp_all
  have inv: "inventory_ok os ?base" and so: "path_sorted ?base" using s snap_sorted [OF s(1)] by (simp_all add: snap_ok_def)
  obtain s1 where hash: "Snapshot_RootHash marshal h s = (BaselineRoot b, s1)" using assms(3) by (metis prod.collapse)
  have s1: "snap_ok sha os s1" "contents s1 = ?base" using Snapshot_RootHash_keeps(1) [OF s(1,3) hash] s(2) by simp_all
  obtain before after where n: "New os (BaseManifest b) = Inr before" "New os (RemoteManifest b) = Inr after"
    using bundle_inventories [OF assms(2)] New_ok by blast
  have af: "snap_ok sha os after" "contents after = ?remote" "snap_ok sha os before" "contents before = slice (Entries (BaseManifest b))"
    using New_snap_ok [OF n(2)] New_snap_ok [OF n(1)] by simp_all
  note w = snap_walkable [OF s1(1)] snap_walkable [OF af(1)] snap_walkable [OF af(3)]
  have "is_ok (validateSourceMergeBases base b)" using assms(5) by (auto simp: mergeAcceptedSourceContext_def bind_res_Inr_iff)
  then have "\<forall>r \<in> set (Paths b). collect b r s1 = collect b r before"
    using mergeBases_iff [OF assms(2) so] collect_side [OF w(1) snap_sorted [OF s1(1)] parts(2)]
      collect_side [OF w(3) snap_sorted [OF af(3)] parts(2)] by (simp add: s1(2) af(4))
  then obtain edits where edits: "collect_edits b applied s1 before after (Paths b) [] = Inr edits"
    using collect_edits_total by blast
  have ed: "edit_map edits" "\<forall>p. map_of edits p =
      (if \<exists>r \<in> set (Paths b) \<inter> set applied. covers b r p then edit_for ?base ?remote p else None)"
    using collect_edits_Inr [OF w(1,2) parts(2) edits, of "\<lambda>p. False"] by (simp_all add: edit_map_def s1(2) af(2))
  have "entry_ok os e \<and> Path e \<noteq> ''.''" if "inventory_ok os es" "e \<in> set es" for es e
    using that unfolding inventory_ok_def manifest_ok_def by (metis image_eqI)
  then have "\<forall>e \<in> set ?base \<union> set ?remote. entry_ok os e \<and> Path e \<noteq> ''.''"
    using inv bundle_inventories(2) [OF assms(2)] by blast
  from accepted_edits_ok [OF ed this] have eok: "edits_ok os (map snd edits)" .
  have rel: "\<forall>r \<in> fst ` set (States (all_accepted applied)). rel_path r" using assms(4) parts(4) by auto
  have sl: "slice (Entries m) = merge_entries (accepts b (all_accepted applied)) ?base ?remote"
    using mergeAccepted_Inr [OF inv assms(2) rel _ assms(5)] by simp
  have "updated (map snd edits) ?base = slice (Entries m)"
  proof (rule sorted_lookup_ext)
    show "path_sorted (updated (map snd edits) ?base)" unfolding updated_def by (rule fold_edits_sorted [OF so])
    show "path_sorted (slice (Entries m))" unfolding sl by (rule merge_entries_sorted [OF so parts(6)])
    have "(\<exists>r \<in> set (Paths b) \<inter> set applied. covers b r p) \<longleftrightarrow> accepts b (all_accepted applied) p" for p
      using assms(4) by (auto simp: accepts_covers)
    then show "entry_at (updated (map snd edits) ?base) p = entry_at (slice (Entries m)) p" for p
      unfolding sl merge_entries_at [OF so parts(6)] edited_at [OF so ed(1)] using ed(2) by (auto simp: edit_for_def split: option.split)
  qed
  then have "edits_ok os (map snd edits) \<and> inventory_ok os (updated (map snd edits) (contents s1))" using eok assms(6) s1(2) by simp
  then obtain t s2 where up: "Update sha os g (map snd edits) s1 = (Inr t, s2)"
    using Update_spec [OF s1(1), of g "map snd edits"] by (metis surj_pair)
  have "ValidateBundleContext lower os b = Inr ()" using assms(2) ValidateBundle_spec by (metis is_ok_unit)
  moreover have "is_ok (each_ok (\<lambda>p. check_that (is_root (Paths b) p) UnknownSourceChange) applied)"
    using assms(4) by (auto simp: is_root_member [OF parts(1)])
  then have "each_ok (\<lambda>p. check_that (is_root (Paths b) p) UnknownSourceChange) applied = Inr ()" by (simp add: is_ok_unit)
  ultimately show ?thesis
    using hash n edits up by (simp add: AcceptedSnapshotDelta_def lift_snapshot_def del: each_ok.simps collect_edits.simps)
qed

lemma accepted_root:
  assumes "AcceptedSnapshotDelta sha marshal h lower os g s b applied = (Inr t, s')"
  shows "fst (Snapshot_RootHash marshal h s) = BaselineRoot b"
  using assms by (auto simp: AcceptedSnapshotDelta_def split: sum.splits prod.splits if_splits)

lemma PrepareSnapshotDelta_Inr:
  assumes "PrepareSnapshotDelta sha marshal h s t maxBytes = Inr d"
  obtains b0 s' t' w where "selectSnapshotDelta sha s t maxBytes = (Inr b0, s', t')" "delta_base d = s" "delta_current d = t"
    "delta_bundle d = b0\<lparr>BaselineRoot := w\<rparr>"
proof -
  obtain r s' t' where d: "selectSnapshotDelta sha s t maxBytes = (r, s', t')" by (metis prod_cases3)
  then show ?thesis
    using assms that by (auto simp: PrepareSnapshotDelta_def workspaceSnapshotDelta_def bind_res_Inr_iff)
qed

lemma metadata_roots:
  assumes "snap_ok sha os s" "snap_ok sha os t" "collision_free sha (set (contents s) \<union> set (contents t))"
    and "selectSnapshotDelta sha s t maxBytes = (Inr b, s', t')"
  shows "set (MetadataPaths b) \<subseteq> set (Paths b)"
  by (rule delta_parts [OF assms]) auto

lemma covered_carried: "set applied \<subseteq> set (Paths b) \<Longrightarrow> accepts b (all_accepted applied) p \<Longrightarrow> carried b p"
  by (auto simp: accepts_covers carried_def split: if_splits)

lemma Accepted_at:
  assumes "history sha os g marshal h s es" "history sha os g marshal h t fs" "collision_free sha (set es \<union> set fs)"
    and "PrepareSnapshotDelta sha marshal h s t maxBytes = Inr d" "Accepted sha marshal h lower os g d applied = Inr u"
  shows "snap_ok sha os u \<and> (\<forall>p. entry_at (contents u) p =
    (if accepts (delta_bundle d) (all_accepted applied) p then entry_at fs p else entry_at es p))"
proof -
  have s: "snap_ok sha os s" "contents s = es" and t: "snap_ok sha os t" "contents t = fs"
    using history_ok [OF assms(1)] history_ok [OF assms(2)] by simp_all
  obtain b0 s' t' w where d: "selectSnapshotDelta sha s t maxBytes = (Inr b0, s', t')" "delta_base d = s" "delta_current d = t"
    "delta_bundle d = b0\<lparr>BaselineRoot := w\<rparr>"
    using PrepareSnapshotDelta_Inr [OF assms(4)] .
  have cf: "collision_free sha (set (contents s) \<union> set (contents t))" using assms(3) s t by simp
  note sides = delta_sides [OF s(1) t(1) cf d(1), unfolded s(2) t(2)]
  have sub: "set (MetadataPaths (delta_bundle d)) \<subseteq> set (Paths (delta_bundle d))"
    using metadata_roots [OF s(1) t(1) cf d(1)] d(4) by simp
  consider (all) "applied = Paths (delta_bundle d)" | (some) "applied \<noteq> Paths (delta_bundle d)" by blast
  then show ?thesis
  proof cases
    case all
    have "(if accepts (delta_bundle d) (all_accepted applied) p then entry_at fs p else entry_at es p) = entry_at fs p" for p
      using sides(2) [of p] d(4) unfolding all accepts_all [OF sub] by simp
    moreover have "snap_ok sha os u \<and> (\<forall>p. entry_at (contents u) p = entry_at fs p)"
    proof (cases "Paths (delta_bundle d) = []")
      case True
      then have "\<not> carried b0 p" for p using sub d(4) by (auto simp: carried_def)
      then have "entry_at es p = entry_at fs p" for p using sides(2) by blast
      moreover have "u = s" using assms(5) all True d(2) by (simp add: Accepted_def)
      ultimately show ?thesis using s by simp
    next
      case False
      show ?thesis
      proof (cases "Len t = 0")
        case True
        then have "fs = []" using t by (simp add: Len_def snap_ok_def)
        moreover have "New os \<lparr>Entries = None\<rparr> = Inr u"
          using assms(5) all False True d(3) by (auto simp: Accepted_def lift_snapshot_def split: sum.splits)
        ultimately show ?thesis using New_snap_ok [of os "\<lparr>Entries = None\<rparr>" u sha] by simp
      next
        case False': False
        then have "u = t" using assms(5) all False d(3) by (simp add: Accepted_def)
        then show ?thesis using t by simp
      qed
    qed
    ultimately show ?thesis by simp
  next
    case some
    then obtain s2 where a: "AcceptedSnapshotDelta sha marshal h lower os g s (delta_bundle d) applied = (Inr u, s2)"
      using assms(5) d(2) by (cases "AcceptedSnapshotDelta sha marshal h lower os g s (delta_bundle d) applied") (simp add: Accepted_def)
    note acc = accepted_snapshot [OF assms(1) a]
    have "entry_at (slice (Entries (RemoteManifest (delta_bundle d)))) p = entry_at fs p"
      if c: "accepts (delta_bundle d) (all_accepted applied) p" for p
      using covered_carried [OF _ c] acc sides(1) [of p] d(4) by simp
    then show ?thesis using acc by simp
  qed
qed

subsection \<open>Recorded outcomes\<close>

lemma check_applied_iff:
  "check_applied ot seen ps \<longleftrightarrow> distinct ps \<and> set ps \<inter> set seen = {} \<and>
     (\<forall>p \<in> set ps. state_of ot p \<noteq> '''' \<and> rootsOutsideConflicts [p] (Conflicts ot) \<noteq> [])"
  by (induction ps arbitrary: seen) auto

lemma check_conflicts_rel: "check_conflicts paths prior cs \<Longrightarrow> c \<in> set cs \<Longrightarrow> rel_path c"
  by (induction paths prior cs rule: check_conflicts.induct) (auto simp: validatePath_ok)

lemma outside_single: "rootsOutsideConflicts [p] cs \<noteq> [] \<Longrightarrow> p \<in> set ps \<Longrightarrow> p \<in> set (rootsOutsideConflicts ps cs)"
  by (auto simp: rootsOutsideConflicts_def split: if_splits)

lemma validateOutcome_parts:
  assumes "validateOutcome st b = Inr ()" "Outcome st = Some ot"
  shows "Refused ot \<Longrightarrow> Applied ot = [] \<and> States ot = [] \<and> Conflicts ot \<noteq> []"
    and "\<not> Refused ot \<Longrightarrow> set (rootsOutsideConflicts (state_Paths st) (Conflicts ot)) \<subseteq> set (Applied ot)"
    and "check_conflicts (state_Paths st) None (Conflicts ot)" "list_all (check_state b (state_Paths st)) (States ot)"
    and "check_applied ot [] (Applied ot)"
  using assms by (simp_all add: validateOutcome_def list_all_iff subset_iff split: if_splits)

subsection \<open>Properties\<close>

text \<open>A bundle as it is sent: the change of the mode of one directory, with a hash that has the
  form of a digest.\<close>

definition zeros :: "string \<Rightarrow> string" where
  "zeros _ = replicate 64 CHR ''0''"

definition sample_sent :: change_bundle where
  "sample_sent = sample_bundle\<lparr>BaselineRoot := replicate 64 CHR ''0''\<rparr>"

definition dirs :: "manifest_entry list \<Rightarrow> manifest" where
  "dirs es = \<lparr>Entries = Some es\<rparr>"

lemma sample_sent_valid: "ValidateBundleContext (map ascii_lower) unix sample_sent = Inr ()"
proof -
  have "is_ok (check_metadata (Paths sample_sent) [] (MetadataPaths sample_sent))"
    "is_ok (check_roots (map ascii_lower) (MetadataPaths sample_sent) [] (Paths sample_sent))"
    "validateBundleManifestContext (map ascii_lower) unix (BaseManifest sample_sent) (Paths sample_sent) = Inr 0"
    "validateBundleManifestContext (map ascii_lower) unix (RemoteManifest sample_sent) (Paths sample_sent) = Inr 0"
    "\<forall>p \<in> set (Paths sample_sent). is_ok (check_value sample_sent p)" "hex_digit CHR ''0''"
    by code_simp+
  moreover have "change_bundle.Bytes sample_sent = 0" "V sample_sent = 1" "length (Paths sample_sent) = 1"
    "length (MetadataPaths sample_sent) = 1" "length (slice (Entries (BaseManifest sample_sent))) = 1"
    "length (slice (Entries (RemoteManifest sample_sent))) = 1" "BaselineRoot sample_sent = replicate 64 CHR ''0''"
    by (simp_all add: sample_sent_def sample_bundle_def)
  ultimately have "is_ok (ValidateBundleContext (map ascii_lower) unix sample_sent)"
    unfolding ValidateBundle_checks by (simp add: BundleVersion_def MaxChangeEntries_def list_all_iff)
  then show ?thesis by (simp add: is_ok_unit)
qed

lemma sample_sent_delta:
  "workspaceDelta toy_hash id zeros unix (dirs [dir_entry ''a'' 0x1ED]) (dirs [dir_entry ''a'' 0x1C0]) 100 = Inr sample_sent"
proof -
  have "fst (Snapshot_RootHash id zeros (flat_snapshot es)) = replicate 64 CHR ''0''" for es
    by (simp add: Snapshot_RootHash_def flat_snapshot_def empty_snapshot_def materialized_def readyView_def RootHash_def
        zeros_def Let_def)
  then show ?thesis
    unfolding workspaceDelta_def dirs_def flat_New [OF sample_inventory(2)] flat_New [OF sample_inventory(3)]
    by (simp add: lift_snapshot_def workspaceSnapshotDelta_def sample_delta sample_sent_def)
qed

lemma sample_collision_free: "collision_free toy_hash (set [dir_entry ''a'' 0x1ED] \<union> set [dir_entry ''a'' 0x1C0])"
  using toy_collision_free by (simp add: insert_commute)

text \<open>C6. A source that one side describes to the other by its changes arrives unchanged. The
  delta computed between a checkpoint and the current manifest, when it is a valid bundle, is
  accepted by \<open>expandSourceSnapshot\<close> on the same checkpoint: the merge bases match, the
  reconstructed manifest has the declared root, the recomputed delta is the received one, and
  the result is a well-formed snapshot of exactly the current entries.\<close>
theorem delta_transfer_roundtrip:
  assumes "workspaceDelta sha marshal sha256hex os base current maxBytes = Inr b" "is_ok (ValidateBundleContext lower os b)"
    and "is_ok (validateCheckpointManifestContext os current)" "slice (Entries current) \<noteq> []" "maxBytes \<le> MaxInt64"
    and "collision_free sha (set (slice (Entries base)) \<union> set (slice (Entries current)))"
  shows "\<exists>state. expandSourceSnapshot sha marshal sha256hex digest lower os base b (RootHash marshal sha256hex current) maxBytes =
      Inr state \<and> snap_ok sha os state \<and> contents state = slice (Entries current)"
  by (rule expand_whole_delta [OF assms])

theorem delta_transfer_roundtrip_witness:
  "\<exists>state. expandSourceSnapshot toy_hash id zeros (\<lambda>b. BaselineRoot b) (map ascii_lower) unix (dirs [dir_entry ''a'' 0x1ED])
      sample_sent (RootHash id zeros (dirs [dir_entry ''a'' 0x1C0])) 100 = Inr state \<and> contents state = [dir_entry ''a'' 0x1C0]"
proof -
  have "is_ok (validateCheckpointManifestContext unix (dirs [dir_entry ''a'' 0x1C0]))" by code_simp
  from delta_transfer_roundtrip [OF sample_sent_delta _ this, of "map ascii_lower" "\<lambda>b. BaselineRoot b"] show ?thesis
    using sample_sent_valid sample_collision_free by (auto simp: dirs_def MaxInt64_def)
qed

text \<open>C17. What a source becomes after a transfer, conflicts included: the merged manifest is
  sorted and has at every path the value of the bundle where an installed root covers the path
  and no conflict keeps it back, and the value of the checkpoint everywhere else.\<close>
theorem accepted_source_pointwise:
  assumes "inventory_ok os (slice (Entries base))" "is_ok (ValidateBundleContext lower os b)"
    and "fst ` set (States ot) \<subseteq> set (Paths b)" "\<forall>c \<in> set (Conflicts ot). rel_path c"
    and "mergeAcceptedSourceContext base b ot = Inr m"
  shows "path_sorted (slice (Entries m)) \<and>
    entry_at (slice (Entries m)) p =
      (if \<not> Refused ot \<and> accepts b ot p then entry_at (slice (Entries (RemoteManifest b))) p else entry_at (slice (Entries base)) p)"
proof -
  have b: "bundle_ok lower os b" using assms(2) by (simp add: ValidateBundle_spec)
  note parts = bundle_ok_parts [OF b]
  have so: "path_sorted (slice (Entries base))" using assms(1) by (simp add: inventory_ok_def)
  have "\<forall>r \<in> fst ` set (States ot). rel_path r" using assms(3) parts(4) by blast
  note m = mergeAccepted_Inr [OF assms(1) b this assms(4,5)]
  show ?thesis unfolding m merge_entries_at [OF so parts(6)] using merge_entries_sorted [OF so parts(6)] by blast
qed

theorem accepted_source_pointwise_witness:
  "entry_at (slice (Entries (case mergeAcceptedSourceContext (dirs [dir_entry ''a'' 0x1ED, dir_entry ''b'' 0x1ED]) sample_sent
      (all_accepted [''a'']) of Inl _ \<Rightarrow> dirs [] | Inr m \<Rightarrow> m))) ''a'' = Some (dir_entry ''a'' 0x1C0)"
proof -
  let ?base = "dirs [dir_entry ''a'' 0x1ED, dir_entry ''b'' 0x1ED]"
  have m: "mergeAcceptedSourceContext ?base sample_sent (all_accepted [''a'']) = Inr (dirs [dir_entry ''a'' 0x1C0, dir_entry ''b'' 0x1ED])"
    by code_simp
  have "accepts sample_sent (all_accepted [''a'']) ''a''" by code_simp
  moreover have "entry_at (slice (Entries (RemoteManifest sample_sent))) ''a'' = Some (dir_entry ''a'' 0x1C0)" by code_simp
  moreover have "inventory_ok unix (slice (Entries ?base))" using sample_inventory(1) by (simp add: dirs_def)
  ultimately show ?thesis
    using accepted_source_pointwise [of unix ?base "map ascii_lower" sample_sent "all_accepted [''a'']", OF _ _ _ _ m, of "''a''"]
      sample_sent_valid unfolding m by (simp add: sample_sent_def sample_bundle_def)
qed

text \<open>C18. The two implementations of accepting part of a delta agree exactly: for a snapshot that
  lists the entries of \<open>base\<close>, \<open>AcceptedSnapshotDelta\<close> succeeds and gives the entries \<open>es\<close> if and only
  if the bundle is valid, its baseline is the snapshot's root hash, every applied path is one of its
  roots, and merging the manifests as a checkpoint does gives \<open>es\<close>, a well-formed inventory.\<close>
theorem AcceptedSnapshotDelta_eq_merge:
  assumes "history sha os g marshal h s (slice (Entries base))"
  shows "(\<exists>t s'. AcceptedSnapshotDelta sha marshal h lower os g s b applied = (Inr t, s') \<and> contents t = es) \<longleftrightarrow>
    is_ok (ValidateBundleContext lower os b) \<and> fst (Snapshot_RootHash marshal h s) = BaselineRoot b \<and>
    set applied \<subseteq> set (Paths b) \<and> inventory_ok os es \<and>
    (\<exists>m. mergeAcceptedSourceContext base b (all_accepted applied) = Inr m \<and> slice (Entries m) = es)"
proof (intro iffI; (elim exE conjE)?)
  fix t s'
  assume t: "AcceptedSnapshotDelta sha marshal h lower os g s b applied = (Inr t, s')" "contents t = es"
  have "bundle_ok lower os b" "set applied \<subseteq> set (Paths b)" "snap_ok sha os t"
    using accepted_snapshot [OF assms t(1)] by blast+
  then show "is_ok (ValidateBundleContext lower os b) \<and> fst (Snapshot_RootHash marshal h s) = BaselineRoot b \<and>
      set applied \<subseteq> set (Paths b) \<and> inventory_ok os es \<and>
      (\<exists>m. mergeAcceptedSourceContext base b (all_accepted applied) = Inr m \<and> slice (Entries m) = es)"
    using accepted_snapshot_merge [OF assms t(1)] accepted_root [OF t(1)] t(2) ValidateBundle_spec by (auto simp: snap_ok_def)
next
  fix m
  assume r: "is_ok (ValidateBundleContext lower os b)" "fst (Snapshot_RootHash marshal h s) = BaselineRoot b"
    "set applied \<subseteq> set (Paths b)" "inventory_ok os es"
    and m: "mergeAcceptedSourceContext base b (all_accepted applied) = Inr m" "slice (Entries m) = es"
  obtain t s' where t: "AcceptedSnapshotDelta sha marshal h lower os g s b applied = (Inr t, s')"
    using accepted_snapshot_total [OF assms _ r(2,3) m(1)] r(1,4) m(2) ValidateBundle_spec by blast
  then show "\<exists>t s'. AcceptedSnapshotDelta sha marshal h lower os g s b applied = (Inr t, s') \<and> contents t = es"
    using accepted_snapshot_merge [OF assms t] m by auto
qed

lemma sample_accept:
  "\<exists>t s'. AcceptedSnapshotDelta toy_hash id zeros (map ascii_lower) unix 4 (flat_snapshot [dir_entry ''a'' 0x1ED]) sample_sent [''a''] =
     (Inr t, s') \<and> contents t = [dir_entry ''a'' 0x1C0]"
proof -
  let ?s = "flat_snapshot [dir_entry ''a'' 0x1ED]" and ?eds = "[\<lparr>Entry = dir_entry ''a'' 0x1C0, Delete = False\<rparr>]"
  obtain w s1 where hash: "Snapshot_RootHash id zeros ?s = (w, s1)" by fastforce
  have w: "w = replicate 64 CHR ''0''" and s1: "s1 = ?s\<lparr>wireRoot := replicate 64 CHR ''0''\<rparr>"
    using hash by (auto simp: Snapshot_RootHash_def flat_snapshot_def empty_snapshot_def materialized_def readyView_def
        RootHash_def zeros_def Let_def)
  have ok: "snap_ok toy_hash unix ?s" "contents ?s = [dir_entry ''a'' 0x1ED]"
    using flat_ok [OF sample_inventory(2), of toy_hash] by simp_all
  have s1_ok: "snap_ok toy_hash unix s1" "contents s1 = [dir_entry ''a'' 0x1ED]"
    using snap_ok_caches(3) [OF ok(1)] ok(2) unfolding s1 by simp_all
  obtain r s2 where up: "Update toy_hash unix 4 ?eds s1 = (r, s2)" by fastforce
  have "updated ?eds [dir_entry ''a'' 0x1ED] = [dir_entry ''a'' 0x1C0]" "edits_ok unix ?eds" by code_simp+
  then obtain t where t: "r = Inr t" "contents t = [dir_entry ''a'' 0x1C0]"
    using Update_spec [OF s1_ok(1) up] s1_ok(2) sample_inventory(3) by auto
  have n: "New unix (BaseManifest sample_sent) = Inr ?s" "New unix (RemoteManifest sample_sent) = Inr (flat_snapshot [dir_entry ''a'' 0x1C0])"
    using flat_New [OF sample_inventory(2)] flat_New [OF sample_inventory(3)] by (simp_all add: sample_sent_def sample_bundle_def)
  have "collect_edits sample_sent [''a''] s1 ?s (flat_snapshot [dir_entry ''a'' 0x1C0]) (Paths sample_sent) [] =
      Inr [(''a'', \<lparr>Entry = dir_entry ''a'' 0x1C0, Delete = False\<rparr>)]" unfolding s1 by code_simp
  moreover have "each_ok (\<lambda>p. check_that (is_root (Paths sample_sent) p) UnknownSourceChange) [''a''] = Inr ()" by code_simp
  ultimately show ?thesis
    using sample_sent_valid hash w n up t
    by (simp add: AcceptedSnapshotDelta_def lift_snapshot_def sample_sent_def del: each_ok.simps collect_edits.simps)
qed

theorem AcceptedSnapshotDelta_eq_merge_witness:
  "\<exists>m. mergeAcceptedSourceContext (dirs [dir_entry ''a'' 0x1ED]) sample_sent (all_accepted [''a'']) = Inr m \<and>
     slice (Entries m) = [dir_entry ''a'' 0x1C0]"
proof -
  obtain t s' where t: "AcceptedSnapshotDelta toy_hash id zeros (map ascii_lower) unix 4 (flat_snapshot [dir_entry ''a'' 0x1ED])
      sample_sent [''a''] = (Inr t, s')" "contents t = [dir_entry ''a'' 0x1C0]" using sample_accept by blast
  have "history toy_hash unix 4 id zeros (flat_snapshot [dir_entry ''a'' 0x1ED]) (slice (Entries (dirs [dir_entry ''a'' 0x1ED])))"
    using flat_history [OF sample_inventory(2)] by (simp add: dirs_def)
  from AcceptedSnapshotDelta_eq_merge [OF this, of "map ascii_lower" sample_sent "[''a'']"] t show ?thesis by blast
qed

text \<open>C19. \<open>SnapshotDelta.Accepted\<close>, with its shortcut for a receipt that names every root, gives a
  well-formed snapshot that has the current source's entry at every path an accepted root
  covers and the base's entry at every other path.\<close>
theorem Accepted_pointwise:
  assumes "history sha os g marshal h s es" "history sha os g marshal h t fs" "collision_free sha (set es \<union> set fs)"
    and "PrepareSnapshotDelta sha marshal h s t maxBytes = Inr d" "Accepted sha marshal h lower os g d applied = Inr u"
  shows "snap_ok sha os u \<and>
    entry_at (contents u) p = (if accepts (delta_bundle d) (all_accepted applied) p then entry_at fs p else entry_at es p)"
  using Accepted_at [OF assms] by blast

theorem Accepted_pointwise_witness:
  "\<exists>d u. Accepted toy_hash id zeros (map ascii_lower) unix 4 d [''a''] = Inr u \<and>
     entry_at (contents u) ''a'' = Some (dir_entry ''a'' 0x1C0)"
proof -
  let ?s = "flat_snapshot [dir_entry ''a'' 0x1ED]" and ?t = "flat_snapshot [dir_entry ''a'' 0x1C0]"
  obtain w where p: "PrepareSnapshotDelta toy_hash id zeros ?s ?t 100 =
      Inr \<lparr>delta_base = ?s, delta_current = ?t, delta_bundle = sample_bundle\<lparr>BaselineRoot := w\<rparr>\<rparr>"
    by (simp add: PrepareSnapshotDelta_def workspaceSnapshotDelta_def sample_delta)
  let ?d = "\<lparr>delta_base = ?s, delta_current = ?t, delta_bundle = sample_bundle\<lparr>BaselineRoot := w\<rparr>\<rparr>"
  have a: "Accepted toy_hash id zeros (map ascii_lower) unix 4 ?d [''a''] = Inr ?t"
    by (simp add: Accepted_def sample_bundle_def Len_def flat_snapshot_def)
  have "accepts (sample_bundle\<lparr>BaselineRoot := w\<rparr>) (all_accepted [''a'']) ''a''"
    by (simp add: accepts_covers sample_bundle_def)
  then show ?thesis
    using Accepted_pointwise [OF flat_history [OF sample_inventory(2)] flat_history [OF sample_inventory(3)] sample_collision_free p a,
        of "''a''"] a by (auto simp: dir_entry_def)
qed

text \<open>C25. A recorded transfer that passes \<open>validateOutcome\<close> accounts for every root: a refused
  transfer installed nothing and names a conflict; otherwise the applied roots are, each once,
  exactly the requested ones that no conflict is at, above or below.\<close>
theorem recorded_outcome_exact:
  assumes "validateOutcome st b = Inr ()" "Outcome st = Some ot" "sorted_wrt (<) (state_Paths st)"
  shows "fst ` set (States ot) \<subseteq> set (state_Paths st) \<and> distinct (Applied ot) \<and>
    (if Refused ot then Applied ot = [] \<and> States ot = [] \<and> Conflicts ot \<noteq> []
     else set (Applied ot) = set (rootsOutsideConflicts (state_Paths st) (Conflicts ot)))"
proof -
  note parts = validateOutcome_parts [OF assms(1,2)]
  have states: "fst ` set (States ot) \<subseteq> set (state_Paths st)"
    using parts(4) by (auto simp: list_all_iff check_state_def is_root_member [OF assms(3)])
  have app: "distinct (Applied ot)" "\<forall>p \<in> set (Applied ot). state_of ot p \<noteq> '''' \<and> rootsOutsideConflicts [p] (Conflicts ot) \<noteq> []"
    using parts(5) by (simp_all add: check_applied_iff)
  have "p \<in> set (rootsOutsideConflicts (state_Paths st) (Conflicts ot))" if p: "p \<in> set (Applied ot)" for p
  proof -
    have "state_of ot p \<noteq> ''''" using app(2) p by blast
    then have "map_of (States ot) p \<noteq> None" by (cases "map_of (States ot) p") (simp_all add: state_of_def)
    then have "p \<in> set (state_Paths st)" using states by (auto simp: map_of_eq_None_iff)
    then show ?thesis using app(2) p outside_single by blast
  qed
  then show ?thesis using states app(1) parts(1,2) by auto
qed

definition sample_state :: transferApplyState where
  "sample_state = \<lparr>state_Paths = [''a'', ''b''], Materialize = True, Pending = '''', CleanupID = None,
     Outcome = Some \<lparr>Applied = [''a''], Conflicts = [''b''], States = [(''a'', ''metadata:missing'')], Refused = False\<rparr>\<rparr>"

theorem recorded_outcome_exact_witness:
  "validateOutcome sample_state sample_sent = Inr () \<and>
   set [''a''] = set (rootsOutsideConflicts [''a'', ''b''] [''b''])"
proof -
  have v: "validateOutcome sample_state sample_sent = Inr ()" by code_simp
  have "sorted_wrt (<) (state_Paths sample_state)" by code_simp
  from recorded_outcome_exact [OF v _ this] v show ?thesis by (simp add: sample_state_def)
qed

end
