(* ===== verification/Change_Merge.thy ===== *)
theory Change_Merge
  imports Change_Accept Extract
begin

unbundle bit_operations_syntax

text \<open>
  \<open>internal/changes/merge.go\<close>: the three-way merge of a bundle into a workspace, written into a
  scratch directory, with \<open>copyMergeScratch\<close> of \<open>apply.go\<close>. The three inputs are trees on disk
  (association lists from path to node) with their manifests; the merged directory is the file
  system of theory \<open>Extract\<close>. \<open>git merge-file\<close> is the parameter \<open>git\<close>, applied to the three
  contents. The recursions over directories take fuel and are \<open>None\<close> when it runs out. On Unix
  \<open>fslink.CreatePath\<close> is \<open>os.Symlink\<close>. Device failures and cancellation are not modelled.
\<close>

subsection \<open>Results\<close>

datatype merge_error =
    MergeFs archive_error
  | GitError
  | MergeConflictError "string list"

type_synonym merge_state = "fs \<times> string list"
type_synonym 'a merge_res = "merge_state \<times> (merge_error + 'a)"

datatype git_result =
    GitExit nat bytes
  | GitNotRun

definition on_fs :: "(fs \<Rightarrow> 'a fs_res) \<Rightarrow> merge_state \<Rightarrow> 'a merge_res" where
  "on_fs f st = (case f (fst st) of (fs, r) \<Rightarrow> ((fs, snd st), case r of Inl e \<Rightarrow> Inl (MergeFs e) | Inr a \<Rightarrow> Inr a))"

definition then_merge :: "'a merge_res option \<Rightarrow> ('a \<Rightarrow> merge_state \<Rightarrow> 'b merge_res option) \<Rightarrow> 'b merge_res option" where
  "then_merge r k =
     (case r of None \<Rightarrow> None | Some (st, Inl e) \<Rightarrow> Some (st, Inl e) | Some (st, Inr a) \<Rightarrow> k a st)"

primrec each_merge :: "('a \<Rightarrow> merge_state \<Rightarrow> unit merge_res option) \<Rightarrow> 'a list \<Rightarrow> merge_state \<Rightarrow> unit merge_res option" where
  "each_merge f [] st = Some (st, Inr ())"
| "each_merge f (x # xs) st = then_merge (f x st) (\<lambda>_ st'. each_merge f xs st')"

text \<open>\<open>conflicts[name] = true\<close>\<close>

definition add_conflict :: "string \<Rightarrow> merge_state \<Rightarrow> merge_state" where
  "add_conflict name st = (fst st, List.insert name (snd st))"

subsection \<open>Trees\<close>

record mergeTree =
  root :: "(string \<times> fs_node) list"
  tree_entries :: "(string \<times> manifest_entry) list"
  children :: "string \<Rightarrow> string list"

definition newMergeTree :: "(string \<times> fs_node) list \<Rightarrow> manifest \<Rightarrow> mergeTree" where
  "newMergeTree disk m =
     \<lparr>root = disk, tree_entries = rev (map (\<lambda>e. (Path e, e)) (slice (Entries m))),
      children = (\<lambda>parent. map Path (filter (\<lambda>e. path_dir (Path e) = parent) (slice (Entries m))))\<rparr>"

definition mark :: "string \<Rightarrow> string list" where
  "mark name = (if name = ''.'' then [] else name # parent_dirs name)"

definition changedSubtrees ::
  "(string \<times> manifest_entry) list \<Rightarrow> (string \<times> manifest_entry) list \<Rightarrow> string list" where
  "changedSubtrees left right =
     concat (map mark (filter (\<lambda>name. map_of right name \<noteq> map_of left name) (map fst left @ map fst right)))"

definition mergeChildren :: "string \<Rightarrow> mergeTree list \<Rightarrow> string list" where
  "mergeChildren parent trees = sort (remdups (concat (map (\<lambda>t. children t parent) trees)))"

definition mergeMode :: "32 word \<Rightarrow> bool \<Rightarrow> 32 word \<Rightarrow> 32 word \<Rightarrow> 32 word \<times> bool" where
  "mergeMode base baseOK ours remote =
     (if ours = remote then (ours, True)
      else if \<not> baseOK then (0, False)
      else if ours = base then (remote, True)
      else if remote = base then (ours, True)
      else (0, False))"

definition mergeString :: "string \<Rightarrow> string \<Rightarrow> string \<Rightarrow> string \<times> bool" where
  "mergeString base ours remote =
     (if ours = remote then (ours, True)
      else if ours = base then (remote, True)
      else if remote = base then (ours, True)
      else ('''', False))"

subsection \<open>Copying a subtree\<close>

definition Lstat :: "(string \<times> fs_node) list \<Rightarrow> string \<Rightarrow> merge_error + fs_node" where
  "Lstat disk p =
     (case reach p (map_of disk) of
        Inl e \<Rightarrow> Inl (MergeFs e)
      | Inr _ \<Rightarrow> (case map_of disk p of None \<Rightarrow> Inl (MergeFs (FileSystemError p)) | Some n \<Rightarrow> Inr n))"

definition readable :: "32 word \<Rightarrow> bool" where
  "readable mode \<longleftrightarrow> bit mode 8"

definition ReadDir :: "(string \<times> fs_node) list \<Rightarrow> string \<Rightarrow> string list" where
  "ReadDir disk p = sort (remdups (filter (\<lambda>q. q \<noteq> ''.'' \<and> path_dir q = p) (map fst disk)))"

primrec copyMergeScratch :: "nat \<Rightarrow> 32 word \<Rightarrow> (string \<times> fs_node) list \<Rightarrow> string \<Rightarrow> merge_state \<Rightarrow> unit merge_res option" where
  "copyMergeScratch 0 umask disk p st = None"
| "copyMergeScratch (Suc n) umask disk p st =
     (case Lstat disk p of
        Inl e \<Rightarrow> Some (st, Inl e)
      | Inr (FFile content mode) \<Rightarrow>
          if \<not> readable mode then Some (st, Inl (MergeFs (FileSystemError p)))
          else
            let perm = mode AND 0x1FF
            in then_merge (Some (on_fs (create_node p (FFile content (perm AND NOT umask))) st)) (\<lambda>_ st1.
                 Some (on_fs (Chmod p perm) st1))
      | Inr (FDir mode) \<Rightarrow>
          let perm = mode AND 0x1FF
          in then_merge (Some (on_fs (create_node p (FDir ((perm OR 0x1C0) AND NOT umask))) st)) (\<lambda>_ st1.
               if \<not> readable mode then Some (st1, Inl (MergeFs (FileSystemError p)))
               else
                 then_merge (each_merge (copyMergeScratch n umask disk) (ReadDir disk p) st1) (\<lambda>_ st2.
                   Some (on_fs (Chmod p perm) st2)))
      | Inr (FLink target) \<Rightarrow> Some (on_fs (create_node p (FLink target)) st))"

definition deepest :: "string list \<Rightarrow> string list" where
  "deepest ps = sort_key (\<lambda>p. - int (count_list p slash)) (rev (sort ps))"

definition restoreMergeSubtreeModes :: "mergeTree \<Rightarrow> string \<Rightarrow> merge_state \<Rightarrow> unit merge_res option" where
  "restoreMergeSubtreeModes source name st =
     (let below = name @ ''/'';
          paths = remdups (filter (\<lambda>p. p = name \<or> has_prefix p below) (map fst (tree_entries source)))
      in each_merge (\<lambda>p st'.
             case map_of (tree_entries source) p of
               None \<Rightarrow> Some (st', Inr ())
             | Some e \<Rightarrow> if Type e = EntrySymlink then Some (st', Inr ()) else Some (on_fs (Chmod p (Mode e)) st'))
           (deepest paths) st)"

definition copyMergeSubtree :: "nat \<Rightarrow> 32 word \<Rightarrow> mergeTree \<Rightarrow> string \<Rightarrow> merge_state \<Rightarrow> unit merge_res option" where
  "copyMergeSubtree fuel umask source name st =
     (if map_of (tree_entries source) name = None then Some (st, Inr ())
      else
        then_merge (Some (on_fs (MkdirAll umask (path_dir name) 0x1C0) st)) (\<lambda>_ st1.
        then_merge (copyMergeScratch fuel umask (root source) name st1) (\<lambda>_ st2.
          restoreMergeSubtreeModes source name st2)))"

subsection \<open>Regular files\<close>

datatype regularMergeResult = regularMergeClean | regularMergeTextConflict | regularMergeBinaryConflict

definition open_file :: "(string \<times> fs_node) list \<Rightarrow> string \<Rightarrow> merge_error + bytes" where
  "open_file disk p =
     (case Lstat disk p of
        Inl e \<Rightarrow> Inl e
      | Inr (FFile content mode) \<Rightarrow> if readable mode then Inr content else Inl (MergeFs (FileSystemError p))
      | Inr (FDir _) \<Rightarrow> Inl (MergeFs (FileSystemError p))
      | Inr (FLink _) \<Rightarrow> Inl (MergeFs (LinkTraversed p)))"

definition isBinaryFile :: "bytes \<Rightarrow> bool" where
  "isBinaryFile content \<longleftrightarrow> nul \<in> set (take 8192 content)"

definition mergeRegularFile ::
  "(bytes \<Rightarrow> bytes \<Rightarrow> bytes \<Rightarrow> git_result) \<Rightarrow> 32 word \<Rightarrow> mergeTree \<Rightarrow> mergeTree \<Rightarrow> mergeTree \<Rightarrow> string \<Rightarrow> 32 word \<Rightarrow> bool \<Rightarrow>
    merge_state \<Rightarrow> regularMergeResult merge_res" where
  "mergeRegularFile git umask ours base remote name mode materializeConflicts st =
     (case bind_res (open_file (root ours) name) (\<lambda>o'.
           if isBinaryFile o' then Inr None
           else bind_res (open_file (root base) name) (\<lambda>b'.
             if isBinaryFile b' then Inr None
             else bind_res (open_file (root remote) name) (\<lambda>r'.
               if isBinaryFile r' then Inr None else Inr (Some (o', b', r'))))) of
        Inl e \<Rightarrow> (st, Inl e)
      | Inr None \<Rightarrow> (st, Inr regularMergeBinaryConflict)
      | Inr (Some (o', b', r')) \<Rightarrow>
          (case on_fs (MkdirAll umask (path_dir name) 0x1C0) st of
             (st1, Inl e) \<Rightarrow> (st1, Inl e)
           | (st1, Inr _) \<Rightarrow>
               let created = 0x180 AND NOT umask
               in case on_fs (create_node name (FFile [] created)) st1 of
                    (st2, Inl e) \<Rightarrow> (st2, Inl e)
                  | (st2, Inr _) \<Rightarrow>
                      let removed = ((fst st2)(name := None), snd st2);
                          finish = (\<lambda>out result.
                            case on_fs (Chmod name (mode AND 0x1FF)) ((fst st2)(name \<mapsto> FFile out created), snd st2) of
                              (st3, Inl e) \<Rightarrow> (removed, Inl e)
                            | (st3, Inr _) \<Rightarrow> (st3, Inr result))
                      in (case git o' b' r' of
                            GitNotRun \<Rightarrow> (removed, Inl GitError)
                          | GitExit code out \<Rightarrow>
                              if code = 0 then finish out regularMergeClean
                              else if code < 128 \<and> out \<noteq> [] then
                                if \<not> materializeConflicts then (removed, Inr regularMergeTextConflict)
                                else finish out regularMergeTextConflict
                              else (removed, Inl GitError))))"

subsection \<open>The merge\<close>

text \<open>The three trees and the three sets of changed subtrees, which the recursion passes on.\<close>

record mergeInput =
  m_base :: mergeTree
  m_ours :: mergeTree
  m_remote :: mergeTree
  baseOurs :: "string list"
  baseRemote :: "string list"
  oursRemote :: "string list"
  materializeConflicts :: bool

definition refuse :: "nat \<Rightarrow> 32 word \<Rightarrow> mergeInput \<Rightarrow> string \<Rightarrow> merge_state \<Rightarrow> unit merge_res option" where
  "refuse fuel umask input name st =
     (if materializeConflicts input then copyMergeSubtree fuel umask (m_ours input) name (add_conflict name st)
      else Some (add_conflict name st, Inr ()))"

definition merge_file ::
  "(bytes \<Rightarrow> bytes \<Rightarrow> bytes \<Rightarrow> git_result) \<Rightarrow> nat \<Rightarrow> 32 word \<Rightarrow> mergeInput \<Rightarrow> string \<Rightarrow>
    manifest_entry \<Rightarrow> manifest_entry \<Rightarrow> manifest_entry \<Rightarrow> merge_state \<Rightarrow> unit merge_res option" where
  "merge_file git fuel umask input name baseEntry oursEntry remoteEntry st =
     (case mergeMode (Mode baseEntry) True (Mode oursEntry) (Mode remoteEntry) of
        (mode, ok) \<Rightarrow>
          if \<not> ok \<and> \<not> materializeConflicts input then Some (add_conflict name st, Inr ())
          else
            then_merge (Some (mergeRegularFile git umask (m_ours input) (m_base input) (m_remote input) name
                (if ok then mode else Mode oursEntry) (materializeConflicts input)
                (if ok then st else add_conflict name st))) (\<lambda>result st1.
              if result \<noteq> regularMergeClean then
                if materializeConflicts input \<and> result = regularMergeBinaryConflict
                then copyMergeSubtree fuel umask (m_ours input) name (add_conflict name st1)
                else Some (add_conflict name st1, Inr ())
              else Some (st1, Inr ())))"

definition merge_link ::
  "nat \<Rightarrow> 32 word \<Rightarrow> mergeInput \<Rightarrow> string \<Rightarrow> manifest_entry \<Rightarrow> manifest_entry \<Rightarrow> manifest_entry \<Rightarrow> merge_state \<Rightarrow>
    unit merge_res option" where
  "merge_link fuel umask input name baseEntry oursEntry remoteEntry st =
     (case mergeString (Target baseEntry) (Target oursEntry) (Target remoteEntry) of
        (target, targetOK) \<Rightarrow>
          if \<not> targetOK \<or> \<not> snd (mergeMode (Mode baseEntry) True (Mode oursEntry) (Mode remoteEntry))
          then refuse fuel umask input name st
          else
            then_merge (Some (on_fs (MkdirAll umask (path_dir name) 0x1C0) st)) (\<lambda>_ st1.
              Some (on_fs (create_node name (FLink target)) st1)))"

definition entry_of :: "mergeTree \<Rightarrow> string \<Rightarrow> manifest_entry option" where
  "entry_of t name = map_of (tree_entries t) name"

definition base_mode :: "manifest_entry option \<Rightarrow> 32 word" where
  "base_mode e = (case e of None \<Rightarrow> 0 | Some e \<Rightarrow> Mode e)"

primrec mergeTreePath ::
  "nat \<Rightarrow> (bytes \<Rightarrow> bytes \<Rightarrow> bytes \<Rightarrow> git_result) \<Rightarrow> nat \<Rightarrow> 32 word \<Rightarrow> mergeInput \<Rightarrow> string \<Rightarrow> merge_state \<Rightarrow>
    unit merge_res option" where
  "mergeTreePath 0 git fuel umask input name st = None"
| "mergeTreePath (Suc n) git fuel umask input name st =
     (if name \<notin> set (oursRemote input) then copyMergeSubtree fuel umask (m_ours input) name st
      else if name \<notin> set (baseOurs input) then copyMergeSubtree fuel umask (m_remote input) name st
      else if name \<notin> set (baseRemote input) then copyMergeSubtree fuel umask (m_ours input) name st
      else
        let baseE = entry_of (m_base input) name
        in case (entry_of (m_ours input) name, entry_of (m_remote input) name) of
             (Some oursEntry, Some remoteEntry) \<Rightarrow>
               if Type oursEntry = EntryDir \<and> Type remoteEntry = EntryDir \<and>
                  (case baseE of None \<Rightarrow> True | Some e \<Rightarrow> Type e = EntryDir) then
                 (case mergeMode (base_mode baseE) (baseE \<noteq> None) (Mode oursEntry) (Mode remoteEntry) of
                    (mode, ok) \<Rightarrow>
                      if \<not> ok then refuse fuel umask input name st
                      else
                        then_merge (Some (on_fs (MkdirAll umask name (mode OR 0x1C0)) st)) (\<lambda>_ st1.
                        then_merge (each_merge (mergeTreePath n git fuel umask input)
                            (mergeChildren name [m_base input, m_ours input, m_remote input]) st1) (\<lambda>_ st2.
                          Some (on_fs (Chmod name mode) st2))))
               else (case baseE of
                       None \<Rightarrow> refuse fuel umask input name st
                     | Some baseEntry \<Rightarrow>
                         if Type baseEntry = EntryFile \<and> Type oursEntry = EntryFile \<and> Type remoteEntry = EntryFile
                         then merge_file git fuel umask input name baseEntry oursEntry remoteEntry st
                         else if Type baseEntry = EntrySymlink \<and> Type oursEntry = EntrySymlink \<and> Type remoteEntry = EntrySymlink
                         then merge_link fuel umask input name baseEntry oursEntry remoteEntry st
                         else refuse fuel umask input name st)
           | _ \<Rightarrow> refuse fuel umask input name st)"

definition mergeMetadataPath :: "nat \<Rightarrow> 32 word \<Rightarrow> mergeInput \<Rightarrow> string \<Rightarrow> merge_state \<Rightarrow> unit merge_res option" where
  "mergeMetadataPath fuel umask input name st =
     (case (entry_of (m_base input) name, entry_of (m_ours input) name, entry_of (m_remote input) name) of
        (Some baseEntry, Some oursEntry, Some remoteEntry) \<Rightarrow>
          if Type baseEntry \<noteq> EntryDir \<or> Type oursEntry \<noteq> EntryDir \<or> Type remoteEntry \<noteq> EntryDir
          then refuse fuel umask input name st
          else
            (case mergeMode (Mode baseEntry) True (Mode oursEntry) (Mode remoteEntry) of
               (merged, ok) \<Rightarrow>
                 if \<not> ok \<and> \<not> materializeConflicts input then Some (add_conflict name st, Inr ())
                 else
                   let mode = (if ok then merged else Mode oursEntry)
                   in then_merge (Some (on_fs (MkdirAll umask name (mode OR 0x1C0)) (if ok then st else add_conflict name st)))
                        (\<lambda>_ st1. Some (on_fs (Chmod name mode) st1)))
      | _ \<Rightarrow> refuse fuel umask input name st)"

definition merge_input :: "mergeTree \<Rightarrow> mergeTree \<Rightarrow> mergeTree \<Rightarrow> bool \<Rightarrow> mergeInput" where
  "merge_input base local remote materialize =
     \<lparr>m_base = base, m_ours = local, m_remote = remote,
      baseOurs = changedSubtrees (tree_entries base) (tree_entries local),
      baseRemote = changedSubtrees (tree_entries base) (tree_entries remote),
      oursRemote = changedSubtrees (tree_entries local) (tree_entries remote),
      materializeConflicts = materialize\<rparr>"

definition mergeChangeRoots ::
  "nat \<Rightarrow> (bytes \<Rightarrow> bytes \<Rightarrow> bytes \<Rightarrow> git_result) \<Rightarrow> 32 word \<Rightarrow>
    (string \<times> fs_node) list \<Rightarrow> (string \<times> fs_node) list \<Rightarrow> (string \<times> fs_node) list \<Rightarrow> fs \<Rightarrow>
    change_bundle \<Rightarrow> string list \<Rightarrow> manifest \<Rightarrow> bool \<Rightarrow> (fs \<times> string list \<times> merge_error option) option" where
  "mergeChangeRoots fuel git umask baseRoot oursRoot remoteRoot mergedRoot bundle paths ours materialize =
     (let input = merge_input (newMergeTree baseRoot (BaseManifest bundle)) (newMergeTree oursRoot ours)
            (newMergeTree remoteRoot (RemoteManifest bundle)) materialize
      in case each_merge (\<lambda>p st.
                if p \<in> set (MetadataPaths bundle) then mergeMetadataPath fuel umask input p st
                else mergeTreePath fuel git fuel umask input p st) paths (mergedRoot, []) of
           None \<Rightarrow> None
         | Some ((fs, conflicts), Inl e) \<Rightarrow> Some (fs, [], Some e)
         | Some ((fs, conflicts), Inr _) \<Rightarrow>
             let conflictPaths = sort conflicts
             in Some (fs, conflictPaths,
                  if conflictPaths \<noteq> [] \<and> \<not> materialize then Some (MergeConflictError conflictPaths) else None))"

subsection \<open>Recorded conflicts\<close>

text \<open>A step keeps the recorded conflicts and adds only ones that \<open>P\<close> allows.\<close>

definition conf :: "(string \<Rightarrow> bool) \<Rightarrow> merge_state \<Rightarrow> 'a merge_res option \<Rightarrow> bool" where
  "conf P st r \<longleftrightarrow> (\<forall>st' x. r = Some (st', x) \<longrightarrow>
     set (snd st) \<subseteq> set (snd st') \<and> set (snd st') \<subseteq> set (snd st) \<union> {c. P c})"

lemma conf_simps [simp]: "conf P st None" "conf P st (Some (st, x))"
  by (simp_all add: conf_def)

lemma conf_on_fs [simp]: "conf P st (Some (on_fs f st))"
  by (auto simp: conf_def on_fs_def split: prod.splits)

lemma conf_add: "P name \<Longrightarrow> conf P (add_conflict name st) r \<Longrightarrow> conf P st r"
  unfolding conf_def add_conflict_def by fastforce

lemma conf_trans:
  "conf P st1 r \<Longrightarrow> set (snd st) \<subseteq> set (snd st1) \<Longrightarrow> set (snd st1) \<subseteq> set (snd st) \<union> {c. P c} \<Longrightarrow> conf P st r"
  unfolding conf_def by fastforce

lemma conf_added: "P name \<Longrightarrow> conf P st (Some (add_conflict name st, x))"
  by (rule conf_add [where name = name and P = P]) simp_all

lemma conf_then:
  assumes "conf P st r" "\<And>a st1. conf P st1 (k a st1)"
  shows "conf P st (then_merge r k)"
proof (cases r)
  case (Some p)
  obtain st1 x where p: "p = (st1, x)" by fastforce
  have st1: "set (snd st) \<subseteq> set (snd st1)" "set (snd st1) \<subseteq> set (snd st) \<union> {c. P c}"
    using assms(1) Some p by (simp_all add: conf_def)
  show ?thesis
  proof (cases x)
    case (Inl e)
    then show ?thesis using st1 Some p by (simp add: then_merge_def conf_def)
  next
    case (Inr a)
    then have k: "then_merge r k = k a st1" using Some p by (simp add: then_merge_def)
    show ?thesis unfolding k by (rule conf_trans [OF assms(2) st1])
  qed
qed (simp add: then_merge_def)

lemma conf_each: "(\<And>x st. x \<in> set xs \<Longrightarrow> conf P st (f x st)) \<Longrightarrow> conf P st (each_merge f xs st)"
  by (induction xs arbitrary: st) (auto intro!: conf_then)

lemma conf_scratch: "conf P st (copyMergeScratch n umask disk p st)"
proof (induction n arbitrary: p st)
  case (Suc n)
  then show ?case
    by (auto simp: Let_def intro!: conf_then conf_each split: sum.split fs_node.split)
qed simp

lemma conf_modes: "conf P st (restoreMergeSubtreeModes source name st)"
  unfolding restoreMergeSubtreeModes_def Let_def by (rule conf_each) (simp split: option.split)

lemma conf_copy: "conf P st (copyMergeSubtree fuel umask source name st)"
  unfolding copyMergeSubtree_def by (simp add: conf_then conf_scratch conf_modes)

lemma conf_refuse: "P name \<Longrightarrow> conf P st (refuse fuel umask input name st)"
  unfolding refuse_def by (rule conf_add [where name = name and P = P]) (simp_all add: conf_copy)

lemma snd_on_fs: "on_fs f st = (st', r) \<Longrightarrow> snd st' = snd st"
  by (auto simp: on_fs_def split: prod.splits)

lemma conf_case:
  assumes "snd st' = snd st"
  shows "conf P st (Some (st', x))"
  using assms by (simp add: conf_def)

lemma conf_regular: "conf P st (Some (mergeRegularFile git umask ours base remote name mode materialize st))"
proof -
  let ?inputs = "bind_res (open_file (root ours) name) (\<lambda>o'.
      if isBinaryFile o' then Inr None
      else bind_res (open_file (root base) name) (\<lambda>b'.
        if isBinaryFile b' then Inr None
        else bind_res (open_file (root remote) name) (\<lambda>r'. if isBinaryFile r' then Inr None else Inr (Some (o', b', r')))))"
  obtain st1 r1 where m: "on_fs (MkdirAll umask (path_dir name) 0x1C0) st = (st1, r1)" by fastforce
  obtain st2 r2 where c: "on_fs (create_node name (FFile [] (0x180 AND NOT umask))) st1 = (st2, r2)" by fastforce
  have s: "snd st1 = snd st" "snd st2 = snd st" using snd_on_fs [OF m] snd_on_fs [OF c] by simp_all
  let ?fin = "\<lambda>out. on_fs (Chmod name (mode AND 0x1FF)) ((fst st2)(name \<mapsto> FFile out (0x180 AND NOT umask)), snd st2)"
  have f: "snd st3 = snd st" if "?fin out = (st3, r3)" for out st3 r3 using snd_on_fs [OF that] s by simp
  have fin: "conf P st (Some (case ?fin out of (st3, Inl e) \<Rightarrow> (((fst st2)(name := None), snd st2), Inl e) | (st3, Inr _) \<Rightarrow> (st3, Inr x)))"
    for out and x :: regularMergeResult
    using s f by (cases "?fin out"; cases "snd (?fin out)") (auto simp: conf_def)
  show ?thesis
  proof (cases ?inputs)
    case (Inl e)
    then show ?thesis by (simp add: mergeRegularFile_def)
  next
    case (Inr v)
    then show ?thesis
      using s fin m c
      by (cases v; cases r1; cases r2) (auto simp: mergeRegularFile_def Let_def conf_case split: git_result.split)
  qed
qed

lemma conf_file:
  assumes "P name"
  shows "conf P st (merge_file git fuel umask input name e1 e2 e3 st)"
proof -
  obtain mode ok where m: "mergeMode (Mode e1) True (Mode e2) (Mode e3) = (mode, ok)" by fastforce
  let ?k = "\<lambda>result st1. if result \<noteq> regularMergeClean then
      if materializeConflicts input \<and> result = regularMergeBinaryConflict
      then copyMergeSubtree fuel umask (m_ours input) name (add_conflict name st1)
      else Some (add_conflict name st1, Inr ())
    else Some (st1, Inr ())"
  have k: "conf P st1 (?k result st1)" for result st1
    using conf_add [of P name st1, OF assms, OF conf_copy] by (simp add: conf_added [of P, OF assms])
  have run: "conf P st1 (then_merge (Some (mergeRegularFile git umask (m_ours input) (m_base input) (m_remote input) name x y st1)) ?k)" for st1 x y
    by (rule conf_then [OF conf_regular k])
  show ?thesis
    using run [of st] conf_add [of P name st, OF assms, OF run]
    by (cases ok) (simp_all add: merge_file_def m conf_added [of P, OF assms])
qed

lemma conf_link: "P name \<Longrightarrow> conf P st (merge_link fuel umask input name e1 e2 e3 st)"
  unfolding merge_link_def by (auto split: prod.split intro!: conf_then conf_refuse)

lemma conf_tree:
  assumes "\<And>c. c \<in> set (oursRemote input) \<Longrightarrow> c \<in> set (baseOurs input) \<Longrightarrow> c \<in> set (baseRemote input) \<Longrightarrow> P c"
  shows "conf P st (mergeTreePath n git fuel umask input name st)"
proof (induction n arbitrary: name st)
  case (Suc n)
  show ?case
  proof (cases "name \<in> set (oursRemote input) \<and> name \<in> set (baseOurs input) \<and> name \<in> set (baseRemote input)")
    case True
    then have P: "P name" using assms by blast
    show ?thesis using True
      by (auto simp: Let_def Suc conf_refuse [of P, OF P] conf_file [of P, OF P] conf_link [of P, OF P]
          intro!: conf_then conf_each split: option.split prod.split)
  next
    case False
    then show ?thesis by (auto simp: conf_copy)
  qed
qed simp

subsection \<open>Changed subtrees\<close>

lemma mark_iff: "rel_path p \<Longrightarrow> c \<in> set (mark p) \<longleftrightarrow> rel_path c \<and> at_or_below c p"
  using in_parent_dirs_iff [of p c] by (auto simp: mark_def rel_path_def)

lemma differs_key: "map_of r p \<noteq> map_of l p \<Longrightarrow> p \<in> fst ` set l \<union> fst ` set r"
  by (metis Un_iff map_of_eq_None_iff)

text \<open>A subtree is marked as changed exactly when some path in it has different values.\<close>

lemma changedSubtrees_iff:
  assumes "\<forall>p \<in> fst ` set l \<union> fst ` set r. rel_path p" "rel_path c"
  shows "c \<in> set (changedSubtrees l r) \<longleftrightarrow> (\<exists>p. at_or_below c p \<and> map_of l p \<noteq> map_of r p)"
proof
  assume "c \<in> set (changedSubtrees l r)"
  then obtain p where p: "p \<in> fst ` set l \<union> fst ` set r" "map_of r p \<noteq> map_of l p" "c \<in> set (mark p)"
    by (auto simp: changedSubtrees_def)
  then have "at_or_below c p" using mark_iff assms(1) by blast
  then show "\<exists>p. at_or_below c p \<and> map_of l p \<noteq> map_of r p" using p(2) by metis
next
  assume "\<exists>p. at_or_below c p \<and> map_of l p \<noteq> map_of r p"
  then obtain p where p: "at_or_below c p" "map_of r p \<noteq> map_of l p" by metis
  have key: "p \<in> fst ` set l \<union> fst ` set r" by (rule differs_key [OF p(2)])
  then have "c \<in> set (mark p)" using mark_iff assms p(1) by blast
  then show "c \<in> set (changedSubtrees l r)" using key p(2) unfolding changedSubtrees_def by auto
qed

lemma changedSubtrees_rel:
  assumes "\<forall>p \<in> fst ` set l \<union> fst ` set r. rel_path p" "c \<in> set (changedSubtrees l r)"
  shows "rel_path c"
proof -
  obtain p where "p \<in> fst ` set l \<union> fst ` set r" "c \<in> set (mark p)" using assms(2) by (auto simp: changedSubtrees_def)
  then show ?thesis using mark_iff assms(1) by blast
qed

lemma tree_keys: "fst ` set (tree_entries (newMergeTree disk m)) = Path ` set (slice (Entries m))"
  by (simp add: newMergeTree_def image_image)

lemma tree_at: "path_sorted (slice (Entries m)) \<Longrightarrow> map_of (tree_entries (newMergeTree disk m)) p = entry_at (slice (Entries m)) p"
proof -
  assume s: "path_sorted (slice (Entries m))"
  let ?es = "slice (Entries m)"
  have d: "distinct (map fst (map (\<lambda>e. (Path e, e)) ?es))" using s by (simp add: strict_sorted_iff comp_def)
  have "map_of (tree_entries (newMergeTree disk m)) = map_of (map (\<lambda>e. (Path e, e)) ?es)"
    using d by (subst map_of_inject_set) (simp_all add: newMergeTree_def rev_map [symmetric] distinct_rev)
  moreover have "map_of (map (\<lambda>e. (Path e, e)) es) p = entry_at es p" for es by (induction es) auto
  ultimately show ?thesis by simp
qed

subsection \<open>Conflicts are real\<close>

lemma mergeMode_conflict: "mergeMode b True x y = (m, False) \<Longrightarrow> b \<noteq> x \<and> b \<noteq> y \<and> x \<noteq> y"
  by (auto simp: mergeMode_def split: if_splits)

lemma conf_metadata:
  assumes "entry_of (m_base input) name = Some e" "Type e = EntryDir"
    and "entry_of (m_remote input) name = Some e'" "Type e' = EntryDir" "e \<noteq> e'"
    and "entry_of (m_ours input) name \<noteq> Some e \<Longrightarrow> entry_of (m_ours input) name \<noteq> Some e' \<Longrightarrow> P name"
  shows "conf P st (mergeMetadataPath fuel umask input name st)"
proof (cases "entry_of (m_ours input) name")
  case None
  then have "P name" using assms(6) by simp
  then show ?thesis using None by (simp add: mergeMetadataPath_def assms conf_refuse)
next
  case (Some x)
  obtain mode ok where m: "mergeMode (Mode e) True (Mode x) (Mode e') = (mode, ok)" by fastforce
  show ?thesis
  proof (cases "Type x = EntryDir \<and> ok")
    case True
    then show ?thesis using Some m by (simp add: mergeMetadataPath_def assms Let_def conf_then)
  next
    case False
    then have "x \<noteq> e \<and> x \<noteq> e'" using assms(2,4) mergeMode_conflict [of "Mode e" "Mode x" "Mode e'" mode] m by auto
    then have P: "P name" using assms(6) Some by simp
    have "conf P st (then_merge (Some (on_fs f (add_conflict name st))) (\<lambda>_ st1. Some (on_fs g st1)))" for f g
      by (rule conf_add [where name = name and P = P, OF P], rule conf_then) simp_all
    then show ?thesis using Some m False P
      by (auto simp: mergeMetadataPath_def assms Let_def conf_refuse conf_added)
  qed
qed

lemma metadata_sides:
  assumes "bundle_ok lower os b" "p \<in> set (MetadataPaths b)"
  obtains x y where "entry_at (slice (Entries (BaseManifest b))) p = Some x" "Type x = EntryDir"
    "entry_at (slice (Entries (RemoteManifest b))) p = Some y" "Type y = EntryDir" "x \<noteq> y"
proof -
  have so: "path_sorted (slice (Entries (BaseManifest b)))" "path_sorted (slice (Entries (RemoteManifest b)))"
    and sub: "set (MetadataPaths b) \<subseteq> set (Paths b)"
    using assms(1) by (simp_all add: bundle_ok_def bundle_manifest_ok_def)
  have v: "value_ok b p" using assms sub by (auto simp: bundle_ok_def)
  then obtain x y where xy: "side b (BaseManifest b) p = [x]" "side b (RemoteManifest b) p = [y]" "Path x = p" "Path y = p"
    "Type x = EntryDir" "Type y = EntryDir" using assms(2) unfolding value_ok_def by blast
  have ne: "x \<noteq> y" using v unfolding value_ok_def xy(1,2) by blast
  have "set (side b m p) \<subseteq> set (slice (Entries m))" for m by (auto simp: side_def)
  from this [of "BaseManifest b"] this [of "RemoteManifest b"]
  have "x \<in> set (slice (Entries (BaseManifest b)))" "y \<in> set (slice (Entries (RemoteManifest b)))" using xy(1,2) by simp_all
  then show ?thesis using that xy ne sorted_find [OF so(1), of p x] sorted_find [OF so(2), of p y] by blast
qed

text \<open>Two manifests differ somewhere at or below a path.\<close>

definition differ_below :: "string \<Rightarrow> manifest \<Rightarrow> manifest \<Rightarrow> bool" where
  "differ_below c m m' \<longleftrightarrow> (\<exists>p. at_or_below c p \<and> entry_at (slice (Entries m)) p \<noteq> entry_at (slice (Entries m')) p)"

lemma differ_at: "entry_at (slice (Entries m)) p \<noteq> entry_at (slice (Entries m')) p \<Longrightarrow> differ_below p m m'"
  unfolding differ_below_def by blast

lemma changed_differ:
  assumes "path_sorted (slice (Entries m))" "path_sorted (slice (Entries m'))"
    and "\<forall>p \<in> Path ` set (slice (Entries m)). rel_path p" "\<forall>p \<in> Path ` set (slice (Entries m')). rel_path p"
    and "c \<in> set (changedSubtrees (tree_entries (newMergeTree d m)) (tree_entries (newMergeTree d' m')))"
  shows "differ_below c m m'"
proof -
  let ?l = "tree_entries (newMergeTree d m)" and ?r = "tree_entries (newMergeTree d' m')"
  have rel: "\<forall>p \<in> fst ` set ?l \<union> fst ` set ?r. rel_path p" using assms(3,4) by (simp add: tree_keys ball_Un)
  show ?thesis
    using changedSubtrees_iff [OF rel changedSubtrees_rel [OF rel assms(5)]] assms(5)
    unfolding differ_below_def tree_at [OF assms(1)] tree_at [OF assms(2)] by blast
qed

lemma merge_conflicts_real:
  assumes "bundle_ok lower os b" "inventory_ok os (slice (Entries ours))"
    and "mergeChangeRoots fuel git umask baseRoot oursRoot remoteRoot fs0 b paths ours materialize = Some (fs, conflicts, err)"
    and "c \<in> set conflicts"
  shows "differ_below c (BaseManifest b) ours \<and> differ_below c (BaseManifest b) (RemoteManifest b) \<and>
    differ_below c ours (RemoteManifest b)"
proof -
  let ?base = "newMergeTree baseRoot (BaseManifest b)" and ?ours = "newMergeTree oursRoot ours"
    and ?remote = "newMergeTree remoteRoot (RemoteManifest b)"
  let ?input = "merge_input ?base ?ours ?remote materialize"
  let ?P = "\<lambda>c. differ_below c (BaseManifest b) ours \<and> differ_below c (BaseManifest b) (RemoteManifest b) \<and>
    differ_below c ours (RemoteManifest b)"
  note parts = bundle_ok_parts [OF assms(1)]
  have so: "path_sorted (slice (Entries (BaseManifest b)))" "path_sorted (slice (Entries (RemoteManifest b)))"
    "path_sorted (slice (Entries ours))" using parts(5,6) assms(2) by (simp_all add: inventory_ok_def)
  have rel: "\<forall>p \<in> Path ` set (slice (Entries (BaseManifest b))). rel_path p"
    "\<forall>p \<in> Path ` set (slice (Entries (RemoteManifest b))). rel_path p" "\<forall>p \<in> Path ` set (slice (Entries ours)). rel_path p"
    using parts(7,8) inventory_rel_paths [OF assms(2)] by blast+
  have tree: "conf ?P st (mergeTreePath n git f umask ?input name st)" for n f name st
  proof (rule conf_tree)
    fix x
    assume x: "x \<in> set (oursRemote ?input)" "x \<in> set (baseOurs ?input)" "x \<in> set (baseRemote ?input)"
    show "?P x"
      using changed_differ [OF so(1,3) rel(1,3), of x baseRoot oursRoot] changed_differ [OF so(1,2) rel(1,2), of x baseRoot remoteRoot]
        changed_differ [OF so(3,2) rel(3,2), of x oursRoot remoteRoot] x by (simp add: merge_input_def)
  qed
  have meta: "conf ?P st (mergeMetadataPath f umask ?input p st)" if p: "p \<in> set (MetadataPaths b)" for f p st
  proof -
    obtain x y where xy: "entry_at (slice (Entries (BaseManifest b))) p = Some x" "Type x = EntryDir"
      "entry_at (slice (Entries (RemoteManifest b))) p = Some y" "Type y = EntryDir" "x \<noteq> y"
      using metadata_sides [OF assms(1) p] .
    have e: "entry_of (m_base ?input) p = Some x" "entry_of (m_remote ?input) p = Some y"
      "entry_of (m_ours ?input) p = entry_at (slice (Entries ours)) p"
      using xy by (simp_all add: merge_input_def entry_of_def tree_at so)
    show ?thesis
    proof (rule conf_metadata [OF e(1) xy(2) e(2) xy(4,5)])
      assume "entry_of (m_ours ?input) p \<noteq> Some x" "entry_of (m_ours ?input) p \<noteq> Some y"
      then show "?P p" using xy(1,3,5) unfolding e(3) by (intro conjI differ_at) auto
    qed
  qed
  have "conf ?P (fs0, []) (each_merge (\<lambda>p st. if p \<in> set (MetadataPaths b) then mergeMetadataPath fuel umask ?input p st
      else mergeTreePath fuel git fuel umask ?input p st) paths (fs0, []))"
    by (rule conf_each) (simp add: tree meta)
  then show ?thesis
    using assms(3,4) by (auto simp: mergeChangeRoots_def Let_def conf_def split: option.splits sum.splits prod.splits)
qed

subsection \<open>Enough fuel\<close>

definition returns :: "'a option \<Rightarrow> bool" where
  "returns r \<longleftrightarrow> r \<noteq> None"

lemma returns_Some [simp]: "returns (Some x)"
  by (simp add: returns_def)

lemma then_merge_total: "returns r \<Longrightarrow> (\<And>a st. returns (k a st)) \<Longrightarrow> returns (then_merge r k)"
  by (auto simp: then_merge_def returns_def split: option.splits sum.splits)

lemma each_merge_total: "(\<And>x st. x \<in> set xs \<Longrightarrow> returns (f x st)) \<Longrightarrow> returns (each_merge f xs st)"
  by (induction xs arbitrary: st) (auto intro!: then_merge_total)

lemma child_longer:
  assumes "rel_path q" "path_dir q = p" "rel_path p"
  shows "length p < length q"
proof -
  have "IsClean q" "p \<noteq> ''.''" using assms by (simp_all add: rel_path_def)
  then have d: "Dir q = p" "p \<noteq> ''/''" using assms(2,3) Dir_path_dir by (auto simp: rel_path_def has_prefix_def)
  then have "p \<in> set (parent_dirs q)" using \<open>p \<noteq> ''.''\<close> by (subst parent_dirs.simps) (simp add: Let_def)
  then show ?thesis using parent_dirs_shorter [OF assms(1)] by blast
qed

text \<open>The paths of a tree are relative and no longer than \<open>B\<close>.\<close>

definition bounded :: "nat \<Rightarrow> string set \<Rightarrow> bool" where
  "bounded B ps \<longleftrightarrow> (\<forall>p \<in> ps. p = ''.'' \<or> (rel_path p \<and> length p \<le> B))"

lemma copyMergeScratch_total:
  assumes "bounded B (fst ` set disk)"
  shows "rel_path p \<Longrightarrow> 0 < n \<Longrightarrow> B < n + length p \<Longrightarrow> returns (copyMergeScratch n umask disk p st)"
proof (induction n arbitrary: p st)
  case (Suc n)
  have "returns (copyMergeScratch n umask disk q st')" if q: "q \<in> set (ReadDir disk p)" for q st'
  proof -
    have q': "q \<in> fst ` set disk" "q \<noteq> ''.''" "path_dir q = p" using q by (auto simp: ReadDir_def)
    then have "rel_path q" "length q \<le> B" using assms by (auto simp: bounded_def)
    moreover from this have "length p < length q" using child_longer q'(3) Suc.prems(1) by blast
    ultimately show ?thesis using Suc.IH [of q] Suc.prems(3) by simp
  qed
  then have "returns (each_merge (copyMergeScratch n umask disk) (ReadDir disk p) st')" for st' by (intro each_merge_total)
  then show ?case
    by (auto simp: Let_def intro!: then_merge_total split: sum.split fs_node.split)
qed simp

lemma copyMergeSubtree_total:
  assumes "bounded B (fst ` set (root source))" "rel_path name" "B < fuel"
  shows "returns (copyMergeSubtree fuel umask source name st)"
proof -
  have "returns (copyMergeScratch fuel umask (root source) name st1)" for st1
    using copyMergeScratch_total [OF assms(1,2)] assms(3) by simp
  moreover have "returns (restoreMergeSubtreeModes source name st1)" for st1
    unfolding restoreMergeSubtreeModes_def Let_def by (rule each_merge_total) (simp split: option.split)
  ultimately show ?thesis
    unfolding copyMergeSubtree_def by (auto intro!: then_merge_total)
qed

lemma refuse_total:
  assumes "bounded B (fst ` set (root (m_ours input)))" "rel_path name" "B < fuel"
  shows "returns (refuse fuel umask input name st)"
  unfolding refuse_def using copyMergeSubtree_total [OF assms] by simp

lemma merge_file_total:
  assumes "bounded B (fst ` set (root (m_ours input)))" "rel_path name" "B < fuel"
  shows "returns (merge_file git fuel umask input name e1 e2 e3 st)"
  unfolding merge_file_def
  by (auto simp: copyMergeSubtree_total [OF assms] split: prod.split intro!: then_merge_total)

lemma merge_link_total:
  assumes "bounded B (fst ` set (root (m_ours input)))" "rel_path name" "B < fuel"
  shows "returns (merge_link fuel umask input name e1 e2 e3 st)"
  unfolding merge_link_def
  by (auto simp: refuse_total [OF assms] split: prod.split intro!: then_merge_total)

definition input_bounded :: "nat \<Rightarrow> mergeInput \<Rightarrow> bool" where
  "input_bounded B input \<longleftrightarrow> (\<forall>t \<in> {m_base input, m_ours input, m_remote input}.
     bounded B (fst ` set (root t)) \<and> (\<forall>p. \<forall>q \<in> set (children t p). path_dir q = p \<and> rel_path q \<and> length q \<le> B))"

lemma mergeTreePath_total:
  assumes "input_bounded B input" "B < fuel"
  shows "rel_path p \<Longrightarrow> 0 < n \<Longrightarrow> B < n + length p \<Longrightarrow> returns (mergeTreePath n git fuel umask input p st)"
proof (induction n arbitrary: p st)
  case (Suc n)
  have b: "bounded B (fst ` set (root t))" if "t \<in> {m_base input, m_ours input, m_remote input}" for t
    using assms(1) that unfolding input_bounded_def by blast
  have ours: "bounded B (fst ` set (root (m_ours input)))" and remote: "bounded B (fst ` set (root (m_remote input)))" using b by blast+
  note copy = copyMergeSubtree_total [OF ours Suc.prems(1) assms(2)] copyMergeSubtree_total [OF remote Suc.prems(1) assms(2)]
  note rest = refuse_total [OF ours Suc.prems(1) assms(2)] merge_file_total [OF ours Suc.prems(1) assms(2)]
    merge_link_total [OF ours Suc.prems(1) assms(2)]
  have "returns (mergeTreePath n git fuel umask input q st')"
    if q: "q \<in> set (mergeChildren p [m_base input, m_ours input, m_remote input])" for q st'
  proof -
    obtain t where t: "t \<in> {m_base input, m_ours input, m_remote input}" "q \<in> set (children t p)"
      using q by (auto simp: mergeChildren_def)
    then have q': "path_dir q = p" "rel_path q" "length q \<le> B" using assms(1) unfolding input_bounded_def by blast+
    moreover from this have "length p < length q" using child_longer Suc.prems(1) by blast
    ultimately show ?thesis using Suc.IH [of q] Suc.prems(3) by simp
  qed
  then have "returns (each_merge (mergeTreePath n git fuel umask input) (mergeChildren p [m_base input, m_ours input, m_remote input]) st')"
    for st' by (intro each_merge_total)
  then show ?case
    by (simp add: Let_def copy rest split: option.split prod.split)
      (auto intro!: then_merge_total)
qed simp

subsection \<open>No conflict is missed\<close>

lemma then_merge_Inr:
  "then_merge r k = Some (st', Inr u) \<longleftrightarrow> (\<exists>a st1. r = Some (st1, Inr a) \<and> k a st1 = Some (st', Inr u))"
  by (auto simp: then_merge_def split: option.splits sum.splits)

lemma on_fs_Inr: "on_fs f st = (st', Inr a) \<Longrightarrow> snd st' = snd st"
  by (rule snd_on_fs)

lemma conf_mono: "conf (\<lambda>_. True) st r \<Longrightarrow> r = Some (st', x) \<Longrightarrow> set (snd st) \<subseteq> set (snd st')"
  by (simp add: conf_def)

lemma each_merge_member:
  assumes "each_merge f xs st = Some (st', Inr u)" "x \<in> set xs" "\<And>x st. conf (\<lambda>_. True) st (f x st)"
  shows "\<exists>st1 st2. f x st1 = Some (st2, Inr ()) \<and> set (snd st2) \<subseteq> set (snd st')"
  using assms(1,2)
proof (induction xs arbitrary: st)
  case (Cons y ys)
  then obtain st1 where st1: "f y st = Some (st1, Inr ())" "each_merge f ys st1 = Some (st', Inr u)"
    by (auto simp: then_merge_Inr)
  have "set (snd st1) \<subseteq> set (snd st')" by (rule conf_mono [OF conf_each st1(2)]) (rule assms(3))
  then show ?case using Cons.IH [OF st1(2)] Cons.prems(2) st1(1) by (cases "x = y") fastforce+
qed simp

lemma refuse_records:
  assumes "refuse fuel umask input name st = Some (st', x)"
  shows "name \<in> set (snd st')"
proof -
  have a: "name \<in> set (snd (add_conflict name st))" by (simp add: add_conflict_def)
  show ?thesis
  proof (cases "materializeConflicts input")
    case True
    then have "copyMergeSubtree fuel umask (m_ours input) name (add_conflict name st) = Some (st', x)"
      using assms by (simp add: refuse_def)
    from conf_mono [OF conf_copy this] a show ?thesis by blast
  next
    case False
    then show ?thesis using assms a by (simp add: refuse_def)
  qed
qed

text \<open>The three files have text that \<open>git\<close> merges without a conflict.\<close>

definition clean_file :: "(bytes \<Rightarrow> bytes \<Rightarrow> bytes \<Rightarrow> git_result) \<Rightarrow> mergeInput \<Rightarrow> string \<Rightarrow> bool" where
  "clean_file git input p \<longleftrightarrow> (\<exists>x b y out. open_file (root (m_ours input)) p = Inr x \<and> open_file (root (m_base input)) p = Inr b \<and>
     open_file (root (m_remote input)) p = Inr y \<and> \<not> isBinaryFile x \<and> \<not> isBinaryFile b \<and> \<not> isBinaryFile y \<and>
     git x b y = GitExit 0 out)"

lemma mergeRegularFile_clean:
  assumes "mergeRegularFile git umask (m_ours input) (m_base input) (m_remote input) name mode materialize st = (st', Inr regularMergeClean)"
  shows "clean_file git input name"
proof -
  obtain x b y where f: "open_file (root (m_ours input)) name = Inr x" "open_file (root (m_base input)) name = Inr b"
    "open_file (root (m_remote input)) name = Inr y" "\<not> isBinaryFile x" "\<not> isBinaryFile b" "\<not> isBinaryFile y"
    using assms by (auto simp: mergeRegularFile_def bind_res_def split: sum.splits if_splits)
  obtain st1 r1 where m: "on_fs (MkdirAll umask (path_dir name) 0x1C0) st = (st1, r1)" by fastforce
  obtain st2 r2 where c: "on_fs (create_node name (FFile [] (0x180 AND NOT umask))) st1 = (st2, r2)" by fastforce
  have "\<exists>out. git x b y = GitExit 0 out"
  proof (cases r1)
    case (Inl e)
    then show ?thesis using assms f m by (simp add: mergeRegularFile_def)
  next
    case r1: (Inr u)
    show ?thesis
    proof (cases r2)
      case (Inl e)
      then show ?thesis using assms f m c r1 by (simp add: mergeRegularFile_def)
    next
      case r2: (Inr u')
      show ?thesis
      proof (cases "git x b y")
        case (GitExit code out)
        show ?thesis
        proof (rule ccontr)
          assume "\<not> ?thesis"
          then have "code \<noteq> 0" using GitExit by simp
          then show False using assms f m c r1 r2 GitExit
            by (auto simp: mergeRegularFile_def Let_def split: if_splits prod.splits sum.splits)
        qed
      next
        case GitNotRun
        then show ?thesis using assms f m c r1 r2 by (simp add: mergeRegularFile_def Let_def)
      qed
    qed
  qed
  then show ?thesis using f unfolding clean_file_def by blast
qed

lemma merge_file_records:
  assumes "merge_file git fuel umask input name e1 e2 e3 st = Some (st', Inr u)"
  shows "name \<in> set (snd st') \<or> (snd (mergeMode (Mode e1) True (Mode e2) (Mode e3)) \<and> clean_file git input name)"
proof -
  obtain mode ok where m: "mergeMode (Mode e1) True (Mode e2) (Mode e3) = (mode, ok)" by fastforce
  have a: "name \<in> set (snd (add_conflict name st1))" for st1 by (simp add: add_conflict_def)
  show ?thesis
  proof (cases "\<not> ok \<and> \<not> materializeConflicts input")
    case True
    then show ?thesis using assms a [of st] by (auto simp: merge_file_def m)
  next
    case False
    let ?st = "if ok then st else add_conflict name st"
    let ?run = "mergeRegularFile git umask (m_ours input) (m_base input) (m_remote input) name
        (if ok then mode else Mode e2) (materializeConflicts input) ?st"
    obtain result st1 where r: "?run = (st1, Inr result)" and k: "(if result \<noteq> regularMergeClean then
          if materializeConflicts input \<and> result = regularMergeBinaryConflict
          then copyMergeSubtree fuel umask (m_ours input) name (add_conflict name st1)
          else Some (add_conflict name st1, Inr ())
        else Some (st1, Inr ())) = Some (st', Inr u)"
      using assms unfolding merge_file_def m prod.case if_not_P [OF False] then_merge_Inr by blast
    show ?thesis
    proof (cases "result = regularMergeClean")
      case True
      then have "clean_file git input name" using mergeRegularFile_clean r by blast
      moreover have "set (snd ?st) \<subseteq> set (snd st')"
      proof -
        have "conf (\<lambda>_. True) ?st (Some ?run)" by (rule conf_regular)
        from conf_mono [OF this, of st1 "Inr result"] show ?thesis using r k True by simp
      qed
      ultimately show ?thesis using a [of st] m by (cases ok) auto
    next
      case False': False
      then show ?thesis
        using k a [of st1] conf_mono [OF conf_copy [of "\<lambda>_. True" "add_conflict name st1" fuel umask "m_ours input" name], of st' "Inr u"]
        by (auto split: if_splits)
    qed
  qed
qed

lemma merge_link_records:
  assumes "merge_link fuel umask input name e1 e2 e3 st = Some (st', Inr u)"
  shows "name \<in> set (snd st') \<or>
    (snd (mergeString (Target e1) (Target e2) (Target e3)) \<and> snd (mergeMode (Mode e1) True (Mode e2) (Mode e3)))"
  using assms by (auto simp: merge_link_def split: prod.splits if_splits dest: refuse_records)

text \<open>The reference for a path that can be merged: at most one side changed it, or both made the
  same change, or the three values are of one kind and merge as directories, files or links.\<close>

definition mergeable :: "(bytes \<Rightarrow> bytes \<Rightarrow> bytes \<Rightarrow> git_result) \<Rightarrow> mergeInput \<Rightarrow> string \<Rightarrow> bool" where
  "mergeable git input p \<longleftrightarrow>
     entry_of (m_ours input) p = entry_of (m_remote input) p \<or> entry_of (m_base input) p = entry_of (m_ours input) p \<or>
     entry_of (m_base input) p = entry_of (m_remote input) p \<or>
     (\<exists>x y. entry_of (m_ours input) p = Some x \<and> entry_of (m_remote input) p = Some y \<and>
        Type x = EntryDir \<and> Type y = EntryDir \<and> (\<forall>b. entry_of (m_base input) p = Some b \<longrightarrow> Type b = EntryDir) \<and>
        snd (mergeMode (base_mode (entry_of (m_base input) p)) (entry_of (m_base input) p \<noteq> None) (Mode x) (Mode y))) \<or>
     (\<exists>b x y. entry_of (m_base input) p = Some b \<and> entry_of (m_ours input) p = Some x \<and> entry_of (m_remote input) p = Some y \<and>
        snd (mergeMode (Mode b) True (Mode x) (Mode y)) \<and>
        (Type b = EntryFile \<and> Type x = EntryFile \<and> Type y = EntryFile \<and> clean_file git input p \<or>
         Type b = EntrySymlink \<and> Type x = EntrySymlink \<and> Type y = EntrySymlink \<and>
         snd (mergeString (Target b) (Target x) (Target y))))"

text \<open>What the tree of a validated manifest has, and that below a path every entry has its
  directory listed.\<close>

definition tree_ok :: "mergeTree \<Rightarrow> bool" where
  "tree_ok t \<longleftrightarrow>
     (\<forall>p \<in> fst ` set (tree_entries t). rel_path p \<and>
        (\<forall>d \<in> set (parent_dirs p). \<forall>e. entry_of t d = Some e \<longrightarrow> Type e = EntryDir)) \<and>
     (\<forall>d. set (children t d) = {p \<in> fst ` set (tree_entries t). path_dir p = d})"

definition closed_below :: "string \<Rightarrow> string set \<Rightarrow> bool" where
  "closed_below r ps \<longleftrightarrow> (\<forall>p \<in> ps. prefix (r @ ''/'') p \<longrightarrow> Dir p = r \<or> Dir p \<in> ps)"

lemma child_above:
  assumes "tree_ok t" "closed_below name (fst ` set (tree_entries t))" "rel_path name" "p \<in> fst ` set (tree_entries t)" "prefix (name @ ''/'') p"
  shows "\<exists>c \<in> set (children t name). rel_path c \<and> at_or_below c p"
  using assms(4,5)
proof (induction "length p" arbitrary: p rule: less_induct)
  case less
  have rel: "rel_path p" and up: "Dir p = name \<or> Dir p \<in> fst ` set (tree_entries t)"
    using assms(1,2) less.prems by (auto simp: tree_ok_def closed_below_def)
  have clean: "Dir p = path_dir p" using rel Dir_path_dir by (simp add: rel_path_def)
  have mem: "name \<in> set (parent_dirs p)" using less.prems(2) assms(3) in_parent_dirs_iff [OF rel] by simp
  then obtain dirs where dirs: "parent_dirs p = Dir p # dirs"
    by (subst (asm) parent_dirs.simps) (auto simp: Let_def parent_dirs.simps [of p] split: if_splits)
  note d = parent_dirs_Cons [OF rel dirs]
  have below: "prefix (Dir p @ ''/'') p" using in_parent_dirs_iff [OF rel, of "Dir p"] dirs by simp
  show ?case
  proof (cases "name = Dir p")
    case True
    then have "p \<in> set (children t name)" using assms(1) less.prems(1) clean by (simp add: tree_ok_def)
    then show ?thesis using rel by blast
  next
    case False
    then have "name \<in> set (parent_dirs (Dir p))" using mem dirs d(2) by simp
    then have "prefix (name @ ''/'') (Dir p)" using in_parent_dirs_iff [OF d(1)] by simp
    moreover have "Dir p \<in> fst ` set (tree_entries t)" using up False by blast
    ultimately obtain c where c: "c \<in> set (children t name)" "rel_path c" "at_or_below c (Dir p)" using less.hyps d(3) by blast
    have "at_or_below c p"
    proof (cases "c = Dir p")
      case False
      then have "c \<in> set (parent_dirs (Dir p))" using c in_parent_dirs_iff [OF d(1)] by simp
      then show ?thesis using in_parent_dirs_trans [OF rel, of "Dir p" c] dirs in_parent_dirs_iff [OF rel] by simp
    qed (use below in simp)
    then show ?thesis using c by blast
  qed
qed

definition input_ok :: "mergeInput \<Rightarrow> bool" where
  "input_ok input \<longleftrightarrow> tree_ok (m_base input) \<and> tree_ok (m_ours input) \<and> tree_ok (m_remote input) \<and>
     baseOurs input = changedSubtrees (tree_entries (m_base input)) (tree_entries (m_ours input)) \<and>
     baseRemote input = changedSubtrees (tree_entries (m_base input)) (tree_entries (m_remote input)) \<and>
     oursRemote input = changedSubtrees (tree_entries (m_ours input)) (tree_entries (m_remote input))"

lemma unmarked_same:
  assumes "tree_ok t" "tree_ok t'" "rel_path name" "at_or_below name p"
    and "name \<notin> set (changedSubtrees (tree_entries t) (tree_entries t'))"
  shows "entry_of t p = entry_of t' p"
proof -
  have "\<forall>q \<in> fst ` set (tree_entries t) \<union> fst ` set (tree_entries t'). rel_path q" using assms(1,2) by (auto simp: tree_ok_def)
  from changedSubtrees_iff [OF this assms(3)] assms(4,5) show ?thesis unfolding entry_of_def by blast
qed

lemma unmarked_mergeable:
  assumes "input_ok input" "rel_path name" "at_or_below name p"
    and "name \<notin> set (oursRemote input) \<or> name \<notin> set (baseOurs input) \<or> name \<notin> set (baseRemote input)"
  shows "mergeable git input p"
proof -
  have t: "tree_ok (m_base input)" "tree_ok (m_ours input)" "tree_ok (m_remote input)"
    using assms(1) by (simp_all add: input_ok_def)
  have "entry_of (m_ours input) p = entry_of (m_remote input) p \<or> entry_of (m_base input) p = entry_of (m_ours input) p \<or>
      entry_of (m_base input) p = entry_of (m_remote input) p"
    using assms unmarked_same [OF t(2,3) assms(2,3)] unmarked_same [OF t(1,2) assms(2,3)] unmarked_same [OF t(1,3) assms(2,3)]
    by (auto simp: input_ok_def)
  then show ?thesis unfolding mergeable_def by blast
qed

lemma conf_any: "conf (\<lambda>_. True) st (mergeTreePath n git fuel umask input name st)"
  by (rule conf_tree) simp

definition input_closed :: "mergeInput \<Rightarrow> string \<Rightarrow> bool" where
  "input_closed input r \<longleftrightarrow>
     (\<forall>t \<in> {m_base input, m_ours input, m_remote input}. closed_below r (fst ` set (tree_entries t)))"

lemma child_visited:
  assumes "input_ok input" "input_closed input name" "rel_path name" "prefix (name @ ''/'') p" "\<not> mergeable git input p"
  shows "\<exists>c \<in> set (mergeChildren name [m_base input, m_ours input, m_remote input]). rel_path c \<and> at_or_below c p"
proof -
  have "entry_of (m_ours input) p \<noteq> entry_of (m_remote input) p" using assms(5) by (auto simp: mergeable_def)
  then have "p \<in> fst ` set (tree_entries (m_ours input)) \<union> fst ` set (tree_entries (m_remote input))"
    unfolding entry_of_def by (intro differs_key) simp
  then have "\<exists>t \<in> {m_base input, m_ours input, m_remote input}. p \<in> fst ` set (tree_entries t)" by simp
  then obtain t where t: "t \<in> {m_base input, m_ours input, m_remote input}" "p \<in> fst ` set (tree_entries t)" ..
  then have "tree_ok t" "closed_below name (fst ` set (tree_entries t))" using assms(1,2) by (auto simp: input_ok_def input_closed_def)
  from child_above [OF this assms(3) t(2) assms(4)] t(1) show ?thesis by (auto simp: mergeChildren_def)
qed

lemma children_closed:
  assumes "input_ok input" "input_closed input name" "c \<in> set (mergeChildren name [m_base input, m_ours input, m_remote input])"
    and "rel_path name"
  shows "input_closed input c"
proof -
  have c: "path_dir c = name" "rel_path c" using assms(1,3) by (auto simp: mergeChildren_def input_ok_def tree_ok_def)
  have "Dir c = name" using c Dir_path_dir by (simp add: rel_path_def)
  moreover have "name \<noteq> ''.''" "name \<noteq> ''/''" using assms(4) by (auto simp: rel_path_def has_prefix_def)
  ultimately have mem: "name \<in> set (parent_dirs c)" by (subst parent_dirs.simps) (simp add: Let_def)
  have below: "prefix (name @ ''/'') p" if "rel_path p" "prefix (c @ ''/'') p" for p
    using that in_parent_dirs_trans [of p c name] mem c(2) in_parent_dirs_iff [OF that(1)] by simp
  have "closed_below c (fst ` set (tree_entries t))" if t: "t \<in> {m_base input, m_ours input, m_remote input}" for t
    unfolding closed_below_def
  proof (intro ballI impI)
    fix p
    assume p: "p \<in> fst ` set (tree_entries t)" "prefix (c @ ''/'') p"
    have "tree_ok t" "closed_below name (fst ` set (tree_entries t))"
      using assms(1,2) t by (auto simp: input_ok_def input_closed_def)
    then have rel: "rel_path p" and up: "Dir p = name \<or> Dir p \<in> fst ` set (tree_entries t)"
      using p below by (auto simp: tree_ok_def closed_below_def)
    have "Dir p \<noteq> name"
    proof
      assume eq: "Dir p = name"
      have "c \<in> set (parent_dirs p)" using p(2) c(2) in_parent_dirs_iff [OF rel] by simp
      moreover have "set (parent_dirs p) \<subseteq> insert name (set (parent_dirs name))"
        by (subst parent_dirs.simps) (auto simp: Let_def eq)
      moreover have "length name < length c" using child_longer [OF c(2,1) assms(4)] .
      ultimately show False using parent_dirs_shorter [OF assms(4), of c] by auto
    qed
    then show "Dir p = c \<or> Dir p \<in> fst ` set (tree_entries t)" using up by blast
  qed
  then show ?thesis by (simp add: input_closed_def)
qed

text \<open>Where all three values differ, a step records the path, or merges its value and goes on to
  the children of a directory.\<close>

lemma mergeTreePath_step:
  assumes "mergeTreePath (Suc n) git fuel umask input name st = Some (st', Inr u)"
    and "name \<in> set (oursRemote input)" "name \<in> set (baseOurs input)" "name \<in> set (baseRemote input)"
  shows "name \<in> set (snd st') \<or> mergeable git input name \<and>
    ((\<exists>x y. entry_of (m_ours input) name = Some x \<and> Type x \<noteq> EntryDir \<and>
        entry_of (m_remote input) name = Some y \<and> Type y \<noteq> EntryDir) \<or>
     (\<exists>st1 st2. each_merge (mergeTreePath n git fuel umask input) (mergeChildren name [m_base input, m_ours input, m_remote input]) st1 =
        Some (st2, Inr ()) \<and> snd st' = snd st2))"
proof (cases "entry_of (m_ours input) name = None \<or> entry_of (m_remote input) name = None")
  case True
  then show ?thesis using assms refuse_records [of fuel umask input name st st']
    by (auto simp: Let_def split: option.splits)
next
  case False
  then obtain x y where x: "entry_of (m_ours input) name = Some x" and y: "entry_of (m_remote input) name = Some y" by auto
  let ?b = "entry_of (m_base input) name"
  let ?dirs = "Type x = EntryDir \<and> Type y = EntryDir \<and> (case ?b of None \<Rightarrow> True | Some e \<Rightarrow> Type e = EntryDir)"
  obtain mode ok where m: "mergeMode (base_mode ?b) (?b \<noteq> None) (Mode x) (Mode y) = (mode, ok)" by fastforce
  show ?thesis
  proof (cases ?dirs)
    case dirs: True
    show ?thesis
    proof (cases ok)
      case True
      then obtain st1 st2 where s: "each_merge (mergeTreePath n git fuel umask input)
          (mergeChildren name [m_base input, m_ours input, m_remote input]) st1 = Some (st2, Inr ())"
        "on_fs (Chmod name mode) st2 = (st', Inr u)"
        using assms x y dirs m by (auto simp: then_merge_Inr)
      have "snd st' = snd st2" using on_fs_Inr [OF s(2)] .
      moreover have "mergeable git input name"
        unfolding mergeable_def using x y dirs m True by (auto split: option.splits)
      ultimately show ?thesis using s(1) by blast
    next
      case False
      then show ?thesis using assms x y dirs m refuse_records [of fuel umask input name st st' "Inr u"] by simp
    qed
  next
    case nodirs: False
    have run: "(case ?b of None \<Rightarrow> refuse fuel umask input name st
       | Some b \<Rightarrow> if Type b = EntryFile \<and> Type x = EntryFile \<and> Type y = EntryFile
           then merge_file git fuel umask input name b x y st
           else if Type b = EntrySymlink \<and> Type x = EntrySymlink \<and> Type y = EntrySymlink
           then merge_link fuel umask input name b x y st
           else refuse fuel umask input name st) = Some (st', Inr u)"
      using assms x y unfolding mergeTreePath.simps Let_def by (simp only: if_not_P [OF nodirs] not_not if_False prod.case option.case simp_thms)
    show ?thesis
    proof (cases "name \<in> set (snd st')")
      case False
      then obtain b where b: "?b = Some b" using run refuse_records [of fuel umask input name st st' "Inr u"] by (cases ?b) auto
      have "Type b = EntryFile \<and> Type x = EntryFile \<and> Type y = EntryFile \<and>
          merge_file git fuel umask input name b x y st = Some (st', Inr u) \<or>
        Type b = EntrySymlink \<and> Type x = EntrySymlink \<and> Type y = EntrySymlink \<and>
          merge_link fuel umask input name b x y st = Some (st', Inr u)"
        using run b False refuse_records [of fuel umask input name st st' "Inr u"] by (auto split: if_splits)
      then show ?thesis
      proof
        assume f: "Type b = EntryFile \<and> Type x = EntryFile \<and> Type y = EntryFile \<and>
          merge_file git fuel umask input name b x y st = Some (st', Inr u)"
        then have "mergeable git input name"
          unfolding mergeable_def using merge_file_records b x y False by blast
        then show ?thesis using x y f by simp
      next
        assume l: "Type b = EntrySymlink \<and> Type x = EntrySymlink \<and> Type y = EntrySymlink \<and>
          merge_link fuel umask input name b x y st = Some (st', Inr u)"
        then have "mergeable git input name"
          unfolding mergeable_def using merge_link_records b x y False by blast
        then show ?thesis using x y l by simp
      qed
    qed simp
  qed
qed

lemma below_leaf:
  assumes "tree_ok t" "entry_of t name = Some x" "Type x \<noteq> EntryDir" "rel_path name" "prefix (name @ ''/'') p"
  shows "entry_of t p = None"
proof (rule ccontr)
  assume "entry_of t p \<noteq> None"
  then have "p \<in> fst ` set (tree_entries t)" unfolding entry_of_def by (metis map_of_eq_None_iff)
  then have "rel_path p" "\<forall>d \<in> set (parent_dirs p). \<forall>e. entry_of t d = Some e \<longrightarrow> Type e = EntryDir"
    using assms(1) by (auto simp: tree_ok_def)
  then show False using assms(2-5) in_parent_dirs_iff [of p name] by auto
qed

lemma mergeTreePath_complete:
  assumes "input_ok input"
  shows "mergeTreePath n git fuel umask input name st = Some (st', Inr u) \<Longrightarrow> rel_path name \<Longrightarrow> input_closed input name \<Longrightarrow>
    at_or_below name p \<Longrightarrow> mergeable git input p \<or> (\<exists>c \<in> set (snd st'). at_or_below c p)"
proof (induction n arbitrary: name st st' u)
  case (Suc n)
  show ?case
  proof (rule ccontr)
    assume "\<not> ?case"
    then have un: "\<not> mergeable git input p" and none: "\<not> (\<exists>c \<in> set (snd st'). at_or_below c p)" by blast+
    have marked: "name \<in> set (oursRemote input)" "name \<in> set (baseOurs input)" "name \<in> set (baseRemote input)"
      using un unmarked_mergeable [OF assms Suc.prems(2,4)] by blast+
    have no: "name \<notin> set (snd st')" using none Suc.prems(4) by blast
    note step = mergeTreePath_step [OF Suc.prems(1) marked]
    then have "p \<noteq> name" using un no by blast
    then have below: "prefix (name @ ''/'') p" using Suc.prems(4) by auto
    have ok: "tree_ok (m_ours input)" "tree_ok (m_remote input)" using assms by (simp_all add: input_ok_def)
    from step no consider
      x y where "entry_of (m_ours input) name = Some x" "Type x \<noteq> EntryDir"
        "entry_of (m_remote input) name = Some y" "Type y \<noteq> EntryDir"
    | st1 st2 where "each_merge (mergeTreePath n git fuel umask input)
        (mergeChildren name [m_base input, m_ours input, m_remote input]) st1 = Some (st2, Inr ())" "snd st' = snd st2"
      by blast
    then show False
    proof cases
      case 1
      then have "entry_of (m_ours input) p = entry_of (m_remote input) p"
        using below_leaf [OF ok(1) _ _ Suc.prems(2) below] below_leaf [OF ok(2) _ _ Suc.prems(2) below] by metis
      then show False using un by (simp add: mergeable_def)
    next
      case 2
      obtain c where c: "c \<in> set (mergeChildren name [m_base input, m_ours input, m_remote input])" "rel_path c" "at_or_below c p"
        using child_visited [OF assms Suc.prems(3,2) below un] by blast
      obtain st3 st4 where m: "mergeTreePath n git fuel umask input c st3 = Some (st4, Inr ())" "set (snd st4) \<subseteq> set (snd st2)"
        using each_merge_member [OF 2(1) c(1) conf_any] by blast
      have "input_closed input c" using children_closed [OF assms Suc.prems(3) c(1) Suc.prems(2)] .
      from Suc.IH [OF m(1) c(2) this c(3)] un obtain d where d: "d \<in> set (snd st4)" "at_or_below d p" by (elim disjE bexE) simp_all
      have "d \<in> set (snd st')" using d(1) m(2) unfolding 2(2) by (rule rev_subsetD)
      with d(2) have "\<exists>c \<in> set (snd st'). at_or_below c p" by (rule bexI)
      with none show False ..
    qed
  qed
qed simp

lemma mergeMetadataPath_complete:
  assumes "mergeMetadataPath fuel umask input name st = Some (st', Inr u)"
  shows "mergeable git input name \<or> name \<in> set (snd st')"
proof (cases "\<exists>b x y. entry_of (m_base input) name = Some b \<and> entry_of (m_ours input) name = Some x \<and>
    entry_of (m_remote input) name = Some y \<and> Type b = EntryDir \<and> Type x = EntryDir \<and> Type y = EntryDir")
  case True
  then obtain b x y where e: "entry_of (m_base input) name = Some b" "entry_of (m_ours input) name = Some x"
    "entry_of (m_remote input) name = Some y" "Type b = EntryDir" "Type x = EntryDir" "Type y = EntryDir" by blast
  obtain mode ok where m: "mergeMode (Mode b) True (Mode x) (Mode y) = (mode, ok)" by fastforce
  show ?thesis
  proof (cases ok)
    case True
    then show ?thesis unfolding mergeable_def using e m by (simp add: base_mode_def)
  next
    case False
    then have "set (snd (add_conflict name st)) \<subseteq> set (snd st')"
      using assms by (cases "materializeConflicts input") (auto simp: mergeMetadataPath_def e m then_merge_Inr Let_def dest!: on_fs_Inr)
    then show ?thesis by (simp add: add_conflict_def)
  qed
next
  case False
  then have "refuse fuel umask input name st = Some (st', Inr u)"
    using assms by (auto simp: mergeMetadataPath_def split: option.splits if_splits)
  then show ?thesis by (blast dest: refuse_records)
qed

lemma conf_metadata_any: "conf (\<lambda>_. True) st (mergeMetadataPath fuel umask input name st)"
  unfolding mergeMetadataPath_def Let_def
  by (auto split: option.split prod.split intro!: conf_then conf_refuse conf_added intro: conf_add [where name = name])

lemma tree_ok_new:
  assumes "manifest_ok os (slice (Entries m))" "path_sorted (slice (Entries m))" "\<forall>e \<in> set (slice (Entries m)). rel_path (Path e)"
  shows "tree_ok (newMergeTree disk m)"
proof -
  have "Type e = EntryDir" if "x \<in> set (slice (Entries m))" "d \<in> set (parent_dirs (Path x))"
    "entry_of (newMergeTree disk m) d = Some e" for x d e
  proof -
    have "(d, e) \<in> set (tree_entries (newMergeTree disk m))" using that(3) unfolding entry_of_def by (rule map_of_SomeD)
    then have "e \<in> set (slice (Entries m))" "Path e = d" by (auto simp: newMergeTree_def)
    then show ?thesis using assms(1) that(1,2) by (auto simp: manifest_ok_def)
  qed
  moreover have "set (children (newMergeTree disk m) d) = {p \<in> Path ` set (slice (Entries m)). path_dir p = d}" for d
    by (auto simp: newMergeTree_def)
  ultimately show ?thesis unfolding tree_ok_def tree_keys using assms(3) by blast
qed

lemma completed_merge:
  assumes "mergeChangeRoots fuel git umask baseRoot oursRoot remoteRoot fs0 b paths ours materialize = Some (fs, conflicts, err)"
    and "err = None \<or> conflicts \<noteq> []" "r \<in> set paths"
  defines "input \<equiv> merge_input (newMergeTree baseRoot (BaseManifest b)) (newMergeTree oursRoot ours)
      (newMergeTree remoteRoot (RemoteManifest b)) materialize"
  shows "\<exists>st st'. (if r \<in> set (MetadataPaths b) then mergeMetadataPath fuel umask input r st
      else mergeTreePath fuel git fuel umask input r st) = Some (st', Inr ()) \<and> set (snd st') \<subseteq> set conflicts"
proof -
  let ?f = "\<lambda>p st. if p \<in> set (MetadataPaths b) then mergeMetadataPath fuel umask input p st
      else mergeTreePath fuel git fuel umask input p st"
  obtain st1 where st1: "each_merge ?f paths (fs0, []) = Some (st1, Inr ())" "set (snd st1) = set conflicts"
    using assms(1,2) unfolding mergeChangeRoots_def Let_def input_def [symmetric]
    by (auto split: option.splits sum.splits prod.splits)
  have "conf (\<lambda>_. True) st (?f x st)" for x st
    using conf_any conf_metadata_any by simp
  from each_merge_member [OF st1(1) assms(3) this] st1(2) show ?thesis by blast
qed

subsection \<open>Properties\<close>

text \<open>C7. The merge reports a conflict only where there is one: at or below every reported path
  the workspace and the bundle both differ from the common base, and from each other. A change
  made on one side only, or the same change made on both, is never a conflict.\<close>
theorem merge_conflicts_are_real:
  assumes "is_ok (ValidateBundleContext lower os b)" "inventory_ok os (slice (Entries ours))"
    and "mergeChangeRoots fuel git umask baseRoot oursRoot remoteRoot fs0 b paths ours materialize = Some (fs, conflicts, err)"
    and "c \<in> set conflicts"
  shows "differ_below c (BaseManifest b) ours \<and> differ_below c (BaseManifest b) (RemoteManifest b) \<and>
    differ_below c ours (RemoteManifest b)"
  by (rule merge_conflicts_real [OF _ assms(2-4)]) (use assms(1) in \<open>simp add: ValidateBundle_spec\<close>)

lemma sample_conflict:
  "mergeChangeRoots 2 (\<lambda>_ _ _. GitNotRun) 0x12 [] [] [] Map.empty sample_sent [''a''] (dirs [dir_entry ''a'' 0x1FF]) False =
     Some (Map.empty, [''a''], Some (MergeConflictError [''a'']))"
proof -
  let ?input = "merge_input (newMergeTree [] (BaseManifest sample_sent)) (newMergeTree [] (dirs [dir_entry ''a'' 0x1FF]))
      (newMergeTree [] (RemoteManifest sample_sent)) False"
  have e: "entry_of (m_base ?input) ''a'' = Some (dir_entry ''a'' 0x1ED)" "entry_of (m_ours ?input) ''a'' = Some (dir_entry ''a'' 0x1FF)"
    "entry_of (m_remote ?input) ''a'' = Some (dir_entry ''a'' 0x1C0)" "materializeConflicts ?input = False"
    by (simp_all add: merge_input_def entry_of_def newMergeTree_def sample_sent_def sample_bundle_def dirs_def dir_entry_def)
  have "mergeMetadataPath 2 0x12 ?input ''a'' (Map.empty, []) = Some ((Map.empty, [''a'']), Inr ())"
    unfolding mergeMetadataPath_def e by (simp add: dir_entry_def mergeMode_def add_conflict_def)
  moreover have "''a'' \<in> set (MetadataPaths sample_sent)" by (simp add: sample_sent_def sample_bundle_def)
  ultimately show ?thesis unfolding mergeChangeRoots_def Let_def by (simp add: then_merge_def)
qed

theorem merge_conflicts_are_real_witness:
  "differ_below ''a'' (BaseManifest sample_sent) (dirs [dir_entry ''a'' 0x1FF]) \<and>
   differ_below ''a'' (dirs [dir_entry ''a'' 0x1FF]) (RemoteManifest sample_sent)"
proof -
  have "inventory_ok unix (slice (Entries (dirs [dir_entry ''a'' 0x1FF])))" by code_simp
  from merge_conflicts_are_real [OF _ this sample_conflict, of "map ascii_lower" "''a''"] sample_sent_valid show ?thesis by simp
qed

text \<open>C8. The merge misses no conflict. Let the bundle be valid, \<open>r\<close> one of its roots that was asked for,
  and let the base, workspace and bundle manifests list, below \<open>r\<close>, the directory of every entry
  they list (\<open>closed_below\<close>, which validation does not check). When \<open>mergeChangeRoots\<close> ends without
  a file or \<open>git\<close> error, every path at or below \<open>r\<close> (only \<open>r\<close> itself for a metadata root) can
  be merged (at most one side changed it, or both made the same change, or the three values are
  directories, files or links whose modes, texts or targets merge), or it is at or below a
  reported conflict.\<close>
theorem merge_misses_no_conflict:
  assumes "is_ok (ValidateBundleContext lower os b)" "inventory_ok os (slice (Entries ours))"
    and "mergeChangeRoots fuel git umask baseRoot oursRoot remoteRoot fs0 b paths ours materialize = Some (fs, conflicts, err)"
    and "err = None \<or> conflicts \<noteq> []"
    and "r \<in> set paths" "r \<in> set (Paths b)" "if r \<in> set (MetadataPaths b) then p = r else at_or_below r p"
    and "\<forall>m \<in> {BaseManifest b, ours, RemoteManifest b}. closed_below r (Path ` set (slice (Entries m)))"
  shows "mergeable git (merge_input (newMergeTree baseRoot (BaseManifest b)) (newMergeTree oursRoot ours)
      (newMergeTree remoteRoot (RemoteManifest b)) materialize) p \<or> (\<exists>c \<in> set conflicts. at_or_below c p)"
proof -
  let ?input = "merge_input (newMergeTree baseRoot (BaseManifest b)) (newMergeTree oursRoot ours)
      (newMergeTree remoteRoot (RemoteManifest b)) materialize"
  have ok: "bundle_ok lower os b" using assms(1) by (simp add: ValidateBundle_spec)
  note parts = bundle_ok_parts [OF ok]
  have m: "manifest_ok os (slice (Entries (BaseManifest b)))" "manifest_ok os (slice (Entries (RemoteManifest b)))"
    "manifest_ok os (slice (Entries ours))" "path_sorted (slice (Entries ours))"
    using ok assms(2) by (simp_all add: bundle_ok_def bundle_manifest_ok_def inventory_ok_def)
  have trees: "tree_ok (newMergeTree d (BaseManifest b))" "tree_ok (newMergeTree d (RemoteManifest b))" "tree_ok (newMergeTree d ours)" for d
    using tree_ok_new [OF m(1) parts(5,8)] tree_ok_new [OF m(2) parts(6,7)]
      tree_ok_new [OF m(3,4)] inventory_rel_paths [OF assms(2)] by blast+
  have input: "input_ok ?input" using trees by (simp add: input_ok_def merge_input_def)
  have closed: "input_closed ?input r" using assms(8) by (simp add: input_closed_def merge_input_def tree_keys)
  have rel: "rel_path r" using parts(4) assms(6) by blast
  obtain st st' where run: "(if r \<in> set (MetadataPaths b) then mergeMetadataPath fuel umask ?input r st
      else mergeTreePath fuel git fuel umask ?input r st) = Some (st', Inr ())" "set (snd st') \<subseteq> set conflicts"
    using completed_merge [OF assms(3-5)] by blast
  have sub: "\<exists>c \<in> set (snd st'). Q c \<Longrightarrow> \<exists>c \<in> set conflicts. Q c" for Q using run(2) by blast
  show ?thesis
  proof (cases "r \<in> set (MetadataPaths b)")
    case True
    then show ?thesis using run assms(7) mergeMetadataPath_complete [of fuel umask ?input r st st' "()" git] by auto
  next
    case False
    then have "mergeTreePath fuel git fuel umask ?input r st = Some (st', Inr ())" "at_or_below r p" using run(1) assms(7) by simp_all
    from mergeTreePath_complete [OF input this(1) rel closed this(2)] show ?thesis
      by (rule disj_forward) (assumption, erule sub)
  qed
qed

theorem merge_misses_no_conflict_witness:
  "mergeable (\<lambda>_ _ _. GitNotRun) (merge_input (newMergeTree [] (BaseManifest sample_sent)) (newMergeTree [] (dirs [dir_entry ''a'' 0x1FF]))
      (newMergeTree [] (RemoteManifest sample_sent)) False) ''a'' \<or> (\<exists>c \<in> set [''a'']. at_or_below c ''a'')"
proof -
  have "inventory_ok unix (slice (Entries (dirs [dir_entry ''a'' 0x1FF])))" by code_simp
  moreover have "''a'' \<in> set (Paths sample_sent)" "''a'' \<in> set (MetadataPaths sample_sent)"
    by (simp_all add: sample_sent_def sample_bundle_def)
  moreover have "\<forall>m \<in> {BaseManifest sample_sent, dirs [dir_entry ''a'' 0x1FF], RemoteManifest sample_sent}.
      closed_below ''a'' (Path ` set (slice (Entries m)))"
    by (simp add: closed_below_def sample_sent_def sample_bundle_def dirs_def dir_entry_def)
  ultimately show ?thesis
    using merge_misses_no_conflict [OF _ _ sample_conflict, of "map ascii_lower" unix "''a''" "''a''"] sample_sent_valid by simp
qed

text \<open>The listed directories are needed: this bundle is valid, both sides add \<open>a/b/c\<close> with different
  modes and neither lists \<open>a/b\<close>. The merge descends from \<open>a\<close> to the entries whose directory it is,
  never reaches \<open>a/b/c\<close> and reports neither a conflict nor an error.\<close>

definition gap_side :: "32 word \<Rightarrow> manifest" where
  "gap_side mode = dirs [dir_entry ''a'' 0x1ED, dir_entry ''a/b/c'' mode]"

definition gap_bundle :: change_bundle where
  "gap_bundle = sample_sent\<lparr>Paths := [''a''], MetadataPaths := [], BaseManifest := dirs [], RemoteManifest := gap_side 0x1C0\<rparr>"

lemma gap_valid: "is_ok (ValidateBundleContext (map ascii_lower) unix gap_bundle)"
proof -
  have "is_ok (check_metadata (Paths gap_bundle) [] (MetadataPaths gap_bundle))"
    "is_ok (check_roots (map ascii_lower) (MetadataPaths gap_bundle) [] (Paths gap_bundle))"
    "validateBundleManifestContext (map ascii_lower) unix (BaseManifest gap_bundle) (Paths gap_bundle) = Inr 0"
    "validateBundleManifestContext (map ascii_lower) unix (RemoteManifest gap_bundle) (Paths gap_bundle) = Inr 0"
    "\<forall>p \<in> set (Paths gap_bundle). is_ok (check_value gap_bundle p)" "hex_digit CHR ''0''"
    by code_simp+
  moreover have "change_bundle.Bytes gap_bundle = 0" "V gap_bundle = 1" "length (Paths gap_bundle) = 1"
    "length (MetadataPaths gap_bundle) = 0" "length (slice (Entries (BaseManifest gap_bundle))) = 0"
    "length (slice (Entries (RemoteManifest gap_bundle))) = 2" "BaselineRoot gap_bundle = replicate 64 CHR ''0''"
    by (simp_all add: gap_bundle_def sample_sent_def sample_bundle_def gap_side_def dirs_def)
  ultimately show ?thesis
    unfolding ValidateBundle_checks by (simp add: BundleVersion_def MaxChangeEntries_def list_all_iff)
qed

lemma unlisted_directory_missed:
  "map_option snd (mergeChangeRoots 6 (\<lambda>_ _ _. GitNotRun) 0x12 [] [] [] Map.empty gap_bundle [''a''] (gap_side 0x1ED) False) =
     Some ([], None)"
  "\<not> mergeable (\<lambda>_ _ _. GitNotRun) (merge_input (newMergeTree [] (BaseManifest gap_bundle)) (newMergeTree [] (gap_side 0x1ED))
      (newMergeTree [] (RemoteManifest gap_bundle)) False) ''a/b/c''"
proof -
  show "map_option snd (mergeChangeRoots 6 (\<lambda>_ _ _. GitNotRun) 0x12 [] [] [] Map.empty gap_bundle [''a''] (gap_side 0x1ED) False) =
      Some ([], None)" by code_simp
  let ?i = "merge_input (newMergeTree [] (BaseManifest gap_bundle)) (newMergeTree [] (gap_side 0x1ED))
      (newMergeTree [] (RemoteManifest gap_bundle)) False"
  have "entry_of (m_base ?i) ''a/b/c'' = None" "entry_of (m_ours ?i) ''a/b/c'' = Some (dir_entry ''a/b/c'' 0x1ED)"
    "entry_of (m_remote ?i) ''a/b/c'' = Some (dir_entry ''a/b/c'' 0x1C0)" by code_simp+
  moreover have "dir_entry ''a/b/c'' 0x1ED \<noteq> dir_entry ''a/b/c'' 0x1C0" by (simp add: dir_entry_def)
  ultimately show "\<not> mergeable (\<lambda>_ _ _. GitNotRun) ?i ''a/b/c''" by (simp add: mergeable_def mergeMode_def dir_entry_def)
qed

text \<open>C20. The merge returns: with more fuel than the longest path of the three trees and their
  manifests has characters, \<open>mergeChangeRoots\<close> reaches a result, whatever the trees hold and
  whatever \<open>git\<close> answers. The recursions of \<open>mergeTreePath\<close> and \<open>copyMergeScratch\<close> only descend
  to longer paths.\<close>
theorem merge_terminates:
  assumes "bounded B (fst ` set baseRoot \<union> fst ` set oursRoot \<union> fst ` set remoteRoot)"
    and "\<forall>m \<in> {BaseManifest b, ours, RemoteManifest b}. \<forall>e \<in> set (slice (Entries m)). rel_path (Path e) \<and> length (Path e) \<le> B"
    and "\<forall>p \<in> set paths. rel_path p" "B < fuel"
  shows "\<exists>r. mergeChangeRoots fuel git umask baseRoot oursRoot remoteRoot fs0 b paths ours materialize = Some r"
proof -
  let ?input = "merge_input (newMergeTree baseRoot (BaseManifest b)) (newMergeTree oursRoot ours)
      (newMergeTree remoteRoot (RemoteManifest b)) materialize"
  have ch: "path_dir q = p \<and> rel_path q \<and> length q \<le> B"
    if "q \<in> set (children (newMergeTree d m) p)" "m \<in> {BaseManifest b, ours, RemoteManifest b}" for q d m p
    using that assms(2) by (fastforce simp: newMergeTree_def)
  have disk: "bounded B (fst ` set d)" if "d \<in> {baseRoot, oursRoot, remoteRoot}" for d
    using that assms(1) unfolding bounded_def by blast
  have input: "input_bounded B ?input"
  proof -
    have t: "bounded B (fst ` set (root (newMergeTree d m))) \<and>
        (\<forall>p. \<forall>q \<in> set (children (newMergeTree d m) p). path_dir q = p \<and> rel_path q \<and> length q \<le> B)"
      if "d \<in> {baseRoot, oursRoot, remoteRoot}" "m \<in> {BaseManifest b, ours, RemoteManifest b}" for d m
    proof -
      have r: "root (newMergeTree d m) = d" by (simp add: newMergeTree_def)
      show ?thesis unfolding r using ch [OF _ that(2)] disk [OF that(1)] by blast
    qed
    show ?thesis
      unfolding input_bounded_def merge_input_def using t [of baseRoot "BaseManifest b"] t [of oursRoot ours]
        t [of remoteRoot "RemoteManifest b"] by simp
  qed
  have ours: "bounded B (fst ` set (root (m_ours ?input)))" using disk by (simp add: merge_input_def newMergeTree_def)
  have tree: "returns (mergeTreePath fuel git fuel umask ?input p st)" if "p \<in> set paths" for p st
    using mergeTreePath_total [OF input assms(4)] assms(3,4) that by simp
  have "returns (mergeMetadataPath fuel umask ?input p st)" if "p \<in> set paths" for p st
    unfolding mergeMetadataPath_def Let_def using refuse_total [OF ours _ assms(4)] assms(3) that
    by (auto split: option.split prod.split intro!: then_merge_total)
  with tree have "returns (each_merge (\<lambda>p st. if p \<in> set (MetadataPaths b) then mergeMetadataPath fuel umask ?input p st
      else mergeTreePath fuel git fuel umask ?input p st) paths (fs0, []))" by (intro each_merge_total) simp
  then show ?thesis unfolding mergeChangeRoots_def Let_def returns_def by (auto split: sum.split)
qed

theorem merge_terminates_witness:
  "\<exists>r. mergeChangeRoots 2 (\<lambda>_ _ _. GitNotRun) 0x12 [(''a'', FDir 0x1ED)] [(''a'', FDir 0x1FF)] [(''a'', FDir 0x1C0)] Map.empty
     sample_sent [''a''] (dirs [dir_entry ''a'' 0x1FF]) True = Some r"
proof -
  have a: "rel_path ''a''" by code_simp
  show ?thesis
    by (rule merge_terminates [of 1]) (use a in \<open>auto simp: bounded_def sample_sent_def sample_bundle_def dirs_def dir_entry_def\<close>)
qed

end
