(* ===== verification/Spec2Isabelle.thy ===== *)
theory Spec2Isabelle
  imports Relpath Proto Ulid Manifest_Json Pathpolicy Policy_Rules Policy_Decls Archive Extract
    Blob_Cache Cache_Jobs Snapshot_Theorems Lease_Target Placement Log_Window Change_Accept Change_Merge
begin

text \<open>
  Verification of errand.

  \<^bold>\<open>The program.\<close> errand runs a command of a local workspace on another machine. The client
  describes the workspace by a manifest (\<open>internal/proto\<close>, \<open>internal/snapshot\<close>), keeps it as a
  retained snapshot (\<open>internal/manifest\<close>), filters it by a selection policy
  (\<open>internal/pathpolicy\<close>), chooses a runner (\<open>internal/placement\<close>) and sends the files as a tar
  stream. The daemon validates the manifest, extracts the stream (\<open>internal/archive\<close>) and takes
  the files it already has from its snapshot cache (\<open>internal/daemon/cache.go\<close>). The output of
  the job goes to an append-only log that clients follow and replay (\<open>internal/logio\<close>). What
  the job changed comes back as a bundle between two snapshots, is merged into the workspace and
  advances the checkpoint of its source (\<open>internal/changes\<close>).

  \<^bold>\<open>Theories and sources\<close> (paths below \<open>src/internal\<close>).
  \<^item> \<open>Prelude\<close>: errors as sums (\<open>bind_res\<close>, \<open>each_ok\<close>), the \<open>strings\<close> functions, \<open>sort.Search\<close> and
    \<open>slices.BinarySearchFunc\<close> with their specifications on sorted lists.
  \<^item> \<open>Relpath\<close>: \<open>relpath/relpath.go\<close> with \<open>path.Clean\<close>, \<open>Dir\<close>, \<open>Join\<close>; the directories above a path.
  \<^item> \<open>Proto\<close>, \<open>Ulid\<close>, \<open>Manifest_Json\<close>: the wire and receipt types of \<open>proto/proto.go\<close>,
    \<open>proto/ulid.go\<close>, and the canonical JSON and root hash of \<open>proto/manifest_json.go\<close>.
  \<^item> \<open>Base64\<close>, \<open>Lease_Target\<close>: \<open>proto/lease_target.go\<close> on a model of Go's base64 decoders.
  \<^item> \<open>Pathpolicy\<close>, \<open>Policy_Rules\<close>, \<open>Policy_Decls\<close>: \<open>pathpolicy/policy.go\<close>, \<open>caches.go\<close>,
    \<open>artifacts.go\<close>: glob segments, double stars, the last rule that matches, declarations.
  \<^item> \<open>Placement\<close>: \<open>placement/requirements.go\<close>: selectors and what a runner misses.
  \<^item> \<open>Archive\<close>, \<open>Extract\<close>: \<open>archive/archive.go\<close>, \<open>windows_names.go\<close>: both validators of a manifest
    and the extraction of a stream on a model file system.
  \<^item> \<open>Blob_Cache\<close>, \<open>Cache_Jobs\<close>: \<open>daemon/cache.go\<close>, \<open>cache_pins.go\<close>: the cache as a record, its
    operations, and the step relation of jobs that insert, pin, materialize, release and
    collect in any order. What holds the mutex is one step; \<open>Materialize\<close> is two of them with
    its copy between, where the others go on and the file may be replaced (\<open>fsidentity\<close>).
  \<^item> \<open>Manifest_Tree\<close>, \<open>Manifest_Treap\<close>, \<open>Manifest_Build\<close>, \<open>Manifest_Diff\<close>: \<open>manifest/tree.go\<close>,
    \<open>hash.go\<close>: the index, a treap with Merkle digests, its joins, splits, one-pass build and
    comparison. \<open>Manifest_Snapshot\<close>: \<open>manifest/snapshot.go\<close>, \<open>export.go\<close>, every method.
    \<open>Manifest_Inventory\<close>, \<open>Snapshot_Refine\<close>, \<open>Snapshot_Update\<close>, \<open>Snapshot_Laws\<close>,
    \<open>Snapshot_Theorems\<close>: the refinement of snapshots to sorted lists. \<open>Index_Checkpoint\<close>:
    \<open>manifest/index_checkpoint.go\<close>.
  \<^item> \<open>Logio\<close>, \<open>Log_Follow\<close>, \<open>Log_Live\<close>, \<open>Log_Window\<close>: \<open>logio/logio.go\<close>, \<open>window.go\<close>: the writer, a
    follower of a finished log, a follower that interleaves with the writer and sees records
    while they are written, and tails.
  \<^item> \<open>Change_Delta\<close>: \<open>changes/changes.go\<close> from two snapshots to a bundle. \<open>Change_Bundle\<close>: the
    checks of \<open>changes/bundle.go\<close>. \<open>Change_Accept\<close>: \<open>checkpoint.go\<close>, \<open>source_delta.go\<close>,
    \<open>source_snapshot.go\<close>, \<open>source_prepared.go\<close>, \<open>transfer.go\<close>: how a source advances by what was
    accepted. \<open>Change_Merge\<close>: \<open>changes/merge.go\<close> with \<open>copyMergeScratch\<close>, the three-way merge.

  \<^bold>\<open>Correspondence.\<close> A struct is a record, an error an \<open>Inl\<close>, a slice a list, a nil slice \<open>None\<close>
  where the code distinguishes it. A method that changes its receiver returns it. A map is an
  association list or a partial function. Strings and bytes are lists of characters. An
  \<open>int64\<close> is an integer with the wrap-around written out where the code can overflow
  (\<open>wrap64\<close>, \<open>MaxInt64\<close>), a file mode a \<open>32 word\<close>.

  \<^bold>\<open>What the lemmas show.\<close>
  \<^item> Trust boundary: extraction leaves only what the manifest allows, also on failure, and puts
    every declared entry in place on success; the fast validator equals the reference; the
    text of an accepted symlink target never climbs out of the workspace (a chain of links
    can: \<open>chained_links_leave\<close>); a lease target is accepted exactly when it is of the
    documented form; a restored index is
    sound whatever its image holds; a bundle is accepted exactly when it meets the declarative
    conditions of \<open>bundle_ok\<close>.
  \<^item> State: pinned blobs survive (unless their file is damaged from outside), counters are
    exact, eviction is least-recently-used and a dry run tells what a collection does in every
    reachable state of the cache, corrupt blobs at start-up included; the log file is the
    numbered frames under every interleaving; a live follower delivers a prefix and returns
    once the log is closed.
  \<^item> Refinement: after any history of calls a snapshot behaves as its sorted inventory;
    \<open>Diff\<close> and \<open>Update\<close> are inverse; the index is canonical and at most 128 high.
  \<^item> Composition: the delta between a checkpoint and the current manifest passes every check of
    the receiver, which reconstructs exactly the current entries
    (\<open>delta_transfer_roundtrip\<close>, over manifests, snapshots, differences, bundles and
    accepted sources); accepting a part of it gives the current values below the accepted
    roots and the old ones elsewhere, in the manifest and in the retained snapshot alike; the
    merge reports only real conflicts, misses none where the manifests list their directories
    (\<open>unlisted_directory_missed\<close> shows why that is needed), and reaches a result.
  \<^item> Codecs: root hashes identify manifests, ULID timestamps and log frames read back.

  \<^bold>\<open>Interfaces.\<close> \<open>inventory\<close> (lookup and ordered walk determined by a sorted listing) is
  interpreted by the flat slice (\<open>flat\<close>), the treap (\<open>retained\<close>) and the snapshot (\<open>snap\<close>);
  \<open>blob_resolver\<close> (the callback of the extraction) by the snapshot cache; \<open>line_codec\<close>
  (records on lines) by log frames. Clients use the interpretations' facts.

  \<^bold>\<open>Parameters and hypotheses.\<close> SHA-256 (\<open>sha\<close>, \<open>sha256hex\<close>) is a parameter; where its quality
  matters the hypothesis is \<open>collision_free\<close> on the inputs at hand, or injectivity on the two
  encodings compared. \<open>json.Marshal\<close> and \<open>Unmarshal\<close>, \<open>url.Parse\<close>, the curve check of
  \<open>crypto/ecdh\<close>, the Unicode case maps, \<open>git merge-file\<close> and the digest of a bundle are
  parameters; what is used of them is a named hypothesis with an instance in the witness.
  Clocks, random bits, the umask, the outcome of each write, and what others do to the cache
  while a blob is copied (\<open>meanwhile\<close>) are arguments.

  \<^bold>\<open>Bounds and fuel.\<close> Bounds are the program's: 128 levels of the index, 4096 entries before an
  index is built, 32 KiB of data per frame, 100000 entries per bundle, the limits of a policy.
  Loops are structural or carry a termination proof; only the recursions of the merge take
  fuel, and \<open>merge_terminates\<close> shows that more fuel than the longest path has characters
  suffices.

  \<^bold>\<open>Not modelled.\<close> Cancellation during a call, except in the log follower; device failures other than
  failed log writes, failed reads of a followed log and failed removals in the cache;
  scheduling inside the hash workers. The journal and the installation of merged values
  (\<open>changes/apply.go\<close>, \<open>journal.go\<close>), staging, blob and checkpoint files, and the named caches
  are sequences of renames and syncs whose correctness is the crash behaviour of real file
  systems. The capture of a workspace, HTTP, SSH, processes, cloud providers, configuration and
  the command line are input and output. In \<open>placement\<close> the comparisons of prices and loads use
  floating-point numbers. The extraction and the merge follow the Unix branch of link creation.
\<close>

end
